(* ===== verification/Prelude.thy ===== *)
theory Prelude
  imports Main "HOL-Library.Word"
begin

section \<open>Prelude: bytes, clocks, saturating integers, slices\<close>

text \<open>
  The types and the fragment of the Rust standard library that every component of the relay
  uses:
  \<^item> \<^verbatim>\<open>u8\<close> is \<open>byte\<close>, a byte string or byte array is \<open>bytes\<close>; the fixed length of an array
    type such as \<^verbatim>\<open>[u8; 16]\<close> is a predicate on the list;
  \<^item> \<^verbatim>\<open>u16\<close>, \<^verbatim>\<open>u32\<close>, \<^verbatim>\<open>u64\<close> are words; \<^verbatim>\<open>usize\<close> lengths and counts are \<open>nat\<close>;
  \<^item> a \<^verbatim>\<open>Duration\<close> is its number of nanoseconds, a \<open>nat\<close>; an \<^verbatim>\<open>Instant\<close> is a number of
    nanoseconds on the monotonic clock, an \<open>int\<close>, because the representation reaches below the
    origin of the clock on some platforms;
  \<^item> \<^verbatim>\<open>Instant::duration_since\<close> and \<^verbatim>\<open>saturating_duration_since\<close> give zero for a later argument.
\<close>

named_theorems word_conv \<open>moving saturating word operations to natural numbers\<close>
named_theorems time_simps \<open>unfolding durations and instants\<close>

subsection \<open>Types\<close>

type_synonym byte = "8 word"
type_synonym bytes = "byte list"
type_synonym u16 = "16 word"
type_synonym u32 = "32 word"
type_synonym u64 = "64 word"
type_synonym duration = nat
type_synonym instant = int

text \<open>\<^verbatim>\<open>std::io::Error\<close>: the kinds the relay makes or inspects, with the message it attaches.\<close>

datatype io_error =
    Io_NotFound
  | Io_AlreadyExists string
  | Io_InvalidData string
  | Io_InvalidInput string
  | Io_AddrNotAvailable string
  | Io_Other string

subsection \<open>Durations and instants\<close>

definition nanos_per_sec :: nat where
  "nanos_per_sec = 1000000000"

definition from_secs :: "nat \<Rightarrow> duration" where
  "from_secs s = s * nanos_per_sec"

definition from_micros :: "nat \<Rightarrow> duration" where
  "from_micros m = m * 1000"

definition from_millis :: "nat \<Rightarrow> duration" where
  "from_millis m = m * 1000000"

definition as_secs :: "duration \<Rightarrow> nat" where
  "as_secs d = d div nanos_per_sec"

definition subsec_nanos :: "duration \<Rightarrow> nat" where
  "subsec_nanos d = d mod nanos_per_sec"

definition as_micros :: "duration \<Rightarrow> nat" where
  "as_micros d = d div 1000"

definition duration_since :: "instant \<Rightarrow> instant \<Rightarrow> duration" where
  "duration_since now ts = nat (now - ts)"

text \<open>
  \<^verbatim>\<open>Instant::checked_sub\<close> is \<^verbatim>\<open>None\<close> when the result is not representable; the earliest
  representable instant depends on the platform and is the argument \<open>lo\<close>.
\<close>

definition instant_checked_sub :: "instant \<Rightarrow> instant \<Rightarrow> duration \<Rightarrow> instant option" where
  "instant_checked_sub lo now d = (if lo \<le> now - int d then Some (now - int d) else None)"

lemmas duration_defs [time_simps] =
  nanos_per_sec_def from_secs_def from_micros_def from_millis_def as_secs_def as_micros_def
  subsec_nanos_def

lemma duration_since_le_iff [time_simps]:
  "ts \<le> now \<Longrightarrow> duration_since now ts \<le> d \<longleftrightarrow> now \<le> ts + int d"
  by (auto simp: duration_since_def)

lemma duration_since_mono:
  "now \<le> now' \<Longrightarrow> ts' \<le> ts \<Longrightarrow> duration_since now ts \<le> duration_since now' ts'"
  by (simp add: duration_since_def)

lemma duration_since_self [simp]: "duration_since now now = 0"
  by (simp add: duration_since_def)

lemma as_secs_floor: "from_secs (as_secs d) \<le> d"
  by (simp add: time_simps)

lemma as_secs_ceil: "d < from_secs (as_secs d) + nanos_per_sec"
  using div_mult_mod_eq [of d nanos_per_sec] mod_less_divisor [of nanos_per_sec d]
  by (simp add: from_secs_def as_secs_def nanos_per_sec_def)

lemma instant_checked_sub_bounds:
  assumes "instant_checked_sub lo now d = Some t"
  shows "t = now - int d" "lo \<le> t" "t \<le> now"
  using assms by (auto simp: instant_checked_sub_def split: if_splits)

subsection \<open>Saturating arithmetic on machine words\<close>

definition sat_add :: "'a::len word \<Rightarrow> 'a word \<Rightarrow> 'a word" where
  "sat_add a b = (if unat a + unat b < 2 ^ LENGTH('a) then a + b else - 1)"

definition sat_sub :: "'a::len word \<Rightarrow> 'a word \<Rightarrow> 'a word" where
  "sat_sub a b = (if b \<le> a then a - b else 0)"

lemma unat_sat_add [word_conv]:
  fixes a b :: "'a::len word"
  shows "unat (sat_add a b) = min (unat a + unat b) (2 ^ LENGTH('a) - 1)"
proof (cases "unat a + unat b < 2 ^ LENGTH('a)")
  case True
  then show ?thesis by (simp add: sat_add_def unat_word_ariths)
next
  case False
  then show ?thesis by (simp add: sat_add_def unsigned_minus_1_eq_mask mask_eq_exp_minus_1)
qed

lemma unat_sat_sub [word_conv]: "unat (sat_sub a b) = unat a - unat b"
proof (cases "b \<le> a")
  case True
  then show ?thesis by (simp add: sat_sub_def unat_sub)
next
  case False
  then have "unat a \<le> unat b" by (simp add: word_le_nat_alt)
  with False show ?thesis by (simp add: sat_sub_def)
qed

lemma sat_add_mono: "a \<le> sat_add a b"
  for a b :: "'a::len word"
proof -
  have "unat a < 2 ^ LENGTH('a)" by (rule unsigned_less)
  then show ?thesis unfolding word_le_nat_alt unat_sat_add by linarith
qed

lemma sat_sub_le: "sat_sub a b \<le> a"
  by (simp add: word_le_nat_alt unat_sat_sub)

subsection \<open>Slices\<close>

text \<open>
  \<^verbatim>\<open>xs[..n]\<close>, \<^verbatim>\<open>xs[n..]\<close> and \<^verbatim>\<open>xs[a..b]\<close> panic when out of range: \<open>None\<close>. \<^verbatim>\<open>slice::chunks\<close> cuts
  a slice into pieces of \<open>n\<close>, the last one possibly shorter; \<^verbatim>\<open>as_chunks\<close> gives the full pieces.
\<close>

definition slice_to :: "nat \<Rightarrow> 'a list \<Rightarrow> 'a list option" where
  "slice_to n xs = (if n \<le> length xs then Some (take n xs) else None)"

definition slice_from :: "nat \<Rightarrow> 'a list \<Rightarrow> 'a list option" where
  "slice_from n xs = (if n \<le> length xs then Some (drop n xs) else None)"

definition slice :: "nat \<Rightarrow> nat \<Rightarrow> 'a list \<Rightarrow> 'a list option" where
  "slice a b xs = (if a \<le> b \<and> b \<le> length xs then Some (take (b - a) (drop a xs)) else None)"

function chunks :: "nat \<Rightarrow> 'a list \<Rightarrow> 'a list list" where
  "chunks n xs = (if n = 0 \<or> xs = [] then [] else take n xs # chunks n (drop n xs))"
  by pat_completeness auto
termination
  by (relation "measure (\<lambda>(n, xs). length xs)") auto

declare chunks.simps [simp del]

definition as_chunks :: "nat \<Rightarrow> 'a list \<Rightarrow> 'a list list" where
  "as_chunks n xs = chunks n (take (length xs div n * n) xs)"

lemma chunks_Nil [simp]: "chunks n [] = []"
  by (simp add: chunks.simps)

lemma chunks_step:
  "0 < n \<Longrightarrow> xs \<noteq> [] \<Longrightarrow> chunks n xs = take n xs # chunks n (drop n xs)"
  by (subst chunks.simps) simp

lemma chunks_append:
  "0 < n \<Longrightarrow> length xs = n \<Longrightarrow> chunks n (xs @ ys) = xs # chunks n ys"
  by (subst chunks_step) auto

lemma concat_chunks: "0 < n \<Longrightarrow> concat (chunks n xs) = xs"
proof (induction n xs rule: chunks.induct)
  case (1 n xs)
  then show ?case by (cases "xs = []") (simp_all add: chunks_step)
qed

lemma chunks_length:
  "0 < n \<Longrightarrow> c \<in> set (chunks n xs) \<Longrightarrow> 0 < length c \<and> length c \<le> n"
proof (induction n xs rule: chunks.induct)
  case (1 n xs)
  then show ?case by (cases "xs = []") (auto simp: chunks_step)
qed

subsection \<open>Lists\<close>

lemma sorted_snoc: "sorted xs \<Longrightarrow> (\<And>x. x \<in> set xs \<Longrightarrow> x \<le> y) \<Longrightarrow> sorted (xs @ [y])"
  by (simp add: sorted_append)

lemma map_of_snoc:
  "k \<notin> fst ` set q \<Longrightarrow> map_of (q @ [(k, v)]) = (map_of q)(k \<mapsto> v)"
  by (simp add: map_add_upd_left dom_map_of_conv_image_fst)

lemma card_dom_map_of: "distinct (map fst m) \<Longrightarrow> card (dom (map_of m)) = length m"
  by (simp add: dom_map_of_conv_image_fst distinct_card flip: set_map)

end
