(* ===== verification/Hash_Map.thy ===== *)
theory Hash_Map
  imports Prelude "HOL-Library.AList"
begin

section \<open>Hash maps\<close>

text \<open>
  \<^verbatim>\<open>std::collections::HashMap\<close> as the replay cache, the per-source limiter and the connection
  pool use it. The interface is the locale \<open>hash_table\<close>; the model is an association list with
  distinct keys. What the clients need of the interface, that inserting one entry after making
  room keeps a table within its bound, is proved once in the locale.

  The iteration order of a \<^verbatim>\<open>HashMap\<close> is not specified. A definition that iterates takes the
  order as an argument \<open>ord\<close>, and \<open>iterates\<close> says that it visits every entry once.
\<close>

type_synonym ('k, 'v) hmap = "('k \<times> 'v) list"

definition hm_get :: "('k, 'v) hmap \<Rightarrow> 'k \<Rightarrow> 'v option" where
  "hm_get m k = map_of m k"

definition hm_contains :: "('k, 'v) hmap \<Rightarrow> 'k \<Rightarrow> bool" where
  "hm_contains m k = (map_of m k \<noteq> None)"

definition hm_insert :: "'k \<Rightarrow> 'v \<Rightarrow> ('k, 'v) hmap \<Rightarrow> ('k, 'v) hmap" where
  "hm_insert k v m = AList.update k v m"

definition hm_remove :: "'k \<Rightarrow> ('k, 'v) hmap \<Rightarrow> ('k, 'v) hmap" where
  "hm_remove k m = AList.delete k m"

definition hm_len :: "('k, 'v) hmap \<Rightarrow> nat" where
  "hm_len m = length m"

definition hm_wf :: "('k, 'v) hmap \<Rightarrow> bool" where
  "hm_wf m = distinct (map fst m)"

definition iterates :: "(('k, 'v) hmap \<Rightarrow> ('k \<times> 'v) list) \<Rightarrow> bool" where
  "iterates ord \<longleftrightarrow> (\<forall>m. set (ord m) = set m)"

text \<open>\<^verbatim>\<open>Iterator::min_by_key\<close>: the first of the elements with the least key.\<close>

fun min_by_key :: "('a \<Rightarrow> 'b::linorder) \<Rightarrow> 'a list \<Rightarrow> 'a option" where
  "min_by_key f [] = None"
| "min_by_key f (x # xs) =
     (case min_by_key f xs of None \<Rightarrow> Some x | Some y \<Rightarrow> Some (if f y < f x then y else x))"

lemma min_by_key_None [simp]: "min_by_key f xs = None \<longleftrightarrow> xs = []"
  by (cases xs) (simp_all split: option.splits)

lemma min_by_key_least:
  "min_by_key f xs = Some m \<Longrightarrow> m \<in> set xs \<and> (\<forall>x\<in>set xs. f m \<le> f x)"
proof (induction xs arbitrary: m)
  case (Cons x xs)
  then show ?case
    by (cases "min_by_key f xs") (force split: if_splits)+
qed simp

subsection \<open>The interface\<close>

locale hash_table =
  fixes lookup :: "'m \<Rightarrow> 'k \<Rightarrow> 'v option"
    and insert :: "'k \<Rightarrow> 'v \<Rightarrow> 'm \<Rightarrow> 'm"
    and remove :: "'k \<Rightarrow> 'm \<Rightarrow> 'm"
    and size_of :: "'m \<Rightarrow> nat"
    and wf :: "'m \<Rightarrow> bool"
  assumes lookup_insert: "wf m \<Longrightarrow> lookup (insert k v m) = (lookup m)(k \<mapsto> v)"
    and lookup_remove: "wf m \<Longrightarrow> lookup (remove k m) = (lookup m)(k := None)"
    and size_dom: "wf m \<Longrightarrow> size_of m = card (dom (lookup m))"
    and finite_dom: "wf m \<Longrightarrow> finite (dom (lookup m))"
    and wf_insert: "wf m \<Longrightarrow> wf (insert k v m)"
    and wf_remove: "wf m \<Longrightarrow> wf (remove k m)"
begin

lemma size_insert_new: "wf m \<Longrightarrow> lookup m k = None \<Longrightarrow> size_of (insert k v m) = Suc (size_of m)"
  by (simp add: size_dom wf_insert lookup_insert finite_dom domIff)

lemma size_insert_old:
  "wf m \<Longrightarrow> lookup m k = Some w \<Longrightarrow> size_of (insert k v m) = size_of m"
  by (simp add: size_dom wf_insert lookup_insert insert_absorb domI)

lemma size_insert_le: "wf m \<Longrightarrow> size_of (insert k v m) \<le> Suc (size_of m)"
  by (cases "lookup m k") (simp_all add: size_insert_new size_insert_old)

lemma size_remove_old: "wf m \<Longrightarrow> lookup m k = Some w \<Longrightarrow> size_of (remove k m) = size_of m - 1"
  by (simp add: size_dom wf_remove lookup_remove finite_dom domI)

lemma size_remove_le: "wf m \<Longrightarrow> size_of (remove k m) \<le> size_of m"
  by (simp add: size_dom wf_remove lookup_remove finite_dom card_Diff1_le)

text \<open>Inserting after evicting one tracked entry from a full table keeps the bound.\<close>

lemma evict_insert_bound:
  assumes "wf m" "size_of m \<le> cap" "1 \<le> cap"
    and "cap \<le> size_of m \<Longrightarrow> \<exists>w. lookup m victim = Some w"
    and "m' = (if cap \<le> size_of m then remove victim m else m)"
  shows "size_of (insert k v m') \<le> cap"
proof (cases "cap \<le> size_of m")
  case True
  with assms obtain w where "lookup m victim = Some w" by auto
  then have "size_of m' = size_of m - 1" and "wf m'"
    using assms True by (simp_all add: size_remove_old wf_remove)
  then show ?thesis
    using size_insert_le [of m' k v] assms(2,3) True by linarith
next
  case False
  then show ?thesis using size_insert_le [of m' k v] assms by simp
qed

end

subsection \<open>The association list is a hash table\<close>

lemma hm_contains_iff: "hm_contains m k \<longleftrightarrow> k \<in> fst ` set m"
  by (simp add: hm_contains_def map_of_eq_None_iff)

interpretation hm: hash_table hm_get hm_insert hm_remove hm_len hm_wf
proof unfold_locales
  fix m :: "('k, 'v) hmap" and k v
  assume wf: "hm_wf m"
  show "hm_get (hm_insert k v m) = (hm_get m)(k \<mapsto> v)"
    by (simp add: fun_eq_iff hm_get_def hm_insert_def update_conv')
  show "hm_get (hm_remove k m) = (hm_get m)(k := None)"
    by (simp add: fun_eq_iff hm_get_def hm_remove_def delete_conv')
  show "hm_len m = card (dom (hm_get m))"
    using wf by (simp add: hm_len_def hm_wf_def hm_get_def [abs_def] card_dom_map_of)
  show "finite (dom (hm_get m))"
    by (simp add: hm_get_def [abs_def] finite_dom_map_of)
  show "hm_wf (hm_insert k v m)"
    using wf by (simp add: hm_wf_def hm_insert_def distinct_update)
  show "hm_wf (hm_remove k m)"
    using wf by (simp add: hm_wf_def hm_remove_def distinct_delete)
qed

lemmas hm_exec = hm_get_def hm_contains_def hm_insert_def hm_remove_def hm_len_def hm_wf_def

lemma hm_wf_Nil [simp]: "hm_wf []"
  by (simp add: hm_wf_def)

lemma hm_contains_Nil [simp]: "\<not> hm_contains [] k"
  by (simp add: hm_contains_def)

lemma hm_len_Nil [simp]: "hm_len [] = 0"
  by (simp add: hm_len_def)

lemma hm_get_Nil [simp]: "hm_get [] k = None"
  by (simp add: hm_get_def)

end
