(* ===== verification/Replay_Cache.thy ===== *)
theory Replay_Cache
  imports Hash_Map
begin

section \<open>The replay cache\<close>

text \<open>
  \<^verbatim>\<open>crypto-gotham-relay/src/replay.rs\<close>, the type \<^verbatim>\<open>ReplayCache\<close>: a hash map from the 16-byte
  per-hop MAC of a packet to the instant it was first seen, and a queue of the same entries in
  insertion order. The theory models the constructor, the expiry sweep, the check-and-insert and
  the length, and proves
  \<^item> the representation invariant (map and queue hold the same entries, each key once) and the
    bound on the number of entries;
  \<^item> that the pair of map and queue implements the abstract sliding window \<open>window_check\<close>;
  \<^item> that a key answered \<open>Fresh\<close> is answered \<open>Replay\<close> for the whole time to live, as long as
    fewer than \<open>max_size\<close> other keys were accepted in between, and that eviction is first-in
    first-out.
\<close>

subsection \<open>State and operations\<close>

datatype replay_check = Fresh | Replay

record replay_cache =
  rc_map :: "(bytes, instant) hmap"
  rc_queue :: "(bytes \<times> instant) list"
  rc_ttl :: duration
  rc_max_size :: nat

definition rc_new :: "nat \<Rightarrow> duration \<Rightarrow> replay_cache" where
  "rc_new max_size ttl = \<lparr>rc_map = [], rc_queue = [], rc_ttl = ttl, rc_max_size = max_size\<rparr>"

text \<open>The loop of \<^verbatim>\<open>sweep_expired\<close> pops the front while it is older than the time to live.\<close>

fun sweep_loop :: "duration \<Rightarrow> instant \<Rightarrow> (bytes, instant) hmap \<Rightarrow> (bytes \<times> instant) list
    \<Rightarrow> (bytes, instant) hmap \<times> (bytes \<times> instant) list" where
  "sweep_loop ttl now m [] = (m, [])"
| "sweep_loop ttl now m ((k, ts) # q) =
     (if duration_since now ts > ttl then sweep_loop ttl now (hm_remove k m) q
      else (m, (k, ts) # q))"

definition sweep_expired :: "instant \<Rightarrow> replay_cache \<Rightarrow> replay_cache" where
  "sweep_expired now c =
     (case sweep_loop (rc_ttl c) now (rc_map c) (rc_queue c) of
        (m, q) \<Rightarrow> c\<lparr>rc_map := m, rc_queue := q\<rparr>)"

definition rc_evict_front :: "replay_cache \<Rightarrow> replay_cache" where
  "rc_evict_front c =
     (case rc_queue c of
        [] \<Rightarrow> c
      | (old_k, _) # q \<Rightarrow> c\<lparr>rc_queue := q, rc_map := hm_remove old_k (rc_map c)\<rparr>)"

definition check_and_insert_at :: "bytes \<Rightarrow> instant \<Rightarrow> replay_cache \<Rightarrow> replay_check \<times> replay_cache" where
  "check_and_insert_at key now c =
     (let c1 = sweep_expired now c in
      if hm_contains (rc_map c1) key then (Replay, c1)
      else
        let c2 = (if hm_len (rc_map c1) \<ge> rc_max_size c1 then rc_evict_front c1 else c1) in
        (Fresh, c2\<lparr>rc_map := hm_insert key now (rc_map c2),
                   rc_queue := rc_queue c2 @ [(key, now)]\<rparr>))"

definition rc_len :: "replay_cache \<Rightarrow> nat" where
  "rc_len c = hm_len (rc_map c)"

definition rc_is_empty :: "replay_cache \<Rightarrow> bool" where
  "rc_is_empty c = (rc_map c = [])"

text \<open>A history of checks, at the instants the clock gave for each.\<close>

fun run_checks :: "('k \<Rightarrow> instant \<Rightarrow> 'c \<Rightarrow> replay_check \<times> 'c) \<Rightarrow> ('k \<times> instant) list \<Rightarrow> 'c
    \<Rightarrow> replay_check list \<times> 'c" where
  "run_checks chk [] c = ([], c)"
| "run_checks chk ((k, t) # ops) c =
     (case chk k t c of (r, c1) \<Rightarrow> case run_checks chk ops c1 of (rs, c2) \<Rightarrow> (r # rs, c2))"

abbreviation check_run :: "(bytes \<times> instant) list \<Rightarrow> replay_cache \<Rightarrow> replay_check list \<times> replay_cache" where
  "check_run \<equiv> run_checks check_and_insert_at"

definition fresh_count :: "replay_check list \<Rightarrow> nat" where
  "fresh_count rs = length (filter (\<lambda>r. r = Fresh) rs)"

subsection \<open>The representation invariant\<close>

definition rc_inv :: "replay_cache \<Rightarrow> bool" where
  "rc_inv c \<longleftrightarrow>
     hm_wf (rc_map c) \<and> distinct (map fst (rc_queue c)) \<and>
     hm_get (rc_map c) = map_of (rc_queue c) \<and>
     length (rc_queue c) \<le> max 1 (rc_max_size c)"

text \<open>The queue is in time order and no entry lies in the future.\<close>

definition rc_ordered :: "instant \<Rightarrow> replay_cache \<Rightarrow> bool" where
  "rc_ordered now c \<longleftrightarrow>
     sorted (map snd (rc_queue c)) \<and> (\<forall>e\<in>set (rc_queue c). snd e \<le> now)"

subsection \<open>The abstract window\<close>

text \<open>
  What the cache is for, without the map: the live entries are those not older than the time to
  live; a key among them is a replay; otherwise it is appended, and the oldest live entry is
  dropped when the window is full. A window of size zero still remembers the last key.
\<close>

definition live :: "duration \<Rightarrow> instant \<Rightarrow> (bytes \<times> instant) list \<Rightarrow> (bytes \<times> instant) list" where
  "live ttl now q = filter (\<lambda>e. duration_since now (snd e) \<le> ttl) q"

definition window_check :: "duration \<Rightarrow> nat \<Rightarrow> bytes \<Rightarrow> instant \<Rightarrow> (bytes \<times> instant) list
    \<Rightarrow> replay_check \<times> (bytes \<times> instant) list" where
  "window_check ttl max_size k now q =
     (let w = live ttl now q in
      if k \<in> fst ` set w then (Replay, w)
      else (Fresh, drop (Suc (length w) - max 1 max_size) w @ [(k, now)]))"

subsection \<open>Sweeping\<close>

lemma sweep_loop_suffix:
  "sweep_loop ttl now m q = (m', q') \<Longrightarrow> \<exists>p. q = p @ q' \<and> (\<forall>e\<in>set p. ttl < duration_since now (snd e))"
proof (induction ttl now m q rule: sweep_loop.induct)
  case (2 ttl now m k ts q)
  show ?case
  proof (cases "duration_since now ts > ttl")
    case True
    with 2 obtain p where "q = p @ q'" "\<forall>e\<in>set p. ttl < duration_since now (snd e)" by auto
    with True show ?thesis by (intro exI [of _ "(k, ts) # p"]) auto
  next
    case False
    with 2 show ?thesis by (intro exI [of _ "[]"]) auto
  qed
qed simp

lemma sweep_loop_agree:
  assumes "sweep_loop ttl now m q = (m', q')"
    and "hm_wf m" "distinct (map fst q)" "hm_get m = map_of q"
  shows "hm_wf m' \<and> distinct (map fst q') \<and> hm_get m' = map_of q'"
  using assms
proof (induction ttl now m q rule: sweep_loop.induct)
  case (2 ttl now m k ts q)
  show ?case
  proof (cases "duration_since now ts > ttl")
    case True
    have "map_of q k = None" using 2(4) by (simp add: map_of_eq_None_iff)
    then have "hm_get (hm_remove k m) = map_of q"
      using 2(3,5) by (simp add: hm.lookup_remove fun_eq_iff)
    with True 2 show ?thesis by (simp add: hm.wf_remove)
  next
    case False
    with 2 show ?thesis by auto
  qed
qed simp

lemma live_id: "(\<And>e. e \<in> set q \<Longrightarrow> duration_since now (snd e) \<le> ttl) \<Longrightarrow> live ttl now q = q"
  by (auto simp: live_def filter_id_conv)

lemma sweep_loop_live:
  "sorted (map snd q) \<Longrightarrow> snd (sweep_loop ttl now m q) = live ttl now q"
proof (induction ttl now m q rule: sweep_loop.induct)
  case (2 ttl now m k ts q)
  show ?case
  proof (cases "duration_since now ts > ttl")
    case True
    with 2 show ?thesis by (simp add: live_def)
  next
    case False
    have "duration_since now (snd e) \<le> duration_since now ts" if "e \<in> set q" for e
      using 2(2) that by (auto intro!: duration_since_mono)
    with False show ?thesis by (subst live_id) force+
  qed
qed (simp add: live_def)

lemma sweep_expired_simps [simp]:
  "rc_ttl (sweep_expired now c) = rc_ttl c" "rc_max_size (sweep_expired now c) = rc_max_size c"
  by (simp_all add: sweep_expired_def split: prod.splits)

lemma sweep_queue:
  "rc_queue (sweep_expired now c) = snd (sweep_loop (rc_ttl c) now (rc_map c) (rc_queue c))"
  by (simp add: sweep_expired_def split: prod.splits)

lemma sweep_expired_suffix: "\<exists>p. rc_queue c = p @ rc_queue (sweep_expired now c) \<and>
    (\<forall>e\<in>set p. rc_ttl c < duration_since now (snd e))"
  unfolding sweep_queue by (metis sweep_loop_suffix prod.collapse)

lemma sweep_expired_live:
  "rc_ordered t c \<Longrightarrow> rc_queue (sweep_expired now c) = live (rc_ttl c) now (rc_queue c)"
  by (simp add: sweep_queue sweep_loop_live rc_ordered_def)

lemma sweep_expired_inv: "rc_inv c \<Longrightarrow> rc_inv (sweep_expired now c)"
proof -
  assume inv: "rc_inv c"
  obtain m q where s: "sweep_loop (rc_ttl c) now (rc_map c) (rc_queue c) = (m, q)"
    by fastforce
  have "length q \<le> length (rc_queue c)" using sweep_loop_suffix [OF s] by auto
  then show ?thesis
    using inv sweep_loop_agree [OF s] by (simp add: rc_inv_def sweep_expired_def s)
qed

lemma sweep_expired_ordered: "rc_ordered t c \<Longrightarrow> rc_ordered t (sweep_expired now c)"
  using sweep_expired_suffix [of c now] by (auto simp: rc_ordered_def sorted_append)

subsection \<open>Checking and inserting\<close>

lemma rc_inv_len: "rc_inv c \<Longrightarrow> hm_len (rc_map c) = length (rc_queue c)"
  by (simp add: rc_inv_def hm.size_dom card_dom_map_of)

lemma rc_inv_contains: "rc_inv c \<Longrightarrow> hm_contains (rc_map c) k \<longleftrightarrow> k \<in> fst ` set (rc_queue c)"
  by (metis hm_contains_def hm_get_def map_of_eq_None_iff rc_inv_def)

lemma rc_evict_front_queue [simp]:
  "rc_queue (rc_evict_front c) = tl (rc_queue c)"
  "rc_ttl (rc_evict_front c) = rc_ttl c" "rc_max_size (rc_evict_front c) = rc_max_size c"
  by (auto simp: rc_evict_front_def split: list.splits)

lemma rc_evict_front_inv: "rc_inv c \<Longrightarrow> rc_inv (rc_evict_front c)"
proof (cases "rc_queue c")
  case (Cons e q)
  obtain k t where e: "e = (k, t)" by fastforce
  assume inv: "rc_inv c"
  then have "map_of q k = None" by (auto simp: rc_inv_def Cons e map_of_eq_None_iff)
  with inv show ?thesis
    by (simp add: rc_inv_def rc_evict_front_def Cons e hm.wf_remove hm.lookup_remove fun_eq_iff)
qed (simp add: rc_evict_front_def)

lemma rc_push_inv:
  assumes "rc_inv c" "k \<notin> fst ` set (rc_queue c)" "length (rc_queue c) < max 1 (rc_max_size c)"
  shows "rc_inv (c\<lparr>rc_map := hm_insert k now (rc_map c), rc_queue := rc_queue c @ [(k, now)]\<rparr>)"
  using assms by (simp add: rc_inv_def hm.wf_insert hm.lookup_insert map_of_snoc del: map_of_append)

text \<open>The state before the insertion: swept, and with room for one more entry.\<close>

definition rc_room :: "instant \<Rightarrow> replay_cache \<Rightarrow> replay_cache" where
  "rc_room now c =
     (let c1 = sweep_expired now c in
      if hm_len (rc_map c1) \<ge> rc_max_size c1 then rc_evict_front c1 else c1)"

lemma rc_room_fields [simp]:
  "rc_ttl (rc_room now c) = rc_ttl c" "rc_max_size (rc_room now c) = rc_max_size c"
  by (simp_all add: rc_room_def Let_def)

lemma rc_room_inv: "rc_inv c \<Longrightarrow> rc_inv (rc_room now c)"
  by (simp add: rc_room_def Let_def sweep_expired_inv rc_evict_front_inv)

lemma rc_room_queue:
  assumes "rc_inv c" and w: "w = rc_queue (sweep_expired now c)"
  shows "rc_queue (rc_room now c) = drop (Suc (length w) - max 1 (rc_max_size c)) w"
    and "length (rc_queue (rc_room now c)) < max 1 (rc_max_size c)"
proof -
  have inv: "rc_inv (sweep_expired now c)" by (rule sweep_expired_inv [OF assms(1)])
  then have len: "length w \<le> max 1 (rc_max_size c)" by (simp add: rc_inv_def w)
  have eq: "rc_queue (rc_room now c) = (if rc_max_size c \<le> length w then tl w else w)"
    using rc_inv_len [OF inv] by (simp add: rc_room_def Let_def w)
  have "(if rc_max_size c \<le> length w then tl w else w) =
      drop (Suc (length w) - max 1 (rc_max_size c)) w"
  proof (cases "rc_max_size c \<le> length w \<and> w \<noteq> []")
    case True
    then have "Suc (length w) - max 1 (rc_max_size c) = 1" using len by (cases w) auto
    with True show ?thesis by (simp add: drop_Suc)
  qed auto
  with eq show "rc_queue (rc_room now c) = drop (Suc (length w) - max 1 (rc_max_size c)) w"
    by simp
  show "length (rc_queue (rc_room now c)) < max 1 (rc_max_size c)"
    using len eq by (cases w) (auto simp: max_def split: if_splits)
qed

lemma check_unfold:
  "check_and_insert_at k now c =
     (if hm_contains (rc_map (sweep_expired now c)) k then (Replay, sweep_expired now c)
      else (Fresh, (rc_room now c)\<lparr>rc_map := hm_insert k now (rc_map (rc_room now c)),
              rc_queue := rc_queue (rc_room now c) @ [(k, now)]\<rparr>))"
  by (simp add: check_and_insert_at_def rc_room_def Let_def)

lemma check_fields:
  assumes "check_and_insert_at k now c = (r, c')"
  shows "rc_ttl c' = rc_ttl c" "rc_max_size c' = rc_max_size c"
  using assms by (auto simp: check_unfold split: if_splits)

lemma check_queue:
  assumes "rc_inv c" and "check_and_insert_at k now c = (r, c')"
    and w: "w = rc_queue (sweep_expired now c)"
  shows "r = (if k \<in> fst ` set w then Replay else Fresh)"
    and "rc_queue c' =
      (if k \<in> fst ` set w then w
       else drop (Suc (length w) - max 1 (rc_max_size c)) w @ [(k, now)])"
  using assms(2) rc_inv_contains [OF sweep_expired_inv [OF assms(1)], of now k]
    rc_room_queue(1) [OF assms(1) w]
  by (auto simp: check_unfold w split: if_splits)

lemma check_inv:
  assumes "rc_inv c" and "check_and_insert_at k now c = (r, c')"
  shows "rc_inv c'"
proof (cases "hm_contains (rc_map (sweep_expired now c)) k")
  case True
  then show ?thesis using assms by (auto simp: check_unfold sweep_expired_inv)
next
  case False
  then have "k \<notin> fst ` set (rc_queue (sweep_expired now c))"
    by (simp add: rc_inv_contains sweep_expired_inv assms(1))
  then have "k \<notin> fst ` set (rc_queue (rc_room now c))"
    by (auto simp: rc_room_queue(1) [OF assms(1) refl] dest: in_set_dropD)
  then show ?thesis
    using rc_push_inv [OF rc_room_inv [OF assms(1)], of k now now]
      rc_room_queue(2) [OF assms(1) refl] assms(2) False
    by (auto simp: check_unfold)
qed

lemma check_ordered:
  assumes "rc_inv c" "rc_ordered t c" "t \<le> now" and "check_and_insert_at k now c = (r, c')"
  shows "rc_ordered now c'"
proof -
  let ?w = "rc_queue (sweep_expired now c)"
  have w: "sorted (map snd ?w)" "\<forall>e\<in>set ?w. snd e \<le> now"
    using sweep_expired_ordered [OF assms(2), of now] assms(3) by (auto simp: rc_ordered_def)
  have "sorted (map snd (drop n ?w) @ [now])" for n
    using w by (auto simp: sorted_append sorted_wrt_drop simp flip: drop_map dest!: in_set_dropD)
  with w show ?thesis
    using check_queue(2) [OF assms(1,4) refl]
    by (auto simp: rc_ordered_def dest: in_set_dropD)
qed

subsection \<open>The interface the relay relies on\<close>

text \<open>
  \<open>holds c n k t\<close> says that the cache guards the key \<open>k\<close>, accepted at \<open>t\<close>, against replay for as
  long as at most \<open>n\<close> further keys are accepted.
\<close>

locale replay_guard =
  fixes chk :: "'k \<Rightarrow> instant \<Rightarrow> 'c \<Rightarrow> replay_check \<times> 'c"
    and inv :: "'c \<Rightarrow> bool"
    and ttl :: "'c \<Rightarrow> duration"
    and capacity :: "'c \<Rightarrow> nat"
    and holds :: "'c \<Rightarrow> nat \<Rightarrow> 'k \<Rightarrow> instant \<Rightarrow> bool"
  assumes inv_chk: "inv c \<Longrightarrow> chk k t c = (r, c') \<Longrightarrow> inv c'"
    and ttl_chk: "chk k t c = (r, c') \<Longrightarrow> ttl c' = ttl c"
    and fresh_holds: "inv c \<Longrightarrow> chk k t c = (Fresh, c') \<Longrightarrow> n < capacity c \<Longrightarrow> holds c' n k t"
    and holds_chk: "inv c \<Longrightarrow> holds c n k t0 \<Longrightarrow> t \<le> t0 + int (ttl c) \<Longrightarrow>
      chk k' t c = (r, c') \<Longrightarrow> fresh_count [r] \<le> n \<Longrightarrow> holds c' (n - fresh_count [r]) k t0"
    and holds_replay: "inv c \<Longrightarrow> holds c n k t0 \<Longrightarrow> t \<le> t0 + int (ttl c) \<Longrightarrow>
      fst (chk k t c) = Replay"
begin

lemma inv_run: "inv c \<Longrightarrow> run_checks chk ops c = (rs, c') \<Longrightarrow> inv c' \<and> ttl c' = ttl c"
proof (induction ops arbitrary: c rs)
  case (Cons op ops)
  then show ?case
    by (cases op) (fastforce split: prod.splits dest: inv_chk ttl_chk)
qed simp

lemma holds_run:
  assumes "inv c" "holds c n k t0" "run_checks chk ops c = (rs, c')"
    and "\<And>k' t. (k', t) \<in> set ops \<Longrightarrow> t \<le> t0 + int (ttl c)" and "fresh_count rs \<le> n"
  shows "holds c' (n - fresh_count rs) k t0"
  using assms
proof (induction ops arbitrary: c n rs)
  case Nil
  then show ?case by (simp add: fresh_count_def)
next
  case (Cons op ops)
  obtain k1 t1 where op: "op = (k1, t1)" by fastforce
  obtain r c1 where s: "chk k1 t1 c = (r, c1)" by fastforce
  obtain rs1 where run: "run_checks chk ops c1 = (rs1, c')" and rs: "rs = r # rs1"
    using Cons.prems(3) by (auto simp: op s split: prod.splits)
  have cnt: "fresh_count rs = fresh_count [r] + fresh_count rs1" by (simp add: rs fresh_count_def)
  have "holds c1 (n - fresh_count [r]) k t0"
    using Cons.prems(4) [of k1 t1] Cons.prems(5) cnt
    by (intro holds_chk [OF Cons.prems(1,2) _ s]) (auto simp: op)
  then have "holds c' (n - fresh_count [r] - fresh_count rs1) k t0"
    using Cons.prems(4,5) cnt ttl_chk [OF s]
    by (intro Cons.IH [OF inv_chk [OF Cons.prems(1) s] _ run]) auto
  then show ?case by (simp add: cnt)
qed

lemma guarded_run:
  assumes "inv c" "chk k t0 c = (Fresh, c1)" "run_checks chk ops c1 = (rs, c2)"
    and "\<And>k' t. (k', t) \<in> set ops \<Longrightarrow> t \<le> t0 + int (ttl c)" "t1 \<le> t0 + int (ttl c)"
    and "fresh_count rs < capacity c"
  shows "fst (chk k t1 c2) = Replay"
proof -
  have inv1: "inv c1" and ttl1: "ttl c1 = ttl c"
    using inv_chk [OF assms(1,2)] ttl_chk [OF assms(2)] by auto
  have "holds c1 (fresh_count rs) k t0" by (rule fresh_holds [OF assms(1,2,6)])
  then have "holds c2 0 k t0" using holds_run [OF inv1 _ assms(3)] assms(4) ttl1 by force
  then show ?thesis
    using inv_run [OF inv1 assms(3)] assms(5) ttl1 by (intro holds_replay) auto
qed

end

definition rc_holds :: "replay_cache \<Rightarrow> nat \<Rightarrow> bytes \<Rightarrow> instant \<Rightarrow> bool" where
  "rc_holds c n k t \<longleftrightarrow>
     (\<exists>xs ys. rc_queue c = xs @ (k, t) # ys \<and> length ys + n < rc_max_size c)"

lemma sweep_keeps_live:
  assumes "rc_queue c = xs @ (k, t0) # ys" and "t \<le> t0 + int (rc_ttl c)"
  shows "\<exists>us. rc_queue (sweep_expired t c) = us @ (k, t0) # ys"
proof -
  obtain p where p: "rc_queue c = p @ rc_queue (sweep_expired t c)"
    and old: "\<forall>e\<in>set p. rc_ttl c < duration_since t (snd e)"
    using sweep_expired_suffix [of c t] by blast
  have "(k, t0) \<notin> set p" using old assms(2) by (auto simp: duration_since_def)
  moreover from p assms(1) have "xs @ (k, t0) # ys = p @ rc_queue (sweep_expired t c)" by simp
  then obtain us where "xs = p @ us \<and> us @ (k, t0) # ys = rc_queue (sweep_expired t c) \<or>
      xs @ us = p \<and> (k, t0) # ys = us @ rc_queue (sweep_expired t c)"
    by (auto simp: append_eq_append_conv2)
  ultimately have "us @ (k, t0) # ys = rc_queue (sweep_expired t c)" by (cases us) auto
  then show ?thesis by metis
qed

lemma rc_holds_check:
  assumes "rc_inv c" "rc_holds c n k t0" "t \<le> t0 + int (rc_ttl c)"
    and "check_and_insert_at k' t c = (r, c')" "fresh_count [r] \<le> n"
  shows "rc_holds c' (n - fresh_count [r]) k t0"
proof -
  obtain xs ys where q: "rc_queue c = xs @ (k, t0) # ys" and len: "length ys + n < rc_max_size c"
    using assms(2) by (auto simp: rc_holds_def)
  obtain us where w: "rc_queue (sweep_expired t c) = us @ (k, t0) # ys"
    using sweep_keeps_live [OF q assms(3)] by blast
  note cq = check_queue [OF assms(1,4) w [symmetric]]
  show ?thesis
  proof (cases r)
    case Replay
    then have "rc_queue c' = us @ (k, t0) # ys" using cq by (auto split: if_splits)
    then show ?thesis using len check_fields(2) [OF assms(4)] Replay
      by (auto simp: rc_holds_def fresh_count_def)
  next
    case Fresh
    let ?d = "Suc (length us + Suc (length ys)) - max 1 (rc_max_size c)"
    have "?d \<le> length us" using len assms(5) Fresh by (simp add: fresh_count_def)
    then have "rc_queue c' = drop ?d us @ (k, t0) # ys @ [(k', t)]"
      using cq Fresh by (auto split: if_splits)
    then show ?thesis using len check_fields(2) [OF assms(4)] Fresh assms(5)
      by (force simp: rc_holds_def fresh_count_def)
  qed
qed

lemma check_live_replay:
  assumes "rc_inv c" "(k, ts) \<in> set (rc_queue c)" "t \<le> ts + int (rc_ttl c)"
  shows "fst (check_and_insert_at k t c) = Replay"
proof -
  obtain xs ys where q: "rc_queue c = xs @ (k, ts) # ys" using assms(2) by (meson split_list)
  obtain us where "rc_queue (sweep_expired t c) = us @ (k, ts) # ys"
    using sweep_keeps_live [OF q assms(3)] by blast
  then show ?thesis
    using check_queue(1) [OF assms(1) surjective_pairing refl, of k t] by (auto simp: image_Un)
qed

interpretation rc: replay_guard check_and_insert_at rc_inv rc_ttl rc_max_size rc_holds
proof unfold_locales
  fix c c' :: replay_cache and k k' t t0 r n
  show "rc_inv c \<Longrightarrow> check_and_insert_at k t c = (r, c') \<Longrightarrow> rc_inv c'"
    by (rule check_inv)
  show "check_and_insert_at k t c = (r, c') \<Longrightarrow> rc_ttl c' = rc_ttl c"
    by (rule check_fields)
  show "rc_holds c' n k t"
    if "rc_inv c" "check_and_insert_at k t c = (Fresh, c')" "n < rc_max_size c"
    using check_queue [OF that(1,2) refl] check_fields(2) [OF that(2)] that(3)
    by (force simp: rc_holds_def split: if_splits)
  show "rc_holds c' (n - fresh_count [r]) k t0"
    if "rc_inv c" "rc_holds c n k t0" "t \<le> t0 + int (rc_ttl c)"
      "check_and_insert_at k' t c = (r, c')" "fresh_count [r] \<le> n"
    by (rule rc_holds_check [OF that])
  show "fst (check_and_insert_at k t c) = Replay"
    if "rc_inv c" "rc_holds c n k t0" "t \<le> t0 + int (rc_ttl c)"
    using that by (auto simp: rc_holds_def intro: check_live_replay)
qed

subsection \<open>Histories\<close>

lemma rc_new_inv: "rc_inv (rc_new n ttl)"
  by (simp add: rc_new_def rc_inv_def fun_eq_iff)

lemma rc_new_ordered: "rc_ordered t (rc_new n ttl)"
  by (simp add: rc_new_def rc_ordered_def)

lemma rc_new_fields [simp]:
  "rc_ttl (rc_new n ttl) = ttl" "rc_max_size (rc_new n ttl) = n" "rc_queue (rc_new n ttl) = []"
  by (simp_all add: rc_new_def)

lemma check_run_ordered:
  assumes "rc_inv c" "rc_ordered t c" "sorted (t # map snd ops)" "check_run ops c = (rs, c')"
  shows "rc_inv c' \<and> rc_ordered (last (t # map snd ops)) c' \<and> rc_max_size c' = rc_max_size c"
  using assms
proof (induction ops arbitrary: c t rs)
  case (Cons op ops)
  obtain k u where op: "op = (k, u)" by fastforce
  obtain r c1 where s: "check_and_insert_at k u c = (r, c1)" by fastforce
  obtain rs1 where run: "check_run ops c1 = (rs1, c')"
    using Cons.prems(4) by (auto simp: op s split: prod.splits)
  have "t \<le> u" "sorted (u # map snd ops)" using Cons.prems(3) by (simp_all add: op)
  then show ?case
    using Cons.IH [OF check_inv [OF Cons.prems(1) s] check_ordered [OF Cons.prems(1,2) _ s] _ run]
      check_fields [OF s]
    by (simp add: op)
qed simp

lemma check_refines_window:
  assumes "rc_inv c" "rc_ordered t c" "check_and_insert_at k now c = (r, c')"
  shows "window_check (rc_ttl c) (rc_max_size c) k now (rc_queue c) = (r, rc_queue c')"
  using check_queue [OF assms(1,3) refl]
  by (simp add: window_check_def Let_def sweep_expired_live [OF assms(2)])

lemma check_run_window:
  assumes "rc_inv c" "rc_ordered t c" "sorted (t # map snd ops)" "check_run ops c = (rs, c')"
  shows "run_checks (window_check (rc_ttl c) (rc_max_size c)) ops (rc_queue c) = (rs, rc_queue c')"
  using assms
proof (induction ops arbitrary: c t rs)
  case (Cons op ops)
  obtain k u where op: "op = (k, u)" by fastforce
  obtain r c1 where s: "check_and_insert_at k u c = (r, c1)" by fastforce
  obtain rs1 where run: "check_run ops c1 = (rs1, c')" "rs = r # rs1"
    using Cons.prems(4) by (auto simp: op s split: prod.splits)
  have "t \<le> u" "sorted (u # map snd ops)" using Cons.prems(3) by (simp_all add: op)
  then show ?case
    using Cons.IH [OF check_inv [OF Cons.prems(1) s] check_ordered [OF Cons.prems(1,2) _ s] _ run(1)]
      check_refines_window [OF Cons.prems(1,2) s] check_fields [OF s]
    by (simp add: op run(2))
qed simp

subsection \<open>Properties\<close>

lemmas rc_eval = check_and_insert_at_def sweep_expired_def rc_evict_front_def rc_new_def
  duration_since_def hm_exec Let_def fresh_count_def

text \<open>C1. Replay protection: a key answered \<open>Fresh\<close> at \<open>t0\<close> is answered \<open>Replay\<close> at every instant
  up to \<open>t0\<close> plus the time to live, whatever checks happen in between, as long as fewer than
  \<open>max_size\<close> of them accepted a new key.\<close>

theorem replay_window:
  assumes "rc_inv c" and "check_and_insert_at k ts c = (Fresh, c')"
    and "check_run ops c' = (rs, c'')"
    and "\<forall>(k', t)\<in>set ops. t \<le> ts + int (rc_ttl c)" and "now \<le> ts + int (rc_ttl c)"
    and "fresh_count rs < rc_max_size c"
  shows "fst (check_and_insert_at k now c'') = Replay"
  using assms(4) by (intro rc.guarded_run [OF assms(1-3) _ assms(5,6)]) auto

theorem replay_window_witness:
  "fst (check_and_insert_at [1] 70
     \<lparr>rc_map = [([1], 10), ([2], 20), ([3], 30)], rc_queue = [([1], 10), ([2], 20), ([3], 30)],
      rc_ttl = 60, rc_max_size = 3\<rparr>) = Replay"
  by (rule replay_window [where ts = 10 and c = "rc_new 3 60"
        and c' = "\<lparr>rc_map = [([1], 10)], rc_queue = [([1], 10)], rc_ttl = 60, rc_max_size = 3\<rparr>"
        and ops = "[([2], 20), ([1], 25), ([3], 30)]" and rs = "[Fresh, Replay, Fresh]"])
    (simp_all add: rc_new_inv [unfolded rc_new_def] rc_eval)

text \<open>C2. The map-and-queue cache implements the sliding window: on every history of checks whose
  clock readings do not go back, it gives the answers of the window and its queue is the window.\<close>

theorem check_run_refines_window:
  assumes "sorted (map snd ops)"
  shows "(case check_run ops (rc_new n ttl) of (rs, c) \<Rightarrow> (rs, rc_queue c)) =
    run_checks (window_check ttl n) ops []"
proof (cases ops)
  case (Cons op ops')
  obtain rs c where run: "check_run ops (rc_new n ttl) = (rs, c)" by fastforce
  have "sorted (snd op # map snd ops)" using assms Cons by simp
  from check_run_window [OF rc_new_inv rc_new_ordered this run] show ?thesis by (simp add: run)
qed simp

theorem check_run_refines_window_witness:
  "run_checks (window_check 60 2) [([1], 0), ([2], 5), ([1], 6), ([3], 70)] [] =
     ([Fresh, Fresh, Replay, Fresh], [([3], 70)])"
  by (subst check_run_refines_window [symmetric]) (simp_all add: rc_eval)

text \<open>Memory bound and representation: along every history with a monotonic clock the map and
  the queue hold the same entries, each key once, in time order, and at most \<open>max_size\<close> of them
  (one when \<open>max_size\<close> is zero).\<close>

lemma check_run_bounded:
  assumes "sorted (t # map snd ops)" and "check_run ops (rc_new n ttl) = (rs, c)"
  shows "rc_inv c \<and> rc_ordered (last (t # map snd ops)) c \<and> rc_len c \<le> max 1 n"
  using check_run_ordered [OF rc_new_inv rc_new_ordered assms]
  by (auto simp: rc_len_def rc_inv_len) (auto simp: rc_inv_def)

lemma sweep_all_live:
  "(\<And>e. e \<in> set (rc_queue c) \<Longrightarrow> now \<le> snd e + int (rc_ttl c)) \<Longrightarrow> sweep_expired now c = c"
  by (cases "rc_queue c") (fastforce simp: sweep_expired_def duration_since_def)+

text \<open>Eviction is first-in first-out: seeing a key again does not renew it. When the cache is
  full and its oldest entry \<open>k\<close> is presented again, the answer \<open>Replay\<close> leaves the cache as it
  was, so the next new key evicts \<open>k\<close>, which is then answered \<open>Fresh\<close> although its time to
  live is not over.\<close>

theorem replay_eviction_fifo:
  assumes "rc_inv c" and "rc_queue c = (k, ts) # q" and "length (rc_queue c) = rc_max_size c"
    and "\<forall>e\<in>set (rc_queue c). now \<le> snd e + int (rc_ttl c)"
    and "new \<notin> fst ` set (rc_queue c)"
    and "check_run [(k, now), (new, now), (k, now)] c = (rs, c')"
  shows "rs = [Replay, Fresh, Fresh]"
proof -
  have sw: "sweep_expired now c = c" using assms(4) by (intro sweep_all_live) auto
  have k: "check_and_insert_at k now c = (Replay, c)"
    using rc_inv_contains [OF assms(1), of k] assms(2) by (simp add: check_unfold sw)
  obtain r d where new: "check_and_insert_at new now c = (r, d)" by fastforce
  have d: "r = Fresh" "rc_queue d = q @ [(new, now)]"
    using check_queue [OF assms(1) new refl] assms(2,3,5) by (simp_all add: sw)
  have inv_d: "rc_inv d" by (rule check_inv [OF assms(1) new])
  have "sweep_expired now d = d"
    using assms(2,4) d(2) check_fields [OF new] by (intro sweep_all_live) auto
  moreover have "k \<notin> fst ` set (rc_queue d)"
    using assms(1,2,5) d(2) by (auto simp: rc_inv_def)
  ultimately have "fst (check_and_insert_at k now d) = Fresh"
    using rc_inv_contains [OF inv_d, of k] by (simp add: check_unfold)
  with assms(6) k new d(1) show ?thesis by (auto split: prod.splits)
qed

end
