(* ===== verification/Byte_Codec.thy ===== *)
theory Byte_Codec
  imports Prelude
begin

section \<open>Fixed-width big-endian encodings\<close>

text \<open>
  \<^verbatim>\<open>to_be_bytes\<close> and \<^verbatim>\<open>from_be_bytes\<close> of \<^verbatim>\<open>u16\<close>, \<^verbatim>\<open>u32\<close> and \<^verbatim>\<open>u64\<close>, which frame every message on the
  wire and every record of the replay snapshot. The locale \<open>codec\<close> is the contract of a
  fixed-width encoding; it gives the decoding of a prefix and of a run of consecutive records.
\<close>

fun be_bytes :: "nat \<Rightarrow> nat \<Rightarrow> bytes" where
  "be_bytes 0 n = []"
| "be_bytes (Suc w) n = be_bytes w (n div 256) @ [word_of_nat n]"

definition be_value :: "bytes \<Rightarrow> nat" where
  "be_value bs = foldl (\<lambda>a b. a * 256 + unat b) 0 bs"

definition u16_to_be_bytes :: "u16 \<Rightarrow> bytes" where
  "u16_to_be_bytes x = be_bytes 2 (unat x)"

definition u16_from_be_bytes :: "bytes \<Rightarrow> u16" where
  "u16_from_be_bytes bs = word_of_nat (be_value bs)"

definition u32_to_be_bytes :: "u32 \<Rightarrow> bytes" where
  "u32_to_be_bytes x = be_bytes 4 (unat x)"

definition u32_from_be_bytes :: "bytes \<Rightarrow> u32" where
  "u32_from_be_bytes bs = word_of_nat (be_value bs)"

definition u64_to_be_bytes :: "u64 \<Rightarrow> bytes" where
  "u64_to_be_bytes x = be_bytes 8 (unat x)"

definition u64_from_be_bytes :: "bytes \<Rightarrow> u64" where
  "u64_from_be_bytes bs = word_of_nat (be_value bs)"

subsection \<open>The contract of a fixed-width encoding\<close>

locale codec =
  fixes enc :: "'a \<Rightarrow> bytes" and dec :: "bytes \<Rightarrow> 'a" and width :: nat and valid :: "'a \<Rightarrow> bool"
  assumes width_pos: "0 < width"
    and enc_length: "valid x \<Longrightarrow> length (enc x) = width"
    and dec_enc: "valid x \<Longrightarrow> dec (enc x) = x"
    and enc_dec: "length bs = width \<Longrightarrow> enc (dec bs) = bs"
    and valid_dec: "length bs = width \<Longrightarrow> valid (dec bs)"
begin

lemma dec_prefix: "valid x \<Longrightarrow> dec (take width (enc x @ r)) = x"
  by (simp add: enc_length dec_enc)

lemma drop_prefix: "valid x \<Longrightarrow> drop width (enc x @ r) = r"
  by (simp add: enc_length)

lemma enc_inj: "valid x \<Longrightarrow> valid y \<Longrightarrow> enc x = enc y \<longleftrightarrow> x = y"
  by (metis dec_enc)

lemma length_encs: "list_all valid xs \<Longrightarrow> length (concat (map enc xs)) = length xs * width"
  by (induction xs) (simp_all add: enc_length)

lemma chunks_encs: "list_all valid xs \<Longrightarrow> chunks width (concat (map enc xs)) = map enc xs"
  by (induction xs) (simp_all add: chunks_append width_pos enc_length)

lemma decode_records:
  "list_all valid xs \<Longrightarrow> map dec (as_chunks width (concat (map enc xs))) = xs"
  using width_pos
  by (simp add: as_chunks_def length_encs chunks_encs list_all_iff dec_enc map_idI)

end

subsection \<open>The integers meet the contract\<close>

lemma length_be_bytes [simp]: "length (be_bytes w n) = w"
  by (induction w n rule: be_bytes.induct) simp_all

lemma be_value_snoc [simp]: "be_value (bs @ [b]) = be_value bs * 256 + unat b"
  by (simp add: be_value_def)

lemma be_value_Nil [simp]: "be_value [] = 0"
  by (simp add: be_value_def)

lemma be_value_be_bytes: "n < 256 ^ w \<Longrightarrow> be_value (be_bytes w n) = n"
proof (induction w n rule: be_bytes.induct)
  case (2 w n)
  then have "n div 256 < 256 ^ w" by (simp add: less_mult_imp_div_less mult.commute)
  with 2 show ?case by (simp add: unat_of_nat)
qed simp

lemma be_bytes_be_value: "be_bytes (length bs) (be_value bs) = bs"
proof (induction bs rule: rev_induct)
  case (snoc b bs)
  have "unat b < 256" using unsigned_less [of b, where 'a = nat] by simp
  moreover have "(word_of_nat 256 :: byte) = 0" by simp
  then have "(word_of_nat (be_value bs * 256 + unat b) :: byte) = b"
    by (simp only: of_nat_add of_nat_mult) simp
  ultimately show ?case using snoc by simp
qed simp

lemma be_value_less: "be_value bs < 256 ^ length bs"
proof (induction bs rule: rev_induct)
  case (snoc b bs)
  have "unat b < 256" using unsigned_less [of b, where 'a = nat] by simp
  with snoc show ?case by simp
qed simp

interpretation be16: codec u16_to_be_bytes u16_from_be_bytes 2 "\<lambda>_. True"
proof unfold_locales
  fix x :: u16 and bs :: bytes
  have "unat x < 256 ^ 2" using unsigned_less [of x, where 'a = nat] by simp
  then show "u16_from_be_bytes (u16_to_be_bytes x) = x"
    by (simp add: u16_from_be_bytes_def u16_to_be_bytes_def be_value_be_bytes)
  show "u16_to_be_bytes (u16_from_be_bytes bs) = bs" if "length bs = 2"
    using be_value_less [of bs] be_bytes_be_value [of bs] that
    by (simp add: u16_from_be_bytes_def u16_to_be_bytes_def unat_of_nat)
qed (simp_all add: u16_to_be_bytes_def)

interpretation be32: codec u32_to_be_bytes u32_from_be_bytes 4 "\<lambda>_. True"
proof unfold_locales
  fix x :: u32 and bs :: bytes
  have "unat x < 256 ^ 4" using unsigned_less [of x, where 'a = nat] by simp
  then show "u32_from_be_bytes (u32_to_be_bytes x) = x"
    by (simp add: u32_from_be_bytes_def u32_to_be_bytes_def be_value_be_bytes)
  show "u32_to_be_bytes (u32_from_be_bytes bs) = bs" if "length bs = 4"
    using be_value_less [of bs] be_bytes_be_value [of bs] that
    by (simp add: u32_from_be_bytes_def u32_to_be_bytes_def unat_of_nat)
qed (simp_all add: u32_to_be_bytes_def)

interpretation be64: codec u64_to_be_bytes u64_from_be_bytes 8 "\<lambda>_. True"
proof unfold_locales
  fix x :: u64 and bs :: bytes
  have "unat x < 256 ^ 8" using unsigned_less [of x, where 'a = nat] by simp
  then show "u64_from_be_bytes (u64_to_be_bytes x) = x"
    by (simp add: u64_from_be_bytes_def u64_to_be_bytes_def be_value_be_bytes)
  show "u64_to_be_bytes (u64_from_be_bytes bs) = bs" if "length bs = 8"
    using be_value_less [of bs] be_bytes_be_value [of bs] that
    by (simp add: u64_from_be_bytes_def u64_to_be_bytes_def unat_of_nat)
qed (simp_all add: u64_to_be_bytes_def)

end
