(* ===== verification/Replay_Persist.thy ===== *)
theory Replay_Persist
  imports Replay_Cache Byte_Codec "HOL-Library.Sublist"
begin

section \<open>Persistence of the replay cache\<close>

text \<open>
  \<^verbatim>\<open>crypto-gotham-relay/src/replay.rs\<close>: \<^verbatim>\<open>snapshot_at\<close>, \<^verbatim>\<open>encode_into\<close>, \<^verbatim>\<open>restore_at\<close> and the module
  \<^verbatim>\<open>persist\<close>. A snapshot is the magic \<^verbatim>\<open>GTHMRPL1\<close> followed by records of 24 bytes: the key and the
  Unix second at which it was seen. The theory proves the single-pass encoder equal to the
  encoding of the snapshot, the loading of any byte string safe, the round trip through a restart,
  and the replacement of the file atomic.

  The readings of the two clocks are arguments: \<open>now\<close> on the monotonic clock, \<open>unix\<close> in Unix
  seconds; \<open>lo\<close> is the earliest instant the platform can represent. A \<^verbatim>\<open>Duration\<close> has at most
  \<^verbatim>\<open>u64::MAX\<close> seconds, so a saturating subtraction of an age from a \<^verbatim>\<open>u64\<close> is a subtraction of
  natural numbers.
\<close>

subsection \<open>Snapshot and encoding\<close>

definition unix_minus :: "u64 \<Rightarrow> duration \<Rightarrow> u64" where
  "unix_minus unix d = word_of_nat (unat unix - as_secs d)"

definition snapshot_at :: "instant \<Rightarrow> u64 \<Rightarrow> replay_cache \<Rightarrow> (bytes \<times> u64) list" where
  "snapshot_at now unix c =
     map (\<lambda>(k, ts). (k, unix_minus unix (duration_since now ts)))
       (filter (\<lambda>(k, ts). duration_since now ts \<le> rc_ttl c) (rc_queue c))"

fun encode_loop :: "duration \<Rightarrow> instant \<Rightarrow> u64 \<Rightarrow> bytes \<Rightarrow> (bytes \<times> instant) list \<Rightarrow> bytes" where
  "encode_loop ttl now unix buf [] = buf"
| "encode_loop ttl now unix buf ((key, ts) # q) =
     (let elapsed = duration_since now ts in
      if elapsed > ttl then encode_loop ttl now unix buf q
      else encode_loop ttl now unix (buf @ key @ u64_to_be_bytes (unix_minus unix elapsed)) q)"

definition encode_into :: "instant \<Rightarrow> u64 \<Rightarrow> bytes \<Rightarrow> nat \<Rightarrow> replay_cache \<Rightarrow> bytes" where
  "encode_into now unix magic record_len c =
     encode_loop (rc_ttl c) now unix magic (rc_queue c)"

definition MAGIC :: bytes where
  "MAGIC = [71, 84, 72, 77, 82, 80, 76, 49]"

definition RECORD :: nat where
  "RECORD = 24"

definition encode :: "instant \<Rightarrow> u64 \<Rightarrow> replay_cache \<Rightarrow> bytes" where
  "encode now unix c = encode_into now unix MAGIC RECORD c"

subsection \<open>Restoring\<close>

fun adopt_entries :: "duration \<Rightarrow> instant \<Rightarrow> instant \<Rightarrow> u64 \<Rightarrow> (bytes \<times> u64) list
    \<Rightarrow> (bytes \<times> instant) list" where
  "adopt_entries ttl lo now unix [] = []"
| "adopt_entries ttl lo now unix ((key, ts) # es) =
     (let age = from_secs (unat (sat_sub unix ts)) in
      if age > ttl then adopt_entries ttl lo now unix es
      else (key, case instant_checked_sub lo now age of Some t \<Rightarrow> t | None \<Rightarrow> now)
             # adopt_entries ttl lo now unix es)"

text \<open>\<^verbatim>\<open>retain\<close> with the closure that consults the map first and then records the key as seen.\<close>

fun retain_unseen :: "(bytes, instant) hmap \<Rightarrow> bytes list \<Rightarrow> (bytes \<times> instant) list
    \<Rightarrow> (bytes \<times> instant) list" where
  "retain_unseen m seen [] = []"
| "retain_unseen m seen ((key, ts) # es) =
     (if \<not> hm_contains m key \<and> key \<notin> set seen
      then (key, ts) # retain_unseen m (key # seen) es
      else retain_unseen m seen es)"

fun restore_loop :: "nat \<Rightarrow> replay_cache \<Rightarrow> nat \<Rightarrow> (bytes \<times> instant) list \<Rightarrow> nat \<times> replay_cache" where
  "restore_loop mx c count [] = (count, c)"
| "restore_loop mx c count ((key, ts) # es) =
     (if hm_len (rc_map c) \<ge> mx then (count, c)
      else restore_loop mx
        (c\<lparr>rc_map := hm_insert key ts (rc_map c), rc_queue := rc_queue c @ [(key, ts)]\<rparr>)
        (count + 1) es)"

definition restore_at :: "instant \<Rightarrow> (bytes \<times> u64) list \<Rightarrow> instant \<Rightarrow> u64 \<Rightarrow> replay_cache
    \<Rightarrow> nat \<times> replay_cache" where
  "restore_at lo entries now unix c =
     (let adopted = adopt_entries (rc_ttl c) lo now unix entries;
          adopted = sort_key snd adopted;
          adopted = retain_unseen (rc_map c) [] adopted;
          room = rc_max_size c - hm_len (rc_map c);
          skip = length adopted - room
      in restore_loop (rc_max_size c) c 0 (drop skip adopted))"

definition parse_record :: "bytes \<Rightarrow> bytes \<times> u64" where
  "parse_record c = (take 16 c, u64_from_be_bytes (drop 16 c))"

text \<open>\<open>rd\<close> is what \<^verbatim>\<open>std::fs::read\<close> gave. The two clocks are read after the parse.\<close>

definition load :: "instant \<Rightarrow> (io_error + bytes) \<Rightarrow> instant \<Rightarrow> u64 \<Rightarrow> replay_cache
    \<Rightarrow> (io_error + nat) \<times> replay_cache" where
  "load lo rd now unix c =
     (case rd of
        Inl Io_NotFound \<Rightarrow> (Inr 0, c)
      | Inl e \<Rightarrow> (Inl e, c)
      | Inr bs \<Rightarrow>
          if length bs < length MAGIC \<or> take (length MAGIC) bs \<noteq> MAGIC
          then (Inl (Io_InvalidData ''replay cache: bad magic''), c)
          else
            let body = drop (length MAGIC) bs in
            if length body mod RECORD \<noteq> 0
            then (Inl (Io_InvalidData ''replay cache: truncated record''), c)
            else
              (case restore_at lo (map parse_record (as_chunks RECORD body)) now unix c of
                 (n, c') \<Rightarrow> (Inr n, c')))"

subsection \<open>The file\<close>

text \<open>
  A path is its directory, file stem and extension, as \<^verbatim>\<open>Path::with_extension\<close> sees it; a file is
  its contents and its permission bits. \<open>write_fate\<close> says which system call of \<^verbatim>\<open>write_encoded\<close>
  fails, and after how many bytes for the write; a crash at that point leaves the same files.
\<close>

record path =
  pdir :: string
  pstem :: string
  pext :: "string option"

definition with_extension :: "string \<Rightarrow> path \<Rightarrow> path" where
  "with_extension e p = p\<lparr>pext := Some e\<rparr>"

type_synonym fs = "path \<Rightarrow> (bytes \<times> nat) option"

datatype write_fate =
    Write_ok
  | Open_fails io_error
  | Chmod_fails io_error
  | Write_fails nat io_error
  | Sync_fails io_error
  | Rename_fails io_error

definition owner_only :: nat where
  "owner_only = 384"

definition open_truncate :: "path \<Rightarrow> fs \<Rightarrow> fs" where
  "open_truncate p fs = fs(p \<mapsto> ([], case fs p of None \<Rightarrow> owner_only | Some (_, m) \<Rightarrow> m))"

definition write_encoded :: "write_fate \<Rightarrow> bytes \<Rightarrow> path \<Rightarrow> fs \<Rightarrow> (io_error + nat) \<times> fs" where
  "write_encoded fate buf p fs =
     (let tmp = with_extension ''tmp'' p; opened = open_truncate tmp fs;
          owned = opened(tmp \<mapsto> ([], owner_only)); written = owned(tmp \<mapsto> (buf, owner_only)) in
      case fate of
        Open_fails e \<Rightarrow> (Inl e, fs)
      | Chmod_fails e \<Rightarrow> (Inl e, opened)
      | Write_fails n e \<Rightarrow> (Inl e, owned(tmp \<mapsto> (take n buf, owner_only)))
      | Sync_fails e \<Rightarrow> (Inl e, written)
      | Rename_fails e \<Rightarrow> (Inl e, written)
      | Write_ok \<Rightarrow>
          (Inr ((length buf - length MAGIC) div RECORD),
           (written(tmp := None))(p \<mapsto> (buf, owner_only))))"

definition save :: "write_fate \<Rightarrow> instant \<Rightarrow> u64 \<Rightarrow> replay_cache \<Rightarrow> path \<Rightarrow> fs
    \<Rightarrow> (io_error + nat) \<times> fs" where
  "save fate now unix c p fs = write_encoded fate (encode now unix c) p fs"

subsection \<open>The record format\<close>

definition record_bytes :: "bytes \<times> u64 \<Rightarrow> bytes" where
  "record_bytes e = fst e @ u64_to_be_bytes (snd e)"

definition key_ok :: "bytes \<times> 'a \<Rightarrow> bool" where
  "key_ok e \<longleftrightarrow> length (fst e) = 16"

interpretation rec24: codec record_bytes parse_record RECORD key_ok
proof unfold_locales
  fix e :: "bytes \<times> u64" and bs :: bytes
  show "length (record_bytes e) = RECORD" if "key_ok e"
    using that by (simp add: record_bytes_def key_ok_def RECORD_def be64.enc_length)
  show "parse_record (record_bytes e) = e" if "key_ok e"
    using that by (simp add: record_bytes_def key_ok_def parse_record_def be64.dec_enc)
  show "record_bytes (parse_record bs) = bs" if "length bs = RECORD"
    using that by (simp add: record_bytes_def parse_record_def RECORD_def be64.enc_dec)
  show "key_ok (parse_record bs)" if "length bs = RECORD"
    using that by (simp add: key_ok_def parse_record_def RECORD_def)
qed (simp add: RECORD_def)

lemma encode_loop_snapshot:
  "encode_loop (rc_ttl c) now unix buf q =
     buf @ concat (map record_bytes (snapshot_at now unix (c\<lparr>rc_queue := q\<rparr>)))"
  by (induction q arbitrary: buf) (auto simp: snapshot_at_def record_bytes_def Let_def)

lemma encode_snapshot: "encode now unix c = MAGIC @ concat (map record_bytes (snapshot_at now unix c))"
  using encode_loop_snapshot [of c now unix MAGIC "rc_queue c"]
  by (simp add: encode_def encode_into_def)

subsection \<open>What restoring adds\<close>

lemma adopt_bounds:
  "(k, t) \<in> set (adopt_entries ttl lo now unix es) \<Longrightarrow> t \<le> now \<and> now \<le> t + int ttl"
  by (induction ttl lo now unix es rule: adopt_entries.induct)
    (auto simp: Let_def instant_checked_sub_def split: if_splits option.splits)

lemma adopt_complete:
  assumes "(k, ts) \<in> set es" and "from_secs (unat (sat_sub unix ts)) \<le> ttl"
  shows "\<exists>t. (k, t) \<in> set (adopt_entries ttl lo now unix es) \<and>
    now - int (from_secs (unat (sat_sub unix ts))) \<le> t"
  using assms
proof (induction ttl lo now unix es rule: adopt_entries.induct)
  case (2 ttl lo now unix key us es)
  show ?case
  proof (cases "(k, ts) = (key, us)")
    case True
    with 2(4) show ?thesis
      by (auto simp: Let_def instant_checked_sub_def split: option.splits)
  next
    case False
    with 2 show ?thesis by (auto simp: Let_def)
  qed
qed simp

lemma adopt_keys:
  "subseq (map fst (adopt_entries ttl lo now unix es)) (map fst es)"
  by (induction ttl lo now unix es rule: adopt_entries.induct) (auto simp: Let_def)

lemma retain_unseen_spec:
  "distinct (map fst (retain_unseen m seen es)) \<and>
   (\<forall>e\<in>set (retain_unseen m seen es). fst e \<notin> set seen \<and> \<not> hm_contains m (fst e) \<and> e \<in> set es)"
  by (induction m seen es rule: retain_unseen.induct) auto

lemma retain_unseen_subseq: "subseq (retain_unseen m seen es) es"
  by (induction m seen es rule: retain_unseen.induct) auto

lemma retain_unseen_id:
  "distinct (map fst es) \<Longrightarrow> fst ` set es \<inter> set seen = {} \<Longrightarrow> retain_unseen [] seen es = es"
proof (induction "[] :: (bytes, instant) hmap" seen es rule: retain_unseen.induct)
  case (2 seen k t es)
  then have "retain_unseen [] (k # seen) es = es" by auto
  with 2 show ?case by simp
qed simp

lemma restore_loop_spec:
  assumes "rc_inv c" "distinct (map fst es)" "fst ` set es \<inter> fst ` set (rc_queue c) = {}"
    and "es \<noteq> [] \<Longrightarrow> length (rc_queue c) + length es \<le> rc_max_size c"
    and "restore_loop (rc_max_size c) c count es = (n, c')"
  shows "rc_inv c' \<and> rc_queue c' = rc_queue c @ es \<and> n = count + length es \<and>
    rc_ttl c' = rc_ttl c \<and> rc_max_size c' = rc_max_size c"
  using assms
proof (induction es arbitrary: c count)
  case (Cons e es)
  obtain k t where e: "e = (k, t)" by fastforce
  let ?d = "c\<lparr>rc_map := hm_insert k t (rc_map c), rc_queue := rc_queue c @ [(k, t)]\<rparr>"
  have "rc_inv ?d" using Cons.prems(1,3,4) by (intro rc_push_inv) (auto simp: e)
  moreover have "restore_loop (rc_max_size c) c count (e # es) = restore_loop (rc_max_size ?d) ?d (Suc count) es"
    using Cons.prems(1,4) by (simp add: e rc_inv_len)
  ultimately show ?case using Cons.IH [of ?d "Suc count"] Cons.prems by (auto simp: e)
qed simp

lemma restore_at_spec:
  assumes "rc_inv c" "restore_at lo es now unix c = (n, c')"
  shows "rc_inv c' \<and> n = length (rc_queue c') - length (rc_queue c) \<and>
    rc_ttl c' = rc_ttl c \<and> rc_max_size c' = rc_max_size c \<and>
    (let kept = retain_unseen (rc_map c) [] (sort_key snd (adopt_entries (rc_ttl c) lo now unix es))
     in rc_queue c' = rc_queue c @ drop (length kept - (rc_max_size c - rc_len c)) kept)"
proof -
  define kept where
    "kept = retain_unseen (rc_map c) [] (sort_key snd (adopt_entries (rc_ttl c) lo now unix es))"
  let ?es = "drop (length kept - (rc_max_size c - rc_len c)) kept"
  have "distinct (map fst kept)" and new: "\<forall>e\<in>set kept. \<not> hm_contains (rc_map c) (fst e)"
    using retain_unseen_spec by (auto simp: kept_def)
  then have "distinct (map fst ?es)" by (simp add: distinct_drop flip: drop_map)
  moreover have "fst ` set ?es \<inter> fst ` set (rc_queue c) = {}"
    using new by (auto simp: rc_inv_contains [OF assms(1)] dest!: in_set_dropD)
  moreover have "length (rc_queue c) + length ?es \<le> rc_max_size c" if "?es \<noteq> []"
    using that by (simp add: rc_len_def rc_inv_len [OF assms(1)])
  moreover have "restore_loop (rc_max_size c) c 0 ?es = (n, c')"
    using assms(2) by (simp add: restore_at_def Let_def kept_def rc_len_def)
  ultimately show ?thesis
    using restore_loop_spec [OF assms(1), of ?es 0 n c'] by (simp add: Let_def kept_def)
qed

lemma retain_unseen_complete:
  "distinct (map fst es) \<Longrightarrow> (k, t) \<in> set es \<Longrightarrow> \<not> hm_contains m k \<Longrightarrow> k \<notin> set seen \<Longrightarrow>
   (k, t) \<in> set (retain_unseen m seen es)"
  by (induction m seen es rule: retain_unseen.induct) (auto simp: image_iff)

lemma sorted_subseq: "subseq xs ys \<Longrightarrow> sorted ys \<Longrightarrow> sorted xs"
  by (induction rule: list_emb.induct) (auto dest: list_emb_set)

lemma distinct_subseq: "subseq xs ys \<Longrightarrow> distinct ys \<Longrightarrow> distinct xs"
  by (induction rule: list_emb.induct) (auto dest: list_emb_set)

lemma distinct_keys_sort: "distinct (map fst (sort_key f xs)) \<longleftrightarrow> distinct (map fst xs)"
  by (simp add: distinct_map)

lemma kept_sorted:
  "sorted (map snd (retain_unseen m seen (sort_key snd xs)))"
  using subseq_map [OF retain_unseen_subseq] by (rule sorted_subseq) simp

lemma snapshot_key_ok:
  "list_all key_ok (rc_queue c) \<Longrightarrow> list_all key_ok (snapshot_at now unix c)"
  by (auto simp: list_all_iff snapshot_at_def key_ok_def)

lemma snapshot_keys: "subseq (map fst (snapshot_at now unix c)) (map fst (rc_queue c))"
proof -
  have "map fst (snapshot_at now unix c) =
      map fst (filter (\<lambda>(k, ts). duration_since now ts \<le> rc_ttl c) (rc_queue c))"
    by (auto simp: snapshot_at_def)
  then show ?thesis by (simp add: subseq_map subseq_filter_left)
qed

lemma length_MAGIC [simp]: "length MAGIC = 8"
  by (simp add: MAGIC_def)

text \<open>A snapshot written by \<open>encode\<close> parses back to the entries of the snapshot.\<close>

lemma load_encode:
  assumes "list_all key_ok (rc_queue c)"
  shows "load lo (Inr (encode now unix c)) now' unix' d =
    (case restore_at lo (snapshot_at now unix c) now' unix' d of (n, d') \<Rightarrow> (Inr n, d'))"
  using rec24.length_encs [OF snapshot_key_ok [OF assms]]
    rec24.decode_records [OF snapshot_key_ok [OF assms]]
  by (simp add: load_def encode_snapshot Let_def)

subsection \<open>Properties\<close>

text \<open>C22. The single-pass encoder writes the magic followed by exactly the records of the
  snapshot, in order.\<close>

theorem encode_matches_snapshot:
  "encode_into now unix magic record_len c =
     magic @ concat (map (\<lambda>(k, t). k @ u64_to_be_bytes t) (snapshot_at now unix c))"
  using encode_loop_snapshot [of c now unix magic "rc_queue c"]
  by (simp add: encode_into_def record_bytes_def [abs_def] case_prod_beta')

text \<open>C21. Loading is safe on every byte string: a snapshot that is missing, has a bad magic or a
  truncated record leaves the cache untouched, with an error unless it is missing; any other one
  keeps the invariant and the entries already there, and the count returned is the number of
  entries added.\<close>

theorem load_safe:
  assumes "rc_inv c" and "load lo rd now unix c = (res, c')"
  shows "rc_inv c' \<and> rc_len c' \<le> max 1 (rc_max_size c) \<and>
    (case res of Inl e \<Rightarrow> c' = c
     | Inr n \<Rightarrow> \<exists>added. rc_queue c' = rc_queue c @ added \<and> n = length added)"
proof (cases "\<exists>bs es n. rd = Inr bs \<and> restore_at lo es now unix c = (n, c') \<and> res = Inr n")
  case True
  then obtain es n where r: "restore_at lo es now unix c = (n, c')" and res: "res = Inr n" by auto
  from restore_at_spec [OF assms(1) r] show ?thesis
    by (auto simp: res Let_def rc_len_def rc_inv_len) (auto simp: rc_inv_def)
next
  case False
  then have "c' = c \<and> (res = Inr 0 \<or> (\<exists>e. res = Inl e))"
    using assms(2)
    by (auto simp: load_def Let_def split: sum.splits io_error.splits if_splits prod.splits)
  with assms(1) show ?thesis
    by (auto simp: rc_len_def rc_inv_len) (auto simp: rc_inv_def)
qed

theorem load_safe_witness:
  "rc_len (snd (load 0 (Inr (MAGIC @ replicate 24 7)) 100 5 (rc_new 10 60))) \<le> max 1 10"
  using load_safe [OF rc_new_inv [of 10 60] surjective_pairing,
      of 0 "Inr (MAGIC @ replicate 24 7)" 100 5] by simp

text \<open>A restart does not reopen the replay window: an entry live when the snapshot was taken
  is restored into an empty cache with enough room, and its key is answered \<open>Replay\<close> at least
  until the time to live has passed since the recorded second, counted with the wall clock over
  the time the relay was down.\<close>

lemma restart_keeps_protection:
  assumes "rc_inv c" and "list_all key_ok (rc_queue c)" and "(k, ts) \<in> set (rc_queue c)"
    and "duration_since now ts \<le> rc_ttl c" and "length (rc_queue c) \<le> n"
    and "D = from_secs (unat unix' - (unat unix - as_secs (duration_since now ts)))"
    and "D \<le> rc_ttl c" and "t \<le> now' + int (rc_ttl c - D)"
    and "load lo (Inr (encode now unix c)) now' unix' (rc_new n (rc_ttl c)) = (res, c')"
  shows "(\<exists>m. res = Inr m) \<and> fst (check_and_insert_at k t c') = Replay"
proof -
  let ?es = "snapshot_at now unix c" and ?u = "unix_minus unix (duration_since now ts)"
  let ?ad = "adopt_entries (rc_ttl c) lo now' unix' ?es"
  obtain m where r: "restore_at lo ?es now' unix' (rc_new n (rc_ttl c)) = (m, c')" and res: "res = Inr m"
    using assms(9) by (auto simp: load_encode [OF assms(2)] split: prod.splits)
  have dk: "distinct (map fst ?ad)"
    using assms(1) distinct_subseq [OF adopt_keys] distinct_subseq [OF snapshot_keys]
    by (metis rc_inv_def)
  have "length ?ad \<le> n"
    using list_emb_length [OF adopt_keys, of "rc_ttl c" lo now' unix' ?es]
      list_emb_length [OF snapshot_keys, of now unix c] assms(5) by simp
  moreover have "retain_unseen [] [] (sort_key snd ?ad) = sort_key snd ?ad"
    using dk by (intro retain_unseen_id) (simp_all add: distinct_keys_sort)
  ultimately have q: "rc_queue c' = sort_key snd ?ad" and inv: "rc_inv c'" and ttl: "rc_ttl c' = rc_ttl c"
    using restore_at_spec [OF rc_new_inv r] by (simp_all add: Let_def rc_new_def rc_len_def)
  have "unat (sat_sub unix' ?u) = unat unix' - (unat unix - as_secs (duration_since now ts))"
    using unsigned_less [of unix, where 'a = nat]
    by (simp add: unat_sat_sub unix_minus_def unat_of_nat)
  moreover have "(k, ?u) \<in> set ?es" using assms(3,4) by (auto simp: snapshot_at_def)
  ultimately obtain ts' where "(k, ts') \<in> set ?ad" and "now' - int D \<le> ts'"
    using adopt_complete [of k ?u ?es unix' "rc_ttl c" lo now'] assms(6,7) by auto
  with q have "(k, ts') \<in> set (rc_queue c')" "t \<le> ts' + int (rc_ttl c')"
    using assms(7,8) by (auto simp: ttl)
  with inv res show ?thesis by (auto intro: check_live_replay)
qed

text \<open>A snapshot larger than the cache keeps the newest entries: an entry that was live but
  found no place is no newer than any entry that was taken.\<close>

lemma restore_keeps_newest:
  assumes "rc_inv c" and "distinct (map fst entries)"
    and "restore_at lo entries now unix c = (n, c')"
    and "(k, t) \<in> set (adopt_entries (rc_ttl c) lo now unix entries)"
    and "k \<notin> fst ` set (rc_queue c')"
    and "(k', t') \<in> set (drop (length (rc_queue c)) (rc_queue c'))"
  shows "t \<le> t'"
proof -
  define ad where "ad = sort_key snd (adopt_entries (rc_ttl c) lo now unix entries)"
  define kept where "kept = retain_unseen (rc_map c) [] ad"
  define skip where "skip = length kept - (rc_max_size c - rc_len c)"
  have q: "rc_queue c' = rc_queue c @ drop skip kept"
    using restore_at_spec [OF assms(1,3)] by (simp add: Let_def kept_def ad_def skip_def)
  have "distinct (map fst ad)"
    using distinct_subseq [OF adopt_keys assms(2)] by (simp add: ad_def distinct_keys_sort)
  moreover have "\<not> hm_contains (rc_map c) k"
    using assms(5) q by (auto simp: rc_inv_contains [OF assms(1)])
  ultimately have "(k, t) \<in> set kept"
    unfolding kept_def using assms(4) by (intro retain_unseen_complete) (simp_all add: ad_def)
  moreover have "(k, t) \<notin> set (drop skip kept)" using assms(5) q by force
  ultimately have "(k, t) \<in> set (take skip kept)"
    using append_take_drop_id [of skip kept] by (metis Un_iff set_append)
  moreover have "sorted (map snd (take skip kept) @ map snd (drop skip kept))"
    using kept_sorted [of "rc_map c" "[]"] by (simp add: kept_def ad_def flip: map_append)
  moreover have "(k', t') \<in> set (drop skip kept)" using assms(6) q by simp
  ultimately show ?thesis by (force simp: sorted_append)
qed

subsection \<open>Replacing the file\<close>

lemma write_encoded_target:
  assumes "pext p \<noteq> Some ''tmp''"
  shows "snd (write_encoded fate buf p fs) p = (if fate = Write_ok then Some (buf, owner_only) else fs p)"
proof -
  have "with_extension ''tmp'' p \<noteq> p" using assms by (cases p) (simp add: with_extension_def)
  then show ?thesis by (cases fate) (auto simp: write_encoded_def Let_def open_truncate_def)
qed

subsection \<open>Files replaced as a whole\<close>

text \<open>
  The contract of a file that is saved again and again: what a reader finds there (\<open>view\<close>) is what the save wrote when it worked,
  and what was there before when it did not, whatever it left in its temporary file. \<open>undisturbed\<close> says that nobody else
  touches the files meanwhile.
\<close>

fun last_written :: "('f \<Rightarrow> 'v option) \<Rightarrow> 'f list \<Rightarrow> 'v \<Rightarrow> 'v" where
  "last_written written [] old = old"
| "last_written written (f # fs) old = last_written written fs (case written f of None \<Rightarrow> old | Some v \<Rightarrow> v)"

lemma last_written_append [simp]:
  "last_written written (fs @ gs) old = last_written written gs (last_written written fs old)"
  by (induction fs arbitrary: old) simp_all

lemma last_written_failed: "list_all (\<lambda>f. written f = None) fs \<Longrightarrow> last_written written fs old = old"
  by (induction fs arbitrary: old) simp_all

locale atomic_file =
  fixes save_file :: "'f \<Rightarrow> path \<Rightarrow> fs \<Rightarrow> fs"
    and view :: "path \<Rightarrow> fs \<Rightarrow> 'v"
    and written :: "'f \<Rightarrow> 'v option"
    and undisturbed :: "'f \<Rightarrow> path \<Rightarrow> bool"
  assumes save_view: "pext p \<noteq> Some ''tmp'' \<Longrightarrow> undisturbed f p \<Longrightarrow>
    view p (save_file f p files) = (case written f of None \<Rightarrow> view p files | Some v \<Rightarrow> v)"
begin

lemma saves_view:
  "pext p \<noteq> Some ''tmp'' \<Longrightarrow> list_all (\<lambda>f. undisturbed f p) fs \<Longrightarrow>
   view p (fold (\<lambda>f. save_file f p) fs files) = last_written written fs (view p files)"
  by (induction fs arbitrary: files) (simp_all add: save_view)

lemma last_save_survives:
  assumes "pext p \<noteq> Some ''tmp''" "list_all (\<lambda>f. undisturbed f p) (before @ f # failed)" "written f = Some v"
    and "list_all (\<lambda>g. written g = None) failed"
  shows "view p (fold (\<lambda>f. save_file f p) (before @ f # failed) files) = v"
  unfolding saves_view [OF assms(1,2)] by (simp add: assms(3) last_written_failed [OF assms(4)])

end

text \<open>The replay cache's file honours it, with its permissions.\<close>

interpretation rf: atomic_file "\<lambda>(fate, buf) p files. snd (write_encoded fate buf p files)" "\<lambda>p files. files p"
  "\<lambda>(fate, buf). if fate = Write_ok then Some (Some (buf, owner_only)) else None" "\<lambda>f p. True"
  by unfold_locales (auto simp: write_encoded_target split: prod.splits)

text \<open>The snapshot file is replaced atomically: whichever step of \<^verbatim>\<open>write_encoded\<close> fails, and
  however much of the temporary file was written, the target holds either its old contents or,
  on success, the whole buffer, readable by the owner only; no other file but the temporary one
  changes.\<close>

lemma write_encoded_atomic:
  assumes "pext p \<noteq> Some ''tmp''" and "write_encoded fate buf p fs = (res, fs')"
  shows "(case res of Inl e \<Rightarrow> fs' p = fs p | Inr n \<Rightarrow> fs' p = Some (buf, owner_only)) \<and>
    (\<forall>p'. p' \<noteq> p \<longrightarrow> p' \<noteq> with_extension ''tmp'' p \<longrightarrow> fs' p' = fs p')"
proof -
  have "with_extension ''tmp'' p \<noteq> p" using assms(1) by (cases p) (simp add: with_extension_def)
  then show ?thesis
    using assms(2)
    by (cases fate) (auto simp: write_encoded_def Let_def open_truncate_def)
qed

text \<open>The temporary file is named by replacing the extension, so for a target that already
  ends in \<^verbatim>\<open>.tmp\<close> it is the target: a write that stops short then leaves a torn snapshot, which the
  next start refuses to load when it is not a whole number of records.\<close>

theorem write_encoded_tmp_torn:
  assumes "pext p = Some ''tmp''" and "n < length buf"
  shows "snd (write_encoded (Write_fails n e) buf p fs) p = Some (take n buf, owner_only) \<and>
    take n buf \<noteq> buf \<and>
    (8 \<le> n \<and> (n - 8) mod 24 \<noteq> 0 \<longrightarrow> (\<exists>err. fst (load lo (Inr (take n buf)) now unix c) = Inl err))"
proof -
  have "with_extension ''tmp'' p = p" using assms(1) by (cases p) (simp add: with_extension_def)
  moreover have "take n buf \<noteq> buf" using assms(2) by (metis leD length_take min.cobounded2)
  ultimately show ?thesis
    using assms(2) by (auto simp: write_encoded_def Let_def load_def RECORD_def min_def)
qed

end
