(* ===== verification/F64.thy ===== *)
theory F64
  imports Prelude Complex_Main
begin

section \<open>Double-precision arithmetic\<close>

text \<open>
  The rate limiter and the delay scheduler compute with \<^verbatim>\<open>f64\<close>. A value is not-a-number, an
  infinity, or a finite rational; the arithmetic operations give the exact rational result rounded
  to 53 significant bits, ties to even, with gradual underflow at \<open>2 ^ -1074\<close> and overflow to
  infinity at \<open>2 ^ 1024\<close>, as IEEE 754 prescribes. The two zeros are one value: no operation the
  relay performs tells them apart.

  The locale \<open>rounding\<close> states what the components use of the rounding: it is monotone, it fixes
  zero and the representable values, and its relative error is bounded. The rounding of the model
  is shown to meet it.
\<close>

subsection \<open>Rounding to 53 bits\<close>

text \<open>The integer logarithm of a positive natural number.\<close>

fun nlog2 :: "nat \<Rightarrow> nat" where
  "nlog2 n = (if n < 2 then 0 else Suc (nlog2 (n div 2)))"

declare nlog2.simps [simp del]

text \<open>The exponent of a positive rational: the greatest \<open>e\<close> with \<open>2 powi e \<le> x\<close>.\<close>

definition rlog2 :: "rat \<Rightarrow> int" where
  "rlog2 x =
     (if 1 \<le> x then int (nlog2 (nat \<lfloor>x\<rfloor>))
      else let m = nlog2 (nat \<lceil>1 / x\<rceil>) in if 1 / x \<le> 2 ^ m then - int m else - int (Suc m))"

definition round_half_even :: "rat \<Rightarrow> int" where
  "round_half_even x =
     (let n = \<lfloor>x\<rfloor>; d = x - of_int n in
      if d < 1 / 2 then n else if 1 / 2 < d then n + 1 else if even n then n else n + 1)"

definition ulp_exp :: "rat \<Rightarrow> int" where
  "ulp_exp x = max (rlog2 x - 52) (- 1074)"

definition round_pos :: "rat \<Rightarrow> rat" where
  "round_pos x = of_int (round_half_even (x / 2 powi ulp_exp x)) * 2 powi ulp_exp x"

definition round53 :: "rat \<Rightarrow> rat" where
  "round53 x = (if x = 0 then 0 else if 0 < x then round_pos x else - round_pos (- x))"

text \<open>Half a unit in the last place: relative for normal values, absolute below them.\<close>

definition eps53 :: rat where
  "eps53 = 1 / 2 ^ 53"

definition eta53 :: rat where
  "eta53 = 2 powi (- 1075)"

subsection \<open>Values and operations\<close>

datatype f64 = NaN | PInf | NInf | Fin rat

definition f_of_rat :: "rat \<Rightarrow> f64" where
  "f_of_rat x =
     (let r = round53 x in
      if 2 ^ 1024 \<le> r then PInf else if r \<le> - (2 ^ 1024) then NInf else Fin r)"

definition f_of_nat :: "nat \<Rightarrow> f64" where
  "f_of_nat n = f_of_rat (of_nat n)"

fun f_neg :: "f64 \<Rightarrow> f64" where
  "f_neg NaN = NaN"
| "f_neg PInf = NInf"
| "f_neg NInf = PInf"
| "f_neg (Fin a) = Fin (- a)"

fun f_add :: "f64 \<Rightarrow> f64 \<Rightarrow> f64" where
  "f_add NaN y = NaN"
| "f_add x NaN = NaN"
| "f_add PInf NInf = NaN"
| "f_add NInf PInf = NaN"
| "f_add PInf y = PInf"
| "f_add NInf y = NInf"
| "f_add x PInf = PInf"
| "f_add x NInf = NInf"
| "f_add (Fin a) (Fin b) = f_of_rat (a + b)"

definition f_sub :: "f64 \<Rightarrow> f64 \<Rightarrow> f64" where
  "f_sub x y = f_add x (f_neg y)"

definition f_inf :: "bool \<Rightarrow> f64" where
  "f_inf pos = (if pos then PInf else NInf)"

fun f_mul :: "f64 \<Rightarrow> f64 \<Rightarrow> f64" where
  "f_mul NaN y = NaN"
| "f_mul x NaN = NaN"
| "f_mul (Fin a) (Fin b) = f_of_rat (a * b)"
| "f_mul (Fin a) PInf = (if a = 0 then NaN else f_inf (0 < a))"
| "f_mul (Fin a) NInf = (if a = 0 then NaN else f_inf (a < 0))"
| "f_mul PInf (Fin b) = (if b = 0 then NaN else f_inf (0 < b))"
| "f_mul NInf (Fin b) = (if b = 0 then NaN else f_inf (b < 0))"
| "f_mul PInf PInf = PInf"
| "f_mul NInf NInf = PInf"
| "f_mul PInf NInf = NInf"
| "f_mul NInf PInf = NInf"

text \<open>Division by a finite divisor; a zero divisor gives an infinity or not-a-number.\<close>

fun f_div :: "f64 \<Rightarrow> f64 \<Rightarrow> f64" where
  "f_div NaN y = NaN"
| "f_div x NaN = NaN"
| "f_div (Fin a) (Fin b) =
     (if b = 0 then (if a = 0 then NaN else f_inf (0 < a)) else f_of_rat (a / b))"
| "f_div (Fin a) _ = Fin 0"
| "f_div PInf (Fin b) = f_inf (0 \<le> b)"
| "f_div NInf (Fin b) = f_inf (b < 0)"
| "f_div _ _ = NaN"

fun f_lt :: "f64 \<Rightarrow> f64 \<Rightarrow> bool" where
  "f_lt NaN y = False"
| "f_lt x NaN = False"
| "f_lt PInf y = False"
| "f_lt x NInf = False"
| "f_lt x PInf = True"
| "f_lt NInf y = True"
| "f_lt (Fin a) (Fin b) = (a < b)"

definition f_eq :: "f64 \<Rightarrow> f64 \<Rightarrow> bool" where
  "f_eq x y \<longleftrightarrow> x \<noteq> NaN \<and> x = y"

definition f_le :: "f64 \<Rightarrow> f64 \<Rightarrow> bool" where
  "f_le x y \<longleftrightarrow> f_lt x y \<or> f_eq x y"

text \<open>\<^verbatim>\<open>f64::min\<close> and \<^verbatim>\<open>f64::max\<close> return the other argument when one is not a number.\<close>

definition f_min :: "f64 \<Rightarrow> f64 \<Rightarrow> f64" where
  "f_min x y = (if x = NaN then y else if y = NaN then x else if f_lt y x then y else x)"

definition f_max :: "f64 \<Rightarrow> f64 \<Rightarrow> f64" where
  "f_max x y = (if x = NaN then y else if y = NaN then x else if f_lt x y then y else x)"

text \<open>\<^verbatim>\<open>f64::clamp\<close> panics (\<open>None\<close>) unless the bounds are ordered; not-a-number passes through.\<close>

definition f_clamp :: "f64 \<Rightarrow> f64 \<Rightarrow> f64 \<Rightarrow> f64 option" where
  "f_clamp x lo hi =
     (if \<not> f_le lo hi then None
      else Some (let y = if f_lt x lo then lo else x in if f_lt hi y then hi else y))"

text \<open>
  \<^verbatim>\<open>Duration::as_secs_f64\<close>, and \<^verbatim>\<open>Duration::from_secs_f64\<close>, which rounds to the nearest nanosecond
  and panics on a value that is negative, not finite or does not fit.
\<close>

definition as_secs_f64 :: "duration \<Rightarrow> f64" where
  "as_secs_f64 d = f_add (f_of_nat (as_secs d)) (f_div (f_of_nat (subsec_nanos d)) (f_of_nat nanos_per_sec))"

definition from_secs_f64 :: "f64 \<Rightarrow> duration option" where
  "from_secs_f64 x =
     (case x of
        Fin a \<Rightarrow>
          if a < 0 then None
          else let n = round_half_even (a * 1000000000) in
            if n < 2 ^ 64 * 1000000000 then Some (nat n) else None
      | _ \<Rightarrow> None)"

subsection \<open>The rounding is monotone, idempotent and accurate\<close>

lemma nlog2_bounds:
  "0 < n \<Longrightarrow> 2 ^ nlog2 n \<le> n \<and> n < 2 ^ Suc (nlog2 n)"
proof (induction n rule: nlog2.induct)
  case (1 n)
  show ?case
  proof (cases "n < 2")
    case True
    with 1 show ?thesis by (simp add: nlog2.simps)
  next
    case False
    then have "2 ^ nlog2 (n div 2) \<le> n div 2 \<and> n div 2 < 2 ^ Suc (nlog2 (n div 2))"
      using 1 by simp
    with False show ?thesis by (subst (1 2) nlog2.simps) auto
  qed
qed

lemma nlog2_pos: "1 < n \<Longrightarrow> 0 < nlog2 n"
  by (subst nlog2.simps) simp

lemma rlog2_ge_one:
  assumes "1 \<le> x"
  shows "2 powi rlog2 x \<le> x \<and> x < 2 powi (rlog2 x + 1)"
proof -
  let ?n = "nat \<lfloor>x\<rfloor>"
  have "0 < ?n" using assms by (simp add: zero_less_floor)
  from nlog2_bounds [OF this] have lo: "2 ^ nlog2 ?n \<le> ?n" and hi: "?n + 1 \<le> 2 ^ Suc (nlog2 ?n)"
    by simp_all
  have fl: "of_nat ?n = (of_int \<lfloor>x\<rfloor> :: rat)" using assms by simp
  have "(of_nat (2 ^ nlog2 ?n) :: rat) \<le> of_nat ?n" using lo by (simp only: of_nat_le_iff)
  then have "(2 ^ nlog2 ?n :: rat) \<le> of_int \<lfloor>x\<rfloor>"
    by (simp only: fl of_nat_power of_nat_numeral)
  then have "2 ^ nlog2 ?n \<le> x" using of_int_floor_le [of x] by (rule order_trans)
  moreover have "(of_nat (?n + 1) :: rat) \<le> of_nat (2 ^ Suc (nlog2 ?n))"
    using hi by (simp only: of_nat_le_iff)
  then have "x < 2 ^ Suc (nlog2 ?n)" using fl floor_correct [of x] by simp
  ultimately show ?thesis
    using assms by (simp add: rlog2_def power_int_add flip: power_int_of_nat)
qed

lemma rlog2_lt_one:
  assumes "0 < x" "x < 1"
  shows "2 powi rlog2 x \<le> x \<and> x < 2 powi (rlog2 x + 1)"
proof -
  let ?y = "1 / x"
  let ?n = "nat \<lceil>?y\<rceil>"
  let ?m = "nlog2 ?n"
  have y: "1 < ?y" using assms by simp
  then have "1 < \<lceil>?y\<rceil>" by (simp add: less_ceiling_iff)
  then have n: "0 < ?n" and n1: "1 < ?n" by linarith+
  from nlog2_bounds [OF n] have lo: "2 ^ ?m \<le> ?n" and hi: "?n + 1 \<le> 2 ^ Suc ?m" by simp_all
  have fl: "of_nat ?n = (of_int \<lceil>?y\<rceil> :: rat)" using y by simp
  have "(of_nat (2 ^ ?m) :: rat) \<le> of_nat ?n" using lo by (simp only: of_nat_le_iff)
  then have "(2 ^ ?m :: rat) \<le> of_int \<lceil>?y\<rceil>"
    by (simp only: fl of_nat_power of_nat_numeral)
  then have lo': "2 ^ ?m < ?y + 1" using ceiling_correct [of ?y] by linarith
  have "(of_nat (?n + 1) :: rat) \<le> of_nat (2 ^ Suc ?m)" using hi by (simp only: of_nat_le_iff)
  then have "(of_int \<lceil>?y\<rceil> :: rat) + 1 \<le> 2 * 2 ^ ?m"
    by (simp only: fl of_nat_power of_nat_numeral of_nat_add of_nat_mult of_nat_1 power_Suc)
  then have hi': "?y < 2 * 2 ^ ?m" using ceiling_correct [of ?y] by linarith
  have m1: "0 < ?m" using n1 by (rule nlog2_pos)
  show ?thesis
  proof (cases "?y \<le> 2 ^ ?m")
    case True
    have two: "(2 :: rat) \<le> 2 ^ ?m" using m1 self_le_power [of "2::rat" ?m] by simp
    have "p < 2 * y" if "2 \<le> p" "p < y + 1" for p y :: rat using that by linarith
    from this [OF two lo'] have "2 ^ ?m < 2 * ?y" .
    then have "x < 2 powi (1 - int ?m)"
      using assms by (simp add: power_int_diff field_simps)
    moreover have "2 powi (- int ?m) \<le> x"
      using True assms by (simp add: power_int_minus field_simps)
    ultimately show ?thesis using True assms by (simp add: rlog2_def Let_def)
  next
    case False
    have r: "rlog2 x = - int (Suc ?m)" using False assms by (simp add: rlog2_def Let_def)
    have "x < 2 powi (- int ?m)"
      using False assms by (simp add: power_int_minus field_simps)
    moreover have "2 powi (- int (Suc ?m)) \<le> x"
      using hi' assms unfolding power_int_minus power_int_of_nat by (simp add: field_simps)
    ultimately show ?thesis unfolding r by simp
  qed
qed

lemma rlog2_bounds:
  "0 < x \<Longrightarrow> 2 powi rlog2 x \<le> x \<and> x < 2 powi (rlog2 x + 1)"
  using rlog2_ge_one rlog2_lt_one by (cases "1 \<le> x") auto

lemma rhe_of_int [simp]: "round_half_even (of_int k) = k"
  by (simp add: round_half_even_def)

lemma rhe_error: "\<bar>of_int (round_half_even x) - x\<bar> \<le> 1 / 2"
  using floor_correct [of x] by (auto simp: round_half_even_def Let_def abs_le_iff)

lemma rhe_between: "\<lfloor>x\<rfloor> \<le> round_half_even x \<and> round_half_even x \<le> \<lfloor>x\<rfloor> + 1"
  by (simp add: round_half_even_def Let_def)

lemma rhe_mono:
  assumes "x \<le> y"
  shows "round_half_even x \<le> round_half_even y"
proof (cases "\<lfloor>x\<rfloor> = \<lfloor>y\<rfloor>")
  case True
  with assms show ?thesis by (simp add: round_half_even_def Let_def)
next
  case False
  then have "\<lfloor>x\<rfloor> + 1 \<le> \<lfloor>y\<rfloor>" using floor_mono [OF assms] by simp
  with rhe_between [of x] rhe_between [of y] show ?thesis by linarith
qed

lemma powi_less_iff: "(2 :: rat) powi a < 2 powi b \<longleftrightarrow> a < b"
  using power_int_strict_increasing [of a b "2 :: rat"] power_int_increasing [of b a "2 :: rat"]
  by (cases "a < b") (auto simp: not_less)

lemma rlog2_mono:
  assumes "0 < x" "x \<le> y"
  shows "rlog2 x \<le> rlog2 y"
proof -
  have "2 powi rlog2 x < (2 :: rat) powi (rlog2 y + 1)"
    using rlog2_bounds [of x] rlog2_bounds [of y] assms by linarith
  then show ?thesis by (simp add: powi_less_iff)
qed

lemma ulp_exp_mono: "0 < x \<Longrightarrow> x \<le> y \<Longrightarrow> ulp_exp x \<le> ulp_exp y"
  using rlog2_mono [of x y] by (simp add: ulp_exp_def max_def)

lemma powi_grid:
  assumes "u \<le> v"
  shows "(2 :: rat) powi v = of_int (2 ^ nat (v - u)) * 2 powi u"
proof -
  have "v = int (nat (v - u)) + u" using assms by simp
  then have "(2 :: rat) powi v = 2 powi (int (nat (v - u)) + u)" by simp
  also have "\<dots> = 2 ^ nat (v - u) * 2 powi u"
    by (simp only: power_int_add power_int_of_nat zero_neq_numeral [symmetric] simp_thms)
  finally show ?thesis by simp
qed

lemma round_pos_le_grid:
  assumes "x \<le> of_int k * 2 powi ulp_exp x"
  shows "round_pos x \<le> of_int k * 2 powi ulp_exp x"
proof -
  have "x / 2 powi ulp_exp x \<le> of_int k" using assms by (simp add: divide_le_eq)
  from rhe_mono [OF this] show ?thesis by (simp add: round_pos_def mult_right_mono)
qed

lemma round_pos_ge_grid:
  assumes "of_int k * 2 powi ulp_exp x \<le> x"
  shows "of_int k * 2 powi ulp_exp x \<le> round_pos x"
proof -
  have "of_int k \<le> x / 2 powi ulp_exp x" using assms by (simp add: le_divide_eq)
  from rhe_mono [OF this] show ?thesis by (simp add: round_pos_def mult_right_mono)
qed

lemma round_pos_nonneg: "0 < x \<Longrightarrow> 0 \<le> round_pos x"
  using round_pos_ge_grid [of 0 x] by simp

lemma round_pos_mono:
  assumes "0 < x" "x \<le> y"
  shows "round_pos x \<le> round_pos y"
proof (cases "ulp_exp x = ulp_exp y")
  case True
  have "round_half_even (x / 2 powi ulp_exp y) \<le> round_half_even (y / 2 powi ulp_exp y)"
    using assms by (intro rhe_mono) (simp add: divide_right_mono)
  with True show ?thesis by (simp add: round_pos_def mult_right_mono)
next
  case False
  with ulp_exp_mono [OF assms] have less: "ulp_exp x < ulp_exp y" by simp
  then have uy: "ulp_exp y = rlog2 y - 52" by (auto simp: ulp_exp_def max_def split: if_splits)
  have lt: "rlog2 x < rlog2 y" using less by (auto simp: ulp_exp_def max_def split: if_splits)
  have "x < 2 powi (rlog2 x + 1)" using rlog2_bounds assms by blast
  also have "\<dots> \<le> 2 powi rlog2 y" using lt by (intro power_int_increasing) auto
  finally have "round_pos x \<le> 2 powi rlog2 y"
    using powi_grid [of "ulp_exp x" "rlog2 y"] less uy
      round_pos_le_grid [of x "2 ^ nat (rlog2 y - ulp_exp x)"] by simp
  also have "2 powi rlog2 y \<le> round_pos y"
    using powi_grid [of "ulp_exp y" "rlog2 y"] uy rlog2_bounds [of y] assms
      round_pos_ge_grid [of "2 ^ nat (rlog2 y - ulp_exp y)" y] by simp
  finally show ?thesis .
qed

lemma round53_mono: "x \<le> y \<Longrightarrow> round53 x \<le> round53 y"
  using round_pos_mono [of x y] round_pos_mono [of "- y" "- x"]
    round_pos_nonneg [of y] round_pos_nonneg [of "- x"]
  by (auto simp: round53_def)

text \<open>Every multiple of a power of two with at most 53 bits is representable.\<close>

lemma round_pos_fixed:
  assumes k: "0 < k" "k \<le> 2 ^ 53" and u: "- 1074 \<le> u"
    and x: "x = of_int k * 2 powi u"
  shows "round_pos x = x"
proof -
  have x0: "0 < x" using k x by simp
  have "\<exists>j. x = of_int j * 2 powi ulp_exp x"
  proof (cases "ulp_exp x \<le> u")
    case True
    have "x = of_int (k * 2 ^ nat (u - ulp_exp x)) * 2 powi ulp_exp x"
      using powi_grid [OF True] x by (simp only: of_int_mult mult.assoc)
    then show ?thesis by blast
  next
    case False
    with u have ux: "ulp_exp x = rlog2 x - 52" by (auto simp: ulp_exp_def max_def split: if_splits)
    have "(of_int k :: rat) \<le> of_int (2 ^ 53)" using k by (simp only: of_int_le_iff)
    then have "x \<le> 2 powi 53 * 2 powi u" unfolding x by (intro mult_right_mono) simp_all
    also have "\<dots> = 2 powi (53 + u)" by (subst power_int_add) simp_all
    finally have le: "x \<le> 2 powi (53 + u)" .
    have "2 powi (53 + u) \<le> (2 :: rat) powi rlog2 x"
      using False ux by (intro power_int_increasing) auto
    with le rlog2_bounds [OF x0] have "x = 2 powi rlog2 x" by simp
    moreover have "(2 :: rat) powi rlog2 x = of_int (2 ^ nat (rlog2 x - ulp_exp x)) * 2 powi ulp_exp x"
      by (rule powi_grid) (simp add: ux)
    ultimately show ?thesis by metis
  qed
  then obtain j where "x = of_int j * 2 powi ulp_exp x" by blast
  then show ?thesis
    using round_pos_le_grid [of x j] round_pos_ge_grid [of j x] by simp
qed

lemma round_pos_grid:
  assumes "0 < x"
  obtains k where "0 \<le> k" "k \<le> 2 ^ 53" "round_pos x = of_int k * 2 powi ulp_exp x"
proof -
  let ?u = "ulp_exp x"
  have "x < 2 powi (rlog2 x + 1)" using rlog2_bounds assms by blast
  also have "\<dots> \<le> 2 powi (53 + ?u)"
    by (intro power_int_increasing) (auto simp: ulp_exp_def)
  also have "\<dots> = 2 powi 53 * 2 powi ?u" by (subst power_int_add) simp_all
  finally have "x / 2 powi ?u \<le> of_int (2 ^ 53)" by (simp add: divide_le_eq)
  then have "round_half_even (x / 2 powi ?u) \<le> 2 ^ 53" by (metis rhe_mono rhe_of_int)
  moreover have "of_int 0 \<le> x / 2 powi ?u" using assms by simp
  then have "0 \<le> round_half_even (x / 2 powi ?u)" by (metis rhe_mono rhe_of_int)
  ultimately show thesis using that by (simp add: round_pos_def)
qed

lemma round_pos_idem:
  assumes "0 < x" "round_pos x \<noteq> 0"
  shows "round_pos (round_pos x) = round_pos x"
proof -
  from round_pos_grid [OF assms(1)] obtain k
    where k: "0 \<le> k" "k \<le> 2 ^ 53" "round_pos x = of_int k * 2 powi ulp_exp x" by blast
  from k assms have "0 < k" by (cases "k = 0") auto
  then show ?thesis using k by (intro round_pos_fixed) (auto simp: ulp_exp_def)
qed

lemma round53_idem: "round53 (round53 x) = round53 x"
  using round_pos_idem [of x] round_pos_idem [of "- x"]
    round_pos_nonneg [of x] round_pos_nonneg [of "- x"]
  by (auto simp: round53_def)

lemma round53_int: "\<bar>k\<bar> \<le> 2 ^ 53 \<Longrightarrow> round53 (of_int k) = of_int k"
  using round_pos_fixed [of k 0 "of_int k"] round_pos_fixed [of "- k" 0 "of_int (- k)"]
  by (auto simp: round53_def abs_le_iff)

lemma round_pos_error:
  assumes "0 < x"
  shows "\<bar>round_pos x - x\<bar> \<le> x * eps53 + eta53"
proof -
  let ?p = "2 powi ulp_exp x :: rat"
  have p: "0 < ?p" by simp
  have "round_pos x - x = (of_int (round_half_even (x / ?p)) - x / ?p) * ?p"
    by (simp add: round_pos_def algebra_simps)
  then have "\<bar>round_pos x - x\<bar> = \<bar>of_int (round_half_even (x / ?p)) - x / ?p\<bar> * ?p"
    by (simp add: abs_mult)
  also have "\<dots> \<le> 1 / 2 * ?p" using p by (intro mult_right_mono rhe_error) simp
  also have "?p \<le> 2 powi (rlog2 x - 52) + 2 powi (- 1074)"
    by (auto simp: ulp_exp_def max_def)
  also have "2 powi (rlog2 x - 52) = 2 powi rlog2 x / (2 ^ 52 :: rat)"
    by (subst power_int_diff) simp_all
  also have "\<dots> \<le> x / 2 ^ 52" using rlog2_bounds [OF assms] by (intro divide_right_mono) simp_all
  finally have "\<bar>round_pos x - x\<bar> \<le> 1 / 2 * (x / 2 ^ 52 + 2 powi (- 1074))" by simp
  also have "\<dots> = x * eps53 + 1 / 2 * 2 powi (- 1074)" by (simp add: eps53_def)
  also have "1 / 2 * 2 powi (- 1074) = eta53"
    using power_int_add [of "2 :: rat" "- 1" "- 1074"] by (simp add: eta53_def)
  finally show ?thesis .
qed

lemma round53_error: "\<bar>round53 x - x\<bar> \<le> \<bar>x\<bar> * eps53 + eta53"
proof -
  consider "x = 0" | "0 < x" | "0 < - x" by linarith
  then show ?thesis
  proof cases
    case 3
    then have "\<bar>round53 x - x\<bar> = \<bar>round_pos (- x) - (- x)\<bar>"
      by (simp add: round53_def abs_if)
    with round_pos_error [OF 3] 3 show ?thesis by simp
  qed (use round_pos_error [of x] in \<open>simp_all add: round53_def eta53_def\<close>)
qed

locale rounding =
  fixes rnd :: "rat \<Rightarrow> rat" and eps eta :: rat
  assumes rnd_mono: "x \<le> y \<Longrightarrow> rnd x \<le> rnd y"
    and rnd_idem: "rnd (rnd x) = rnd x"
    and rnd_zero: "rnd 0 = 0"
    and rnd_error: "\<bar>rnd x - x\<bar> \<le> \<bar>x\<bar> * eps + eta"
begin

lemma nonneg: "0 \<le> x \<Longrightarrow> 0 \<le> rnd x"
  using rnd_mono [of 0 x] by (simp add: rnd_zero)

lemma below: "x \<le> b \<Longrightarrow> rnd b = b \<Longrightarrow> rnd x \<le> b"
  using rnd_mono [of x b] by simp

lemma above: "b \<le> x \<Longrightarrow> rnd b = b \<Longrightarrow> b \<le> rnd x"
  using rnd_mono [of b x] by simp

lemma upper: "0 \<le> x \<Longrightarrow> rnd x \<le> x * (1 + eps) + eta"
  using rnd_error [of x] by (simp add: abs_le_iff algebra_simps)

lemma lower: "0 \<le> x \<Longrightarrow> x * (1 - eps) - eta \<le> rnd x"
  using rnd_error [of x] by (simp add: abs_le_iff algebra_simps)

end

interpretation r53: rounding round53 eps53 eta53
  by unfold_locales (simp_all add: round53_mono round53_idem round53_error, simp add: round53_def)

subsection \<open>Laws of the operations\<close>

text \<open>The finite values of the type are the representable rationals.\<close>

fun f_ok :: "f64 \<Rightarrow> bool" where
  "f_ok (Fin a) \<longleftrightarrow> round53 a = a \<and> \<bar>a\<bar> < 2 ^ 1024"
| "f_ok _ \<longleftrightarrow> True"

lemma f_of_rat_ok: "f_ok (f_of_rat x)"
  by (auto simp: f_of_rat_def Let_def round53_idem abs_if)

lemma f_of_rat_id: "f_ok (Fin a) \<Longrightarrow> f_of_rat a = Fin a"
  by (auto simp: f_of_rat_def Let_def abs_if split: if_splits)

lemma f_of_rat_0: "f_of_rat 0 = Fin 0"
  by (simp add: f_of_rat_def round53_def)

lemma f_of_rat_not_nan [simp]: "f_of_rat x \<noteq> NaN"
  by (simp add: f_of_rat_def Let_def)

lemma f_le_refl [simp]: "f_le x x \<longleftrightarrow> x \<noteq> NaN"
  by (cases x) (simp_all add: f_le_def f_eq_def)

lemma f_le_Fin [simp]: "f_le (Fin a) (Fin b) \<longleftrightarrow> a \<le> b"
  by (auto simp: f_le_def f_eq_def)

lemma f_le_simps [simp]:
  "\<not> f_le NaN x" "\<not> f_le x NaN" "f_le x PInf \<longleftrightarrow> x \<noteq> NaN" "f_le NInf x \<longleftrightarrow> x \<noteq> NaN"
  "\<not> f_le PInf (Fin a)" "\<not> f_le (Fin a) NInf" "\<not> f_le PInf NInf"
  by (cases x; simp add: f_le_def f_eq_def)+

lemma f_le_trans: "f_le x y \<Longrightarrow> f_le y z \<Longrightarrow> f_le x z"
  by (cases x; cases y; cases z) auto

lemma f_not_lt: "x \<noteq> NaN \<Longrightarrow> y \<noteq> NaN \<Longrightarrow> \<not> f_lt x y \<longleftrightarrow> f_le y x"
  by (cases x; cases y) auto

lemma f_of_rat_mono: "x \<le> y \<Longrightarrow> f_le (f_of_rat x) (f_of_rat y)"
  using round53_mono [of x y] by (auto simp: f_of_rat_def Let_def)

lemma f_add_ok: "f_ok (f_add x y)"
  by (cases x; cases y) (simp_all add: f_of_rat_ok)

lemma f_sub_ok: "f_ok (f_sub x y)"
  by (simp add: f_sub_def f_add_ok)

lemma f_mul_ok: "f_ok (f_mul x y)"
  by (cases x; cases y) (simp_all add: f_of_rat_ok f_inf_def)

lemma f_min_ok: "f_ok x \<Longrightarrow> f_ok y \<Longrightarrow> f_ok (f_min x y)"
  by (simp add: f_min_def)

lemma f_min_le: "y \<noteq> NaN \<Longrightarrow> f_le (f_min x y) y"
  by (cases x; cases y) (auto simp: f_min_def)

subsection \<open>Upper bounds through a computation\<close>

lemma f_double:
  assumes "f_ok (Fin p)" "0 < p" "2 * p < 2 ^ 1024"
  shows "f_mul (Fin p) (Fin 2) = Fin (2 * p)"
proof -
  have p: "round_pos p = p" using assms by (simp add: round53_def)
  from round_pos_grid [OF assms(2)] obtain k
    where k: "0 \<le> k" "k \<le> 2 ^ 53" "round_pos p = of_int k * 2 powi ulp_exp p" by blast
  then have "0 < k" using p assms by (cases "k = 0") auto
  have "2 * p = of_int k * (2 powi ulp_exp p * 2)" using k p by simp
  also have "(2 powi ulp_exp p * 2 :: rat) = 2 powi (ulp_exp p + 1)"
    by (simp add: power_int_add_1)
  finally have "round_pos (2 * p) = 2 * p"
    using k \<open>0 < k\<close> by (intro round_pos_fixed [of k "ulp_exp p + 1"]) (auto simp: ulp_exp_def)
  then have "f_ok (Fin (2 * p))" using assms by (simp add: round53_def)
  from f_of_rat_id [OF this] show ?thesis by (simp add: mult.commute)
qed

text \<open>An upper bound on a value that is not negative; an overflow needs a bound as large.\<close>

definition f_ub :: "f64 \<Rightarrow> rat \<Rightarrow> bool" where
  "f_ub y r = (case y of Fin a \<Rightarrow> 0 \<le> a \<and> a \<le> r | PInf \<Rightarrow> 2 ^ 1024 \<le> r | _ \<Rightarrow> False)"

definition widen :: "rat \<Rightarrow> rat" where
  "widen x = x * (1 + eps53) + eta53"

lemma eps53_pos [simp]: "0 < eps53" and eta53_pos [simp]: "0 < eta53"
  by (simp_all add: eps53_def eta53_def)

lemma eps53_nonneg [simp]: "0 \<le> eps53" and eta53_nonneg [simp]: "0 \<le> eta53"
  by (simp_all add: order_less_imp_le)

lemma widen_mono: "x \<le> y \<Longrightarrow> widen x \<le> widen y"
  by (simp add: widen_def mult_right_mono add_nonneg_nonneg order_less_imp_le)

lemma widen_ge: "0 \<le> x \<Longrightarrow> x \<le> widen x"
  by (simp add: widen_def algebra_simps add_nonneg_nonneg order_less_imp_le)

lemma f_ub_mono: "f_ub y r \<Longrightarrow> r \<le> r' \<Longrightarrow> f_ub y r'"
  by (cases y) (auto simp: f_ub_def)

lemma f_ub_nonneg: "f_ub y r \<Longrightarrow> 0 \<le> r"
  by (cases y) (auto simp: f_ub_def intro: order_trans [of 0 "2 ^ 1024"])

lemma f_ub_of_rat: "0 \<le> x \<Longrightarrow> x \<le> r \<Longrightarrow> f_ub (f_of_rat x) (widen r)"
proof -
  assume x: "0 \<le> x" "x \<le> r"
  then have "0 \<le> round53 x" "round53 x \<le> widen x"
    using r53.nonneg r53.upper by (simp_all add: widen_def)
  then show ?thesis
    using widen_mono [OF x(2)] by (auto simp: f_ub_def f_of_rat_def Let_def)
qed

lemma f_ub_add:
  assumes "f_ub x a" "f_ub y b"
  shows "f_ub (f_add x y) (widen (a + b))"
proof -
  have "0 \<le> a" "0 \<le> b" using assms f_ub_nonneg by blast+
  with assms widen_ge [of "a + b"] show ?thesis
    by (cases x; cases y) (auto simp: f_ub_def intro!: f_ub_of_rat [unfolded f_ub_def])
qed

lemma f_ub_mul:
  assumes "0 \<le> e" "e \<le> e'" "0 \<le> p"
  shows "f_ub (f_mul (Fin e) (Fin p)) (widen (e' * p))"
  using assms by (simp add: f_ub_of_rat mult_right_mono)

lemma f_min_ub:
  assumes "f_ub y r" "0 \<le> b" "b < 2 ^ 1024"
  obtains z where "f_min y (Fin b) = Fin z" "0 \<le> z" "z \<le> b" "z \<le> r"
proof (cases y)
  case (Fin a)
  with assms have "f_min y (Fin b) = Fin (min a b)" "0 \<le> min a b" "min a b \<le> r"
    by (auto simp: f_ub_def f_min_def)
  then show thesis using that by simp
next
  case PInf
  with assms have "f_min y (Fin b) = Fin b" "b \<le> r" by (auto simp: f_ub_def f_min_def)
  then show thesis using that assms by simp
qed (use assms in \<open>auto simp: f_ub_def\<close>)

lemma f_sub_one:
  assumes "f_ok (Fin z)" "1 \<le> z"
  obtains w where "f_sub (Fin z) (Fin 1) = Fin w" "0 \<le> w" "w \<le> z" "w \<le> widen (z - 1)"
proof -
  let ?w = "round53 (z - 1)"
  have w: "0 \<le> ?w" "?w \<le> z" "?w \<le> widen (z - 1)"
    using assms r53.nonneg [of "z - 1"] r53.below [of "z - 1" z] r53.upper [of "z - 1"]
    by (simp_all add: widen_def)
  with assms have "f_sub (Fin z) (Fin 1) = Fin ?w"
    by (auto simp: f_sub_def f_of_rat_def Let_def)
  with w that show thesis by blast
qed

text \<open>The seconds of a duration, exactly and as a double.\<close>

definition secs_of :: "duration \<Rightarrow> rat" where
  "secs_of d = of_nat d / 1000000000"

lemma secs_of_split:
  "of_nat (as_secs d) + of_nat (subsec_nanos d) / 1000000000 = secs_of d"
proof -
  have "of_nat (as_secs d * 1000000000 + subsec_nanos d) = (of_nat d :: rat)"
    by (simp only: time_simps div_mult_mod_eq)
  then show ?thesis by (simp add: secs_of_def field_simps)
qed

lemma f_of_nat_exact: "n \<le> 2 ^ 53 \<Longrightarrow> f_of_nat n = Fin (of_nat n)"
proof -
  assume n: "n \<le> 2 ^ 53"
  then have "round53 (of_int (int n)) = of_int (int n)" by (intro round53_int) simp
  moreover have "(of_nat n :: rat) \<le> of_nat (2 ^ 53)" using n by (simp only: of_nat_le_iff)
  ultimately show ?thesis
    by (auto simp: f_of_nat_def f_of_rat_def Let_def)
qed

lemma as_secs_f64_ub: "f_ub (as_secs_f64 d) (widen (widen (secs_of d) + eta53))"
proof -
  let ?s = "as_secs d" and ?n = "subsec_nanos d"
  have n: "?n < 1000000000" by (simp add: time_simps)
  have "f_ub (f_of_nat ?s) (widen (of_nat ?s))"
    unfolding f_of_nat_def by (rule f_ub_of_rat) simp_all
  moreover have "f_div (f_of_nat ?n) (f_of_nat nanos_per_sec) = f_of_rat (of_nat ?n / 1000000000)"
    using n by (simp add: f_of_nat_exact nanos_per_sec_def)
  then have "f_ub (f_div (f_of_nat ?n) (f_of_nat nanos_per_sec)) (widen (of_nat ?n / 1000000000))"
    by (simp add: f_ub_of_rat)
  ultimately have "f_ub (as_secs_f64 d) (widen (widen (of_nat ?s) + widen (of_nat ?n / 1000000000)))"
    unfolding as_secs_f64_def by (rule f_ub_add)
  moreover have "widen (of_nat ?s) + widen (of_nat ?n / 1000000000) = widen (secs_of d) + eta53"
    unfolding secs_of_split [symmetric] by (simp add: widen_def algebra_simps)
  ultimately show ?thesis by simp
qed

text \<open>A computation of a few steps stays within a few relative errors of its exact value.\<close>

lemma widen_step:
  assumes "0 \<le> m" "0 \<le> c" "0 \<le> k" "k * eps53 \<le> 1" "a \<le> m * (1 + k * eps53) + c"
  shows "widen a \<le> m * (1 + (k + 2) * eps53) + (2 * c + eta53)"
proof -
  have "widen a \<le> (m * (1 + k * eps53) + c) * (1 + eps53) + eta53"
    using widen_mono [OF assms(5)] by (simp add: widen_def)
  also have "\<dots> = m * (1 + (k + 1) * eps53) + (m * eps53) * (k * eps53) + c + c * eps53 + eta53"
    by (simp add: algebra_simps)
  also have "(m * eps53) * (k * eps53) \<le> (m * eps53) * 1"
    using assms by (intro mult_left_mono) (simp_all add: order_less_imp_le)
  also have "c * eps53 \<le> c * 1"
    using assms by (intro mult_left_mono) (simp_all add: eps53_def)
  finally show ?thesis by (simp add: algebra_simps)
qed

lemma as_secs_f64_finite:
  assumes "d < 2 ^ 64 * nanos_per_sec"
  obtains e where "as_secs_f64 d = Fin e" "0 \<le> e" "e \<le> secs_of d * (1 + 4 * eps53) + 5 * eta53"
proof -
  have s: "0 \<le> secs_of d" by (simp add: secs_of_def)
  have "(of_nat d :: rat) \<le> of_nat (2 ^ 64 * nanos_per_sec)"
    using assms by (simp only: of_nat_le_iff)
  then have s64: "secs_of d \<le> 2 ^ 64" by (simp add: secs_of_def nanos_per_sec_def)
  have "widen (secs_of d) \<le> secs_of d * (1 + 2 * eps53) + eta53"
    using widen_step [of "secs_of d" 0 0 "secs_of d"] s by simp
  then have "widen (widen (secs_of d) + eta53) \<le> secs_of d * (1 + 4 * eps53) + 5 * eta53"
    using widen_step [of "secs_of d" "2 * eta53" 2 "widen (secs_of d) + eta53"] s
    by (simp add: eps53_def order_less_imp_le)
  with as_secs_f64_ub [of d]
  have ub: "f_ub (as_secs_f64 d) (secs_of d * (1 + 4 * eps53) + 5 * eta53)" by (rule f_ub_mono)
  have "secs_of d * (1 + 4 * eps53) + 5 * eta53 \<le> 2 ^ 64 * 2 + 5"
    using s64 s by (intro add_mono mult_mono) (simp_all add: eps53_def eta53_def)
  also have "\<dots> < (2 :: rat) ^ 1024" by simp
  finally show thesis using ub that by (cases "as_secs_f64 d") (auto simp: f_ub_def)
qed

lemma f_of_rat_ge: "f_ok (Fin c) \<Longrightarrow> c \<le> x \<Longrightarrow> f_le (Fin c) (f_of_rat x)"
  using f_of_rat_mono [of c x] f_of_rat_id [of c] by simp

lemma f_ok_0 [simp]: "f_ok (Fin 0)" and f_ok_1 [simp]: "f_ok (Fin 1)"
  using round53_int [of 1] by (simp_all add: round53_def)

lemma f_of_rat_ge_one: "1 \<le> x \<Longrightarrow> f_le (Fin 1) (f_of_rat x)"
  by (rule f_of_rat_ge [OF f_ok_1])

lemma f_one_add:
  "f_le (Fin 1) x \<Longrightarrow> f_le (Fin 0) y \<Longrightarrow> f_le (Fin 1) (f_add x y)"
  "f_le (Fin 0) y \<Longrightarrow> f_le (Fin 1) x \<Longrightarrow> f_le (Fin 1) (f_add y x)"
  by (cases x; cases y; auto intro: f_of_rat_ge_one)+

lemma f_one_mul:
  assumes "f_le (Fin 1) x" "f_le (Fin 1) y"
  shows "f_le (Fin 1) (f_mul x y)"
proof -
  have "1 \<le> a * b" if "1 \<le> a" "1 \<le> b" for a b :: rat
    using mult_mono [OF that] that by simp
  with assms show ?thesis by (cases x; cases y) (auto simp: f_inf_def intro: f_of_rat_ge_one)
qed

lemma as_secs_f64_one: "from_secs 1 \<le> d \<Longrightarrow> f_le (Fin 1) (as_secs_f64 d)"
proof -
  assume d: "from_secs 1 \<le> d"
  have "1 \<le> as_secs d" using div_le_mono [OF d, of nanos_per_sec] by (simp add: time_simps)
  then have "f_le (Fin 1) (f_of_nat (as_secs d))" by (simp add: f_of_nat_def f_of_rat_ge_one)
  moreover have "subsec_nanos d < 1000000000" by (simp add: time_simps)
  then have "f_le (Fin 0) (f_div (f_of_nat (subsec_nanos d)) (f_of_nat nanos_per_sec))"
    using f_of_rat_mono [of 0] by (simp add: f_of_nat_exact nanos_per_sec_def f_of_rat_0)
  ultimately show ?thesis unfolding as_secs_f64_def by (rule f_one_add)
qed

end
