(* ===== verification/Rate_Limit.thy ===== *)
theory Rate_Limit
  imports F64 Hash_Map
begin

section \<open>Rate limiting\<close>

text \<open>
  \<^verbatim>\<open>crypto-gotham-relay/src/rate_limit.rs\<close>: the token bucket with a daily byte quota
  (\<^verbatim>\<open>RateLimiter\<close>), and the table of one bucket per source address (\<^verbatim>\<open>PerSourceLimiter\<close>). The
  tokens are doubles, so every bound below accounts for rounding. The theory proves
  \<^item> the invariant of a bucket and that a throttled packet changes nothing, through the locale
    \<open>limiter\<close>;
  \<^item> the admission bounds: the burst at one instant, the packets over an interval, the bytes over
    any number of quota windows;
  \<^item> that the table of sources is bounded, that it evicts a source idle for the longest time, and
    that one source's packets leave every other source's bucket as it was.
\<close>

subsection \<open>State and operations\<close>

definition WIRE_BYTES_PER_PACKET :: u64 where
  "WIRE_BYTES_PER_PACKET = 2064"

definition QUOTA_WINDOW :: duration where
  "QUOTA_WINDOW = from_secs (24 * 60 * 60)"

datatype throttle_reason = Rate | DailyQuota

datatype rate_decision = Allow | Throttled throttle_reason

definition is_allowed :: "rate_decision \<Rightarrow> bool" where
  "is_allowed d = (case d of Allow \<Rightarrow> True | Throttled _ \<Rightarrow> False)"

record rate_limiter =
  rl_max_pps :: f64
  rl_burst :: f64
  rl_tokens :: f64
  rl_last_refill :: instant
  rl_max_bytes_per_day :: u64
  rl_bytes_used :: u64
  rl_window_start :: instant

text \<open>The constructor reads the clock twice; the two readings are arguments.\<close>

definition rl_new :: "f64 \<Rightarrow> u64 \<Rightarrow> instant \<Rightarrow> instant \<Rightarrow> rate_limiter" where
  "rl_new max_pps0 max_bytes_per_day t_refill t_window =
     (let max_pps = f_max max_pps0 (Fin 0);
          burst = (if f_lt (Fin 0) max_pps then f_mul max_pps (Fin 2) else Fin 0) in
      \<lparr>rl_max_pps = max_pps, rl_burst = burst, rl_tokens = burst, rl_last_refill = t_refill,
       rl_max_bytes_per_day = max_bytes_per_day, rl_bytes_used = 0, rl_window_start = t_window\<rparr>)"

definition rl_unlimited :: "instant \<Rightarrow> instant \<Rightarrow> rate_limiter" where
  "rl_unlimited = rl_new (Fin 0) 0"

definition rl_is_unlimited :: "rate_limiter \<Rightarrow> bool" where
  "rl_is_unlimited rl \<longleftrightarrow> f_eq (rl_max_pps rl) (Fin 0) \<and> rl_max_bytes_per_day rl = 0"

definition bytes_used_today :: "rate_limiter \<Rightarrow> u64" where
  "bytes_used_today rl = rl_bytes_used rl"

text \<open>
  The first half of \<^verbatim>\<open>check_at\<close>: the byte counter and window start after a possible reset, or the
  quota's refusal.
\<close>

definition quota_guard :: "instant \<Rightarrow> rate_limiter \<Rightarrow> (u64 \<times> instant) option" where
  "quota_guard now rl =
     (if rl_max_bytes_per_day rl > 0 then
        let (bytes_used, window_start) =
              (if duration_since now (rl_window_start rl) \<ge> QUOTA_WINDOW then (0, now)
               else (rl_bytes_used rl, rl_window_start rl)) in
        if sat_add bytes_used WIRE_BYTES_PER_PACKET > rl_max_bytes_per_day rl then None
        else Some (bytes_used, window_start)
      else Some (rl_bytes_used rl, rl_window_start rl))"

definition refilled :: "instant \<Rightarrow> rate_limiter \<Rightarrow> f64" where
  "refilled now rl =
     f_min (f_add (rl_tokens rl)
              (f_mul (as_secs_f64 (duration_since now (rl_last_refill rl))) (rl_max_pps rl)))
       (rl_burst rl)"

definition rl_check_at :: "nat \<Rightarrow> instant \<Rightarrow> rate_limiter \<Rightarrow> rate_decision \<times> rate_limiter" where
  "rl_check_at packet_len now rl =
     (case quota_guard now rl of
        None \<Rightarrow> (Throttled DailyQuota, rl)
      | Some (bytes_used, window_start) \<Rightarrow>
          if f_lt (Fin 0) (rl_max_pps rl) \<and> f_lt (refilled now rl) (Fin 1)
          then (Throttled Rate, rl)
          else
            let rl1 = (if f_lt (Fin 0) (rl_max_pps rl)
                       then rl\<lparr>rl_tokens := f_sub (refilled now rl) (Fin 1), rl_last_refill := now\<rparr>
                       else rl);
                rl2 = (if rl_max_bytes_per_day rl > 0
                       then rl1\<lparr>rl_bytes_used := sat_add bytes_used WIRE_BYTES_PER_PACKET,
                                rl_window_start := window_start\<rparr>
                       else rl1) in
            (Allow, rl2))"

text \<open>The packets offered to a limiter, each with its length and the instant of the check.\<close>

fun run_limiter :: "(nat \<Rightarrow> instant \<Rightarrow> 's \<Rightarrow> rate_decision \<times> 's) \<Rightarrow> (nat \<times> instant) list \<Rightarrow> 's
    \<Rightarrow> rate_decision list \<times> 's" where
  "run_limiter chk [] s = ([], s)"
| "run_limiter chk ((n, t) # ops) s =
     (case chk n t s of (d, s1) \<Rightarrow> case run_limiter chk ops s1 of (ds, s2) \<Rightarrow> (d # ds, s2))"

abbreviation rl_run :: "(nat \<times> instant) list \<Rightarrow> rate_limiter \<Rightarrow> rate_decision list \<times> rate_limiter" where
  "rl_run \<equiv> run_limiter rl_check_at"

definition allowed_count :: "rate_decision list \<Rightarrow> nat" where
  "allowed_count ds = length (filter is_allowed ds)"

definition admitted :: "'a list \<Rightarrow> rate_decision list \<Rightarrow> 'a list" where
  "admitted ops ds = map fst (filter (\<lambda>(_, d). is_allowed d) (zip ops ds))"

subsection \<open>One bucket per source\<close>

record 'ip per_source_limiter =
  psl_buckets :: "('ip, rate_limiter \<times> instant) hmap"
  psl_max_entries :: nat
  psl_max_pps :: f64
  psl_max_bytes_per_day :: u64

definition psl_new :: "f64 \<Rightarrow> u64 \<Rightarrow> nat \<Rightarrow> 'ip per_source_limiter" where
  "psl_new max_pps max_bytes_per_day max_entries =
     \<lparr>psl_buckets = [], psl_max_entries = max max_entries 1,
      psl_max_pps = max_pps, psl_max_bytes_per_day = max_bytes_per_day\<rparr>"

definition psl_make_room :: "(('ip, rate_limiter \<times> instant) hmap \<Rightarrow> ('ip \<times> rate_limiter \<times> instant) list)
    \<Rightarrow> 'ip \<Rightarrow> 'ip per_source_limiter \<Rightarrow> ('ip, rate_limiter \<times> instant) hmap" where
  "psl_make_room ord src psl =
     (let b = psl_buckets psl in
      if \<not> hm_contains b src \<and> hm_len b \<ge> psl_max_entries psl then
        case min_by_key (\<lambda>(_, (_, seen)). seen) (ord b) of
          Some (victim, _) \<Rightarrow> hm_remove victim b
        | None \<Rightarrow> b
      else b)"

text \<open>
  \<^verbatim>\<open>or_insert_with\<close> constructs a bucket only for a source without one; its constructor's two clock
  readings are the arguments \<open>t1\<close> and \<open>t2\<close>.
\<close>

definition psl_check_at :: "(('ip, rate_limiter \<times> instant) hmap \<Rightarrow> ('ip \<times> rate_limiter \<times> instant) list)
    \<Rightarrow> instant \<Rightarrow> instant \<Rightarrow> 'ip \<Rightarrow> nat \<Rightarrow> instant \<Rightarrow> 'ip per_source_limiter
    \<Rightarrow> rate_decision \<times> 'ip per_source_limiter" where
  "psl_check_at ord t1 t2 src packet_len now psl =
     (let b = psl_make_room ord src psl;
          rl = (case hm_get b src of
                  Some (rl, _) \<Rightarrow> rl
                | None \<Rightarrow> rl_new (psl_max_pps psl) (psl_max_bytes_per_day psl) t1 t2);
          (d, rl') = rl_check_at packet_len now rl in
      (d, psl\<lparr>psl_buckets := hm_insert src (rl', now) b\<rparr>))"

definition tracked :: "'ip per_source_limiter \<Rightarrow> nat" where
  "tracked psl = hm_len (psl_buckets psl)"

subsection \<open>The invariant of a bucket\<close>

definition rl_inv :: "rate_limiter \<Rightarrow> bool" where
  "rl_inv rl \<longleftrightarrow>
     f_ok (rl_burst rl) \<and> f_ok (rl_tokens rl) \<and>
     f_le (Fin 0) (rl_max_pps rl) \<and>
     f_le (Fin 0) (rl_tokens rl) \<and> f_le (rl_tokens rl) (rl_burst rl) \<and>
     (0 < rl_max_bytes_per_day rl \<longrightarrow> rl_bytes_used rl \<le> rl_max_bytes_per_day rl)"

locale limiter =
  fixes chk :: "nat \<Rightarrow> instant \<Rightarrow> 's \<Rightarrow> rate_decision \<times> 's"
    and inv :: "'s \<Rightarrow> bool"
  assumes inv_check: "inv s \<Longrightarrow> inv (snd (chk n t s))"
    and throttle_same: "fst (chk n t s) = Throttled r \<Longrightarrow> snd (chk n t s) = s"
begin

lemma inv_run: "inv s \<Longrightarrow> inv (snd (run_limiter chk ops s))"
proof (induction ops arbitrary: s)
  case (Cons op ops)
  obtain n t where op: "op = (n, t)" by (cases op)
  have "inv (snd (chk n t s))" using Cons.prems by (rule inv_check)
  from Cons.IH [OF this] show ?case by (simp add: op case_prod_beta)
qed simp

text \<open>A run admits what the run of its admitted packets admits.\<close>

lemma run_drops_throttled:
  "run_limiter chk ops s = (ds, s') \<Longrightarrow>
   run_limiter chk (admitted ops ds) s =
     (replicate (allowed_count ds) Allow, s')"
proof (induction ops arbitrary: s ds)
  case Nil
  then show ?case by (auto simp: allowed_count_def admitted_def)
next
  case (Cons op ops)
  obtain n t where op: "op = (n, t)" by (cases op)
  obtain d s1 where d: "chk n t s = (d, s1)" by (cases "chk n t s")
  obtain ds' where ds': "run_limiter chk ops s1 = (ds', s')" "ds = d # ds'"
    using Cons.prems by (auto simp: op d split: prod.splits)
  show ?case
  proof (cases d)
    case Allow
    then show ?thesis
      using Cons.IH [OF ds'(1)] by (simp add: op d ds' is_allowed_def allowed_count_def admitted_def)
  next
    case (Throttled r)
    then have "s1 = s" using throttle_same [of n t s r] d by simp
    with Throttled show ?thesis
      using Cons.IH [OF ds'(1)] by (simp add: op d ds' is_allowed_def allowed_count_def admitted_def)
  qed
qed

end

lemma f_take_one:
  assumes "f_ok t" "f_le (Fin 1) t" "f_le t b"
  shows "f_le (Fin 0) (f_sub t (Fin 1)) \<and> f_le (f_sub t (Fin 1)) b"
proof (cases t)
  case (Fin z)
  with assms obtain w where "f_sub t (Fin 1) = Fin w" "0 \<le> w" "w \<le> z"
    using f_sub_one [of z] by auto
  then show ?thesis using assms Fin f_le_trans [of "Fin w" t b] by simp
qed (use assms in \<open>auto simp: f_sub_def\<close>)

lemma refilled_le: "f_ok (rl_burst rl) \<Longrightarrow> rl_burst rl \<noteq> NaN \<Longrightarrow>
    f_ok (refilled now rl) \<and> f_le (refilled now rl) (rl_burst rl)"
  by (simp add: refilled_def f_min_ok f_add_ok f_min_le)

lemma quota_guard_le:
  "quota_guard now rl = Some (u, w) \<Longrightarrow> 0 < rl_max_bytes_per_day rl \<Longrightarrow>
   sat_add u WIRE_BYTES_PER_PACKET \<le> rl_max_bytes_per_day rl"
  by (auto simp: quota_guard_def Let_def not_less split: if_splits prod.splits)

lemma check_allow:
  assumes "rl_check_at n now rl = (Allow, rl')"
  obtains u w where "quota_guard now rl = Some (u, w)"
    and "f_lt (Fin 0) (rl_max_pps rl) \<Longrightarrow> \<not> f_lt (refilled now rl) (Fin 1)"
    and "rl_max_pps rl' = rl_max_pps rl" "rl_burst rl' = rl_burst rl"
    and "rl_max_bytes_per_day rl' = rl_max_bytes_per_day rl"
    and "rl_tokens rl' = (if f_lt (Fin 0) (rl_max_pps rl) then f_sub (refilled now rl) (Fin 1)
           else rl_tokens rl)"
    and "rl_last_refill rl' = (if f_lt (Fin 0) (rl_max_pps rl) then now else rl_last_refill rl)"
    and "rl_bytes_used rl' = (if 0 < rl_max_bytes_per_day rl
           then sat_add u WIRE_BYTES_PER_PACKET else rl_bytes_used rl)"
    and "rl_window_start rl' = (if 0 < rl_max_bytes_per_day rl then w else rl_window_start rl)"
proof (cases "quota_guard now rl")
  case None
  with assms show thesis by (simp add: rl_check_at_def)
next
  case (Some q)
  then obtain u w where q: "quota_guard now rl = Some (u, w)" by (cases q) auto
  show thesis
  proof (rule that [OF q])
    show "\<not> f_lt (refilled now rl) (Fin 1)" if "f_lt (Fin 0) (rl_max_pps rl)"
      using assms that by (auto simp: rl_check_at_def q split: if_splits)
  qed (use assms in \<open>simp_all add: rl_check_at_def q Let_def split: if_splits\<close>,
       (use assms in \<open>auto simp: rl_check_at_def q Let_def split: if_splits\<close>)?)
qed

lemma check_throttled:
  assumes "rl_check_at n now rl = (Throttled r, rl')"
  shows "rl' = rl"
proof (cases "quota_guard now rl")
  case (Some q)
  with assms show ?thesis by (cases q) (simp add: rl_check_at_def Let_def split: if_splits)
qed (use assms in \<open>simp add: rl_check_at_def\<close>)

lemma rl_inv_allow:
  assumes "rl_inv rl" "rl_check_at n now rl = (Allow, rl')"
  shows "rl_inv rl'"
proof -
  from assms(1) have b: "f_ok (rl_burst rl)" "rl_burst rl \<noteq> NaN" by (auto simp: rl_inv_def)
  note r = refilled_le [OF b, of now]
  have t: "f_le (Fin 1) (refilled now rl)" if "\<not> f_lt (refilled now rl) (Fin 1)"
    using that r f_not_lt [of "refilled now rl" "Fin 1"] by (cases "refilled now rl = NaN") auto
  from check_allow [OF assms(2)] obtain u w where a: "quota_guard now rl = Some (u, w)"
    "f_lt (Fin 0) (rl_max_pps rl) \<Longrightarrow> \<not> f_lt (refilled now rl) (Fin 1)"
    "rl_max_pps rl' = rl_max_pps rl" "rl_burst rl' = rl_burst rl"
    "rl_max_bytes_per_day rl' = rl_max_bytes_per_day rl"
    "rl_tokens rl' = (if f_lt (Fin 0) (rl_max_pps rl) then f_sub (refilled now rl) (Fin 1)
       else rl_tokens rl)"
    "rl_bytes_used rl' = (if 0 < rl_max_bytes_per_day rl
       then sat_add u WIRE_BYTES_PER_PACKET else rl_bytes_used rl)"
    by metis
  show ?thesis
    using assms(1) a r t f_take_one [of "refilled now rl" "rl_burst rl"] quota_guard_le [OF a(1)]
    by (simp add: rl_inv_def f_sub_ok)
qed

interpretation rl: limiter rl_check_at rl_inv
proof unfold_locales
  fix s n t r
  show "rl_inv (snd (rl_check_at n t s))" if "rl_inv s"
    using that by (metis check_throttled prod.collapse rate_decision.exhaust rl_inv_allow)
  show "snd (rl_check_at n t s) = s" if "fst (rl_check_at n t s) = Throttled r"
    using that check_throttled by (cases "rl_check_at n t s") auto
qed

lemma rl_new_inv: "rl_inv (rl_new max_pps mb t1 t2)"
proof -
  have "f_le (Fin 0) (f_max max_pps (Fin 0))" by (cases max_pps) (auto simp: f_max_def)
  moreover have "f_mul p (Fin 2) \<noteq> NaN \<and> f_le (Fin 0) (f_mul p (Fin 2))" if "f_lt (Fin 0) p" for p
    using that f_of_rat_mono [of 0] by (cases p) (auto simp: f_inf_def f_of_rat_0)
  ultimately show ?thesis
    by (simp add: rl_new_def Let_def rl_inv_def f_mul_ok round53_def)
qed

subsection \<open>The daily quota\<close>

lemma quota_guard_cases:
  assumes "quota_guard now rl = Some (u, w)" "0 < rl_max_bytes_per_day rl"
  shows "u = rl_bytes_used rl \<and> w = rl_window_start rl \<or>
    u = 0 \<and> w = now \<and> QUOTA_WINDOW \<le> duration_since now (rl_window_start rl)"
  using assms by (auto simp: quota_guard_def Let_def split: if_splits)

lemma quota_step:
  fixes mb :: u64
  assumes c: "rl_check_at n t rl = (Allow, rl')" and mb: "rl_max_bytes_per_day rl = mb" "0 < mb" "mb < - 1"
    and used: "rl_bytes_used rl \<le> mb" and T: "t \<le> T"
  shows "2064 + unat (rl_bytes_used rl) + unat mb * (nat (T - rl_window_start rl') div QUOTA_WINDOW)
      \<le> unat (rl_bytes_used rl') + unat mb * (nat (T - rl_window_start rl) div QUOTA_WINDOW)"
proof -
  from check_allow [OF c] obtain u w where q: "quota_guard t rl = Some (u, w)"
    and rl': "rl_bytes_used rl' = sat_add u WIRE_BYTES_PER_PACKET" "rl_window_start rl' = w"
    using mb by (metis (full_types))
  have le: "sat_add u WIRE_BYTES_PER_PACKET < - 1"
    using quota_guard_le [OF q] mb by simp
  have "unat (sat_add u WIRE_BYTES_PER_PACKET) < 2 ^ 64 - 1"
    using le by (simp add: word_less_nat_alt unsigned_minus_1_eq_mask mask_eq_exp_minus_1)
  then have sum: "unat (sat_add u WIRE_BYTES_PER_PACKET) = unat u + 2064"
    by (simp add: unat_sat_add WIRE_BYTES_PER_PACKET_def)
  show ?thesis
  proof (cases "u = rl_bytes_used rl \<and> w = rl_window_start rl")
    case True
    with sum show ?thesis by (simp add: rl')
  next
    case False
    with quota_guard_cases [OF q] mb have r: "u = 0" "w = t"
      "QUOTA_WINDOW \<le> duration_since t (rl_window_start rl)" by auto
    have W: "0 < QUOTA_WINDOW" by (simp add: QUOTA_WINDOW_def time_simps)
    have "nat (T - t) + QUOTA_WINDOW \<le> nat (T - rl_window_start rl)"
      using r T W unfolding duration_since_def by linarith
    then have "(nat (T - t) + QUOTA_WINDOW) div QUOTA_WINDOW \<le> nat (T - rl_window_start rl) div QUOTA_WINDOW"
      by (rule div_le_mono)
    then have "Suc (nat (T - t) div QUOTA_WINDOW) \<le> nat (T - rl_window_start rl) div QUOTA_WINDOW"
      using W by simp
    then have "unat mb * Suc (nat (T - t) div QUOTA_WINDOW)
        \<le> unat mb * (nat (T - rl_window_start rl) div QUOTA_WINDOW)" by (rule mult_le_mono2)
    moreover have "unat (rl_bytes_used rl) \<le> unat mb" using used by (simp add: word_le_nat_alt)
    ultimately show ?thesis using r sum by (simp add: rl')
  qed
qed

lemma quota_run:
  fixes mb :: u64
  assumes "rl_inv rl" "rl_max_bytes_per_day rl = mb" "0 < mb" "mb < - 1"
    and "\<forall>op\<in>set ops. snd op \<le> T"
  shows "allowed_count (fst (rl_run ops rl)) * 2064 + unat (rl_bytes_used rl)
    \<le> unat mb * (1 + nat (T - rl_window_start rl) div QUOTA_WINDOW)"
  using assms
proof (induction ops arbitrary: rl)
  case Nil
  then have "unat (rl_bytes_used rl) \<le> unat mb" by (simp add: rl_inv_def word_le_nat_alt)
  then show ?case by (simp add: allowed_count_def)
next
  case (Cons op ops)
  obtain n t where op: "op = (n, t)" by (cases op)
  obtain d rl' where d: "rl_check_at n t rl = (d, rl')" by (cases "rl_check_at n t rl")
  have inv: "rl_inv rl'" using rl.inv_check [of rl n t] Cons.prems d by simp
  show ?case
  proof (cases d)
    case Allow
    with d have c: "rl_check_at n t rl = (Allow, rl')" by simp
    from check_allow [OF c] have mb': "rl_max_bytes_per_day rl' = mb" using Cons.prems by metis
    have "rl_bytes_used rl \<le> mb" using Cons.prems by (simp add: rl_inv_def)
    from quota_step [OF c Cons.prems(2-4) this, of T] Cons.prems
    have "2064 + unat (rl_bytes_used rl) + unat mb * (nat (T - rl_window_start rl') div QUOTA_WINDOW)
      \<le> unat (rl_bytes_used rl') + unat mb * (nat (T - rl_window_start rl) div QUOTA_WINDOW)"
      by (simp add: op)
    with Cons.IH [OF inv mb' Cons.prems(3,4)] Cons.prems(5) Allow show ?thesis
      by (simp add: op d allowed_count_def is_allowed_def case_prod_beta)
  next
    case (Throttled r)
    with d check_throttled have "rl' = rl" by blast
    with Cons.IH [OF Cons.prems(1-4)] Cons.prems(5) Throttled show ?thesis
      by (simp add: op d allowed_count_def is_allowed_def case_prod_beta)
  qed
qed

subsection \<open>The token bucket\<close>

text \<open>
  The slack of one admission: what the roundings of one refill can add to the tokens of a bucket
  of capacity \<open>b\<close>.
\<close>

definition slack :: "rat \<Rightarrow> rat" where
  "slack b = (b + 1) / 2 ^ 49"

lemma refill_bound:
  assumes "0 \<le> x" "0 < p" "0 \<le> s" "x + p * s \<le> b" "p \<le> b"
    and "e \<le> s * (1 + 4 * eps53) + 5 * eta53"
  shows "widen (x + widen (e * p)) \<le> x + p * s + 9 * (eps53 * (b + 1))"
proof -
  let ?q = "p * s" and ?y = "x + p * s"
  have q: "0 \<le> ?q" using assms by simp
  have "e * p \<le> (s * (1 + 4 * eps53) + 5 * eta53) * p"
    using assms by (intro mult_right_mono) simp_all
  also have "\<dots> = ?q * (1 + 4 * eps53) + 5 * eta53 * p" by (simp add: algebra_simps)
  finally have "widen (e * p) \<le> ?q * (1 + 6 * eps53) + (2 * (5 * eta53 * p) + eta53)"
    using widen_step [of ?q "5 * eta53 * p" 4 "e * p"] q assms(2)
    by (simp add: eps53_def order_less_imp_le)
  moreover have "x \<le> x * (1 + 6 * eps53)"
    using assms by (simp add: algebra_simps order_less_imp_le)
  ultimately have "x + widen (e * p) \<le> ?y * (1 + 6 * eps53) + (10 * eta53 * p + eta53)"
    by (simp add: algebra_simps)
  from widen_step [OF _ _ _ _ this]
  have "widen (x + widen (e * p)) \<le> ?y * (1 + 8 * eps53) + (20 * eta53 * p + 3 * eta53)"
    using assms q by (simp add: eps53_def order_less_imp_le)
  also have "\<dots> = ?y + 8 * eps53 * ?y + (20 * eta53 * p + 3 * eta53)" by (simp add: algebra_simps)
  also have "8 * eps53 * ?y \<le> 8 * eps53 * b" using assms by (intro mult_left_mono) simp_all
  also have "20 * eta53 * p + 3 * eta53 \<le> eps53 * p + eps53"
    using assms by (intro add_mono mult_right_mono) (simp_all add: eps53_def eta53_def)
  also have "eps53 * p \<le> eps53 * b" using assms by (intro mult_left_mono) simp_all
  finally have "widen (x + widen (e * p)) \<le> ?y + 8 * (eps53 * b) + (eps53 * b + eps53)" by simp
  also have "\<dots> = ?y + 9 * (eps53 * (b + 1)) - 8 * eps53" by (simp add: algebra_simps)
  finally show ?thesis using eps53_nonneg by linarith
qed

lemma slack_eq: "slack b = 16 * (eps53 * (b + 1))"
  by (simp add: slack_def eps53_def)

lemma admit_bound:
  assumes z: "1 \<le> z" "z \<le> b" "z \<le> y + 9 * (eps53 * (b + 1))" and w: "w \<le> widen (z - 1)"
  shows "w + 1 \<le> y + slack b"
proof -
  have "widen (z - 1) = z - 1 + eps53 * (z - 1) + eta53" by (simp add: widen_def algebra_simps)
  also have "eps53 * (z - 1) \<le> eps53 * b" using z by (intro mult_left_mono) simp_all
  also have "eta53 \<le> eps53" by (simp add: eps53_def eta53_def)
  finally have "widen (z - 1) \<le> z - 1 + eps53 * (b + 1)" by (simp add: algebra_simps)
  moreover have "0 \<le> eps53 * (b + 1)" using z by simp
  ultimately show ?thesis using z w unfolding slack_eq by linarith
qed

text \<open>A bucket with a finite rate, and what one admission does to its tokens.\<close>

definition rl_finite :: "rat \<Rightarrow> rate_limiter \<Rightarrow> bool" where
  "rl_finite p rl \<longleftrightarrow> 0 < p \<and> 2 * p < 2 ^ 1024 \<and> f_ok (Fin (2 * p)) \<and>
     rl_max_pps rl = Fin p \<and> rl_burst rl = Fin (2 * p) \<and>
     (\<exists>x. rl_tokens rl = Fin x \<and> 0 \<le> x \<and> x \<le> 2 * p)"

lemma rl_new_finite:
  assumes "f_ok (Fin p)" "0 < p" "2 * p < 2 ^ 1024"
  shows "rl_finite p (rl_new (Fin p) mb t1 t2)" and "rl_tokens (rl_new (Fin p) mb t1 t2) = Fin (2 * p)"
proof -
  note d = f_double [OF assms]
  have "f_ok (f_mul (Fin p) (Fin 2))" by (rule f_mul_ok)
  then have ok: "f_ok (Fin (2 * p))" unfolding d .
  show "rl_tokens (rl_new (Fin p) mb t1 t2) = Fin (2 * p)"
    using assms d by (simp add: rl_new_def Let_def f_max_def del: f_mul.simps)
  then show "rl_finite p (rl_new (Fin p) mb t1 t2)"
    using assms d ok by (simp add: rl_new_def Let_def f_max_def rl_finite_def del: f_mul.simps f_ok.simps)
qed

lemma token_step:
  assumes fin: "rl_finite p rl" and c: "rl_check_at n t rl = (Allow, rl')"
    and d: "duration_since t (rl_last_refill rl) < 2 ^ 64 * nanos_per_sec"
    and x: "rl_tokens rl = Fin x"
  obtains w where "rl_finite p rl'" "rl_tokens rl' = Fin w" "rl_last_refill rl' = t"
    "w + 1 \<le> x + p * secs_of (duration_since t (rl_last_refill rl)) + slack (2 * p)"
proof -
  let ?s = "secs_of (duration_since t (rl_last_refill rl))" and ?b = "2 * p"
  have p: "0 < p" "?b < 2 ^ 1024" "f_ok (Fin ?b)" "rl_max_pps rl = Fin p" "rl_burst rl = Fin ?b"
    "0 \<le> x" "x \<le> ?b" using fin x by (auto simp: rl_finite_def)
  have s: "0 \<le> ?s" by (simp add: secs_of_def)
  obtain e where e: "as_secs_f64 (duration_since t (rl_last_refill rl)) = Fin e" "0 \<le> e"
    "e \<le> ?s * (1 + 4 * eps53) + 5 * eta53" using as_secs_f64_finite [OF d] by blast
  have "f_ub (f_mul (Fin e) (Fin p)) (widen (e * p))" using e p by (intro f_ub_mul) simp_all
  moreover have "f_ub (Fin x) x" using p by (simp add: f_ub_def)
  ultimately have "f_ub (f_add (Fin x) (f_mul (Fin e) (Fin p))) (widen (x + widen (e * p)))"
    by (intro f_ub_add)
  then obtain z where z: "refilled t rl = Fin z" "0 \<le> z" "z \<le> ?b" "z \<le> widen (x + widen (e * p))"
    using f_min_ub [of _ _ ?b] p unfolding refilled_def x e(1) p(4,5) by (metis order_less_imp_le mult_pos_pos zero_less_numeral)
  have zy: "z \<le> x + p * ?s + 9 * (eps53 * (?b + 1))"
  proof (cases "x + p * ?s \<le> ?b")
    case True
    with refill_bound [of x p ?s ?b e] z e p s show ?thesis by linarith
  next
    case False
    moreover have "0 \<le> 9 * (eps53 * (?b + 1))" using p by simp
    ultimately show ?thesis using z by linarith
  qed
  have ok: "f_ok (Fin z)" using refilled_le [of rl t] z p by simp
  from check_allow [OF c] have r: "\<not> f_lt (refilled t rl) (Fin 1)"
    "rl_max_pps rl' = Fin p" "rl_burst rl' = Fin ?b"
    "rl_tokens rl' = f_sub (refilled t rl) (Fin 1)" "rl_last_refill rl' = t"
    using p by (simp_all add: f_lt.simps) 
  then have "1 \<le> z" using z by simp
  with f_sub_one [OF ok] obtain w where w: "rl_tokens rl' = Fin w" "0 \<le> w" "w \<le> z" "w \<le> widen (z - 1)"
    using r z by metis
  have "rl_finite p rl'" using w z r p by (auto simp: rl_finite_def)
  with admit_bound [OF \<open>1 \<le> z\<close> z(3) zy w(4)] w r that show thesis by blast
qed

lemma secs_of_add: "secs_of (a + b) = secs_of a + secs_of b"
  by (simp add: secs_of_def add_divide_distrib)

lemma bucket_run:
  assumes "rl_finite p rl" "rl_tokens rl = Fin x"
    and "sorted (rl_last_refill rl # map snd ops)" "\<forall>op\<in>set ops. snd op \<le> T" "rl_last_refill rl \<le> T"
    and "nat (T - rl_last_refill rl) < 2 ^ 64 * nanos_per_sec"
  shows "of_nat (allowed_count (fst (rl_run ops rl))) * (1 - slack (2 * p))
    \<le> x + p * secs_of (nat (T - rl_last_refill rl))"
  using assms
proof (induction ops arbitrary: rl x)
  case Nil
  then show ?case by (auto simp: allowed_count_def rl_finite_def secs_of_def)
next
  case (Cons op ops)
  obtain n t where op: "op = (n, t)" by (cases op)
  let ?l = "rl_last_refill rl"
  have t: "?l \<le> t" "t \<le> T" using Cons.prems by (simp_all add: op)
  then have dle: "duration_since t ?l \<le> nat (T - ?l)" by (simp add: duration_since_def)
  obtain d rl' where d: "rl_check_at n t rl = (d, rl')" by (cases "rl_check_at n t rl")
  show ?case
  proof (cases d)
    case Allow
    with d have c: "rl_check_at n t rl = (Allow, rl')" by simp
    obtain w where w: "rl_finite p rl'" "rl_tokens rl' = Fin w" "rl_last_refill rl' = t"
      "w + 1 \<le> x + p * secs_of (duration_since t ?l) + slack (2 * p)"
      using token_step [OF Cons.prems(1) c _ Cons.prems(2)] dle Cons.prems(6) by (metis order_le_less_trans)
    have "of_nat (allowed_count (fst (rl_run ops rl'))) * (1 - slack (2 * p)) \<le> w + p * secs_of (nat (T - t))"
      using Cons.IH [OF w(1,2)] Cons.prems t w(3) by (simp add: op)
    moreover have "nat (T - ?l) = duration_since t ?l + nat (T - t)"
      using t by (simp add: duration_since_def)
    then have "p * secs_of (nat (T - ?l)) = p * secs_of (duration_since t ?l) + p * secs_of (nat (T - t))"
      by (simp add: secs_of_add algebra_simps)
    ultimately show ?thesis
      using w(4) Allow by (simp add: op d allowed_count_def is_allowed_def case_prod_beta algebra_simps)
  next
    case (Throttled r)
    with d check_throttled have "rl' = rl" by blast
    with Cons.IH [OF Cons.prems(1,2)] Cons.prems Throttled show ?thesis
      by (simp add: op d allowed_count_def is_allowed_def case_prod_beta)
  qed
qed

subsection \<open>Bursts and refills\<close>

lemma Fin_0_simps: "as_secs_f64 0 = Fin 0"
  by (simp add: as_secs_f64_def time_simps f_of_nat_exact f_of_rat_0)

lemma nat_bucket_step:
  assumes "rl_max_pps rl = Fin (of_nat n)" "rl_burst rl = Fin (of_nat (2 * n))" "0 < n"
    and "rl_max_bytes_per_day rl = 0" "rl_last_refill rl = t" "rl_tokens rl = Fin (of_nat k)"
    and "k \<le> 2 * n" "n \<le> 2 ^ 51"
  shows "rl_check_at len t rl =
    (if k = 0 then (Throttled Rate, rl) else (Allow, rl\<lparr>rl_tokens := Fin (of_nat (k - 1)), rl_last_refill := t\<rparr>))"
proof -
  have "(of_nat k :: rat) \<le> of_nat (2 * n)" using assms by (simp only: of_nat_le_iff)
  then have r: "refilled t rl = Fin (of_nat k)"
    using assms f_of_nat_exact [of k]
    by (simp add: refilled_def Fin_0_simps f_of_rat_0 f_of_nat_def f_min_def)
  have q: "quota_guard t rl = Some (rl_bytes_used rl, rl_window_start rl)"
    using assms by (simp add: quota_guard_def)
  show ?thesis
  proof (cases k)
    case (Suc j)
    then have "f_sub (Fin (of_nat k)) (Fin 1) = Fin (of_nat j)"
      using f_of_nat_exact [of j] assms by (simp add: f_sub_def f_of_nat_def)
    with Suc r q assms show ?thesis by (simp add: rl_check_at_def)
  qed (use r q assms in \<open>simp add: rl_check_at_def\<close>)
qed

lemma nat_bucket_run:
  assumes "rl_max_pps rl = Fin (of_nat n)" "rl_burst rl = Fin (of_nat (2 * n))" "0 < n"
    and "rl_max_bytes_per_day rl = 0" "rl_last_refill rl = t" "rl_tokens rl = Fin (of_nat k)"
    and "k \<le> 2 * n" "n \<le> 2 ^ 51"
  shows "fst (rl_run (map (\<lambda>len. (len, t)) lens) rl) =
    replicate (min k (length lens)) Allow @ replicate (length lens - k) (Throttled Rate)"
  using assms
proof (induction lens arbitrary: rl k)
  case (Cons len lens)
  note step = nat_bucket_step [OF Cons.prems, of len]
  show ?case
  proof (cases k)
    case 0
    then show ?thesis using Cons.IH [OF Cons.prems] by (simp add: step case_prod_beta)
  next
    case (Suc j)
    let ?rl = "rl\<lparr>rl_tokens := Fin (of_nat j), rl_last_refill := t\<rparr>"
    have "fst (rl_run (map (\<lambda>len. (len, t)) lens) ?rl) =
      replicate (min j (length lens)) Allow @ replicate (length lens - j) (Throttled Rate)"
      by (rule Cons.IH) (use Cons.prems Suc in simp_all)
    then show ?thesis using Suc by (simp add: step case_prod_beta)
  qed
qed simp

lemma run_config:
  "rl_max_pps (snd (rl_run ops rl)) = rl_max_pps rl \<and> rl_burst (snd (rl_run ops rl)) = rl_burst rl \<and>
   rl_max_bytes_per_day (snd (rl_run ops rl)) = rl_max_bytes_per_day rl"
proof (induction ops arbitrary: rl)
  case (Cons op ops)
  obtain n t where op: "op = (n, t)" by (cases op)
  obtain d rl' where d: "rl_check_at n t rl = (d, rl')" by (cases "rl_check_at n t rl")
  have "rl_max_pps rl' = rl_max_pps rl \<and> rl_burst rl' = rl_burst rl \<and>
      rl_max_bytes_per_day rl' = rl_max_bytes_per_day rl"
  proof (cases d)
    case Allow
    with check_allow [of n t rl rl'] d show ?thesis by metis
  next
    case (Throttled r)
    with check_throttled d show ?thesis by blast
  qed
  with Cons.IH [of rl'] show ?case by (simp add: op d case_prod_beta)
qed simp

lemma refill_allows:
  assumes "rl_inv rl" "f_le (Fin 1) (rl_max_pps rl)" "f_le (Fin 1) (rl_burst rl)"
    and "rl_max_bytes_per_day rl = 0" "rl_last_refill rl + int (from_secs 1) \<le> now"
  shows "fst (rl_check_at n now rl) = Allow"
proof -
  have "from_secs 1 \<le> duration_since now (rl_last_refill rl)"
    using assms(5) by (simp add: duration_since_def)
  then have "f_le (Fin 1) (f_add (rl_tokens rl)
      (f_mul (as_secs_f64 (duration_since now (rl_last_refill rl))) (rl_max_pps rl)))"
    using assms by (intro f_one_add f_one_mul as_secs_f64_one) (simp_all add: rl_inv_def)
  then have "f_le (Fin 1) (refilled now rl)"
    using assms(3) by (simp add: refilled_def f_min_def)
  then have "\<not> f_lt (refilled now rl) (Fin 1)"
    by (cases "refilled now rl") auto
  then show ?thesis
    using assms(4) by (simp add: rl_check_at_def quota_guard_def Let_def)
qed

subsection \<open>The table of sources\<close>

text \<open>
  One check: the order in which the table is iterated, the two clock readings of the constructor,
  the source, the packet length and the instant.
\<close>

type_synonym 'ip psl_op =
  "(('ip, rate_limiter \<times> instant) hmap \<Rightarrow> ('ip \<times> rate_limiter \<times> instant) list)
    \<times> instant \<times> instant \<times> 'ip \<times> nat \<times> instant"

fun psl_run :: "'ip psl_op list \<Rightarrow> 'ip per_source_limiter \<Rightarrow> 'ip per_source_limiter" where
  "psl_run [] psl = psl"
| "psl_run ((ord, t1, t2, src, len, now) # ops) psl =
     psl_run ops (snd (psl_check_at ord t1 t2 src len now psl))"

definition psl_inv :: "'ip per_source_limiter \<Rightarrow> bool" where
  "psl_inv psl \<longleftrightarrow>
     hm_wf (psl_buckets psl) \<and> hm_len (psl_buckets psl) \<le> psl_max_entries psl \<and>
     1 \<le> psl_max_entries psl \<and>
     (\<forall>src rl seen. hm_get (psl_buckets psl) src = Some (rl, seen) \<longrightarrow> rl_inv rl)"

text \<open>What making room does: nothing, or remove one source that was seen least recently.\<close>

lemma psl_make_room_cases:
  assumes "iterates ord" "psl_inv psl"
  shows "psl_make_room ord src psl = psl_buckets psl \<and>
      (hm_contains (psl_buckets psl) src \<or> hm_len (psl_buckets psl) < psl_max_entries psl) \<or>
    (\<exists>victim rl seen. psl_make_room ord src psl = hm_remove victim (psl_buckets psl) \<and>
       \<not> hm_contains (psl_buckets psl) src \<and> psl_max_entries psl \<le> hm_len (psl_buckets psl) \<and>
       hm_get (psl_buckets psl) victim = Some (rl, seen) \<and>
       (\<forall>other rl' seen'. hm_get (psl_buckets psl) other = Some (rl', seen') \<longrightarrow> seen \<le> seen'))"
proof (cases "\<not> hm_contains (psl_buckets psl) src \<and> hm_len (psl_buckets psl) \<ge> psl_max_entries psl")
  case True
  let ?b = "psl_buckets psl" and ?key = "\<lambda>(_, (_, seen)). seen"
  have wf: "hm_wf ?b" and ne: "?b \<noteq> []" using assms(2) True by (auto simp: psl_inv_def)
  have set: "set (ord ?b) = set ?b" using assms(1) by (simp add: iterates_def)
  with ne have "ord ?b \<noteq> []" by (metis set_empty)
  then obtain m where m: "min_by_key ?key (ord ?b) = Some m"
    by (cases "min_by_key ?key (ord ?b)") (simp_all del: not_None_eq)
  obtain victim rl seen where mv: "m = (victim, rl, seen)" by (cases m) auto
  note least = min_by_key_least [OF m]
  have get: "hm_get ?b k = Some v \<longleftrightarrow> (k, v) \<in> set ?b" for k v
    using wf by (simp add: hm_get_def hm_wf_def)
  have "hm_get ?b victim = Some (rl, seen)" using least mv get set by simp
  moreover have "\<forall>other rl' seen'. hm_get ?b other = Some (rl', seen') \<longrightarrow> seen \<le> seen'"
    using least mv get set by fastforce
  moreover have "psl_make_room ord src psl = hm_remove victim ?b"
    using True m mv by (simp add: psl_make_room_def)
  ultimately show ?thesis using True by blast
qed (auto simp: psl_make_room_def)

text \<open>The bucket a source is checked against: its own, or a new one.\<close>

definition bucket_of :: "instant \<Rightarrow> instant \<Rightarrow> 'ip per_source_limiter \<Rightarrow> 'ip \<Rightarrow> rate_limiter" where
  "bucket_of t1 t2 psl src =
     (case hm_get (psl_buckets psl) src of
        Some (rl, _) \<Rightarrow> rl
      | None \<Rightarrow> rl_new (psl_max_pps psl) (psl_max_bytes_per_day psl) t1 t2)"

lemma bucket_of_inv: "psl_inv psl \<Longrightarrow> rl_inv (bucket_of t1 t2 psl src)"
  by (auto simp: bucket_of_def psl_inv_def rl_new_inv split: option.splits)

lemma make_room_ok:
  assumes "iterates ord" "psl_inv psl" and b: "b = psl_make_room ord src psl"
  shows "hm_wf b \<and> hm_get b src = hm_get (psl_buckets psl) src \<and>
    hm_len (hm_insert src v b) \<le> psl_max_entries psl \<and>
    (\<forall>other w. hm_get b other = Some w \<longrightarrow> hm_get (psl_buckets psl) other = Some w)"
proof -
  let ?b = "psl_buckets psl"
  have wf: "hm_wf ?b" and le: "hm_len ?b \<le> psl_max_entries psl" and one: "1 \<le> psl_max_entries psl"
    using assms(2) by (simp_all add: psl_inv_def)
  consider (same) "b = ?b" "hm_contains ?b src \<or> hm_len ?b < psl_max_entries psl"
    | (evict) victim rl seen where "b = hm_remove victim ?b" "\<not> hm_contains ?b src"
        "hm_get ?b victim = Some (rl, seen)"
    using psl_make_room_cases [OF assms(1,2), of src] unfolding b by blast
  then show ?thesis
  proof cases
    case same
    have "hm_len (hm_insert src v b) \<le> psl_max_entries psl"
      using same hm.size_insert_le [OF wf, of src v] hm.size_insert_old [OF wf, of src _ v] le
      by (auto simp: hm_contains_def hm_get_def)
    with same wf show ?thesis by simp
  next
    case evict
    have wfb: "hm_wf b" using evict wf by (simp add: hm.wf_remove)
    from hm.size_insert_le [OF this, of src v] have "hm_len (hm_insert src v b) \<le> psl_max_entries psl"
      using hm.size_remove_old [OF wf evict(3)] evict le one by simp
    moreover have "hm_get b = (hm_get ?b)(victim := None)"
      using evict wf by (simp add: hm.lookup_remove)
    ultimately show ?thesis using evict wfb by (auto simp: hm_contains_def hm_get_def)
  qed
qed

lemmas make_room_facts = make_room_ok [OF _ _ refl, THEN conjunct1]
  make_room_ok [OF _ _ refl, THEN conjunct2, THEN conjunct1]
  make_room_ok [OF _ _ refl, THEN conjunct2, THEN conjunct2, THEN conjunct1]
  make_room_ok [OF _ _ refl, THEN conjunct2, THEN conjunct2, THEN conjunct2, rule_format]

lemma psl_check_unfold:
  assumes "iterates ord" "psl_inv psl"
  shows "psl_check_at ord t1 t2 src len now psl =
    (fst (rl_check_at len now (bucket_of t1 t2 psl src)),
     psl\<lparr>psl_buckets := hm_insert src (snd (rl_check_at len now (bucket_of t1 t2 psl src)), now)
       (psl_make_room ord src psl)\<rparr>)"
  using make_room_facts(2) [OF assms, of src]
  by (simp add: psl_check_at_def bucket_of_def Let_def case_prod_beta)

lemma psl_inv_check:
  assumes "iterates ord" "psl_inv psl"
  shows "psl_inv (snd (psl_check_at ord t1 t2 src len now psl))"
proof -
  note m = make_room_facts [OF assms, of src]
  have "rl_inv (snd (rl_check_at len now (bucket_of t1 t2 psl src)))"
    using rl.inv_check bucket_of_inv [OF assms(2)] by blast
  with m assms(2) show ?thesis
    unfolding psl_check_unfold [OF assms]
    by (auto simp: psl_inv_def hm.wf_insert hm.lookup_insert split: if_splits) blast
qed

lemma psl_new_inv: "psl_inv (psl_new p mb n)"
  by (simp add: psl_inv_def psl_new_def)

lemma psl_run_inv:
  "\<forall>op\<in>set ops. iterates (fst op) \<Longrightarrow> psl_inv psl \<Longrightarrow>
   psl_inv (psl_run ops psl) \<and> psl_max_entries (psl_run ops psl) = psl_max_entries psl"
proof (induction ops psl rule: psl_run.induct)
  case (2 ord t1 t2 src len now ops psl)
  then have "psl_inv (snd (psl_check_at ord t1 t2 src len now psl))"
    by (simp add: psl_inv_check)
  moreover have "psl_max_entries (snd (psl_check_at ord t1 t2 src len now psl)) = psl_max_entries psl"
    using 2 by (simp add: psl_check_unfold)
  ultimately show ?case using 2 by simp
qed simp

subsection \<open>Properties\<close>

text \<open>C17. The long-run rate of the token bucket: over any history of packets offered at
  non-decreasing instants between the creation of the limiter and \<open>T\<close>, whatever the quota does,
  the number of packets admitted is at most \<open>p\<close> packets per second on top of a burst of two
  seconds' worth, up to the relative rounding error \<open>slack\<close> per admission of the double arithmetic
  (below one in a million for rates up to \<open>2 ^ 28\<close> packets per second).\<close>

theorem bucket_rate_bound:
  assumes "f_ok (Fin p)" "0 < p" "2 * p < 2 ^ 1024"
    and "sorted (start # map snd ops)" "\<forall>op\<in>set ops. snd op \<le> T" "start \<le> T"
    and "nat (T - start) < 2 ^ 64 * nanos_per_sec"
  shows "of_nat (allowed_count (fst (rl_run ops (rl_new (Fin p) mb start tw)))) * (1 - slack (2 * p))
    \<le> p * (2 + secs_of (nat (T - start)))"
proof -
  let ?rl = "rl_new (Fin p) mb start tw"
  have "rl_last_refill ?rl = start" by (simp add: rl_new_def Let_def)
  with bucket_run [OF rl_new_finite [OF assms(1-3)], of mb start tw ops T] assms(4-7)
  show ?thesis by (simp add: algebra_simps)
qed

theorem bucket_rate_bound_witness:
  "of_nat (allowed_count (fst (rl_run [(2048, 0), (2048, 0), (2048, 5)] (rl_new (Fin 1) 0 0 0)))) * (1 - slack (2 * 1))
    \<le> 1 * (2 + secs_of (nat (5 - 0)))"
  by (rule bucket_rate_bound) (simp_all add: nanos_per_sec_def round53_int [of 1, simplified])

text \<open>The burst: at the instant a limiter of \<open>n\<close> packets per second is created, exactly the
  first \<open>2 * n\<close> packets are admitted and every later one is throttled for its rate.\<close>

lemma burst_exact:
  assumes "0 < n" "n \<le> 2 ^ 51"
  shows "fst (rl_run (map (\<lambda>len. (len, t)) lens) (rl_new (f_of_nat n) 0 t tw)) =
    replicate (min (2 * n) (length lens)) Allow @ replicate (length lens - 2 * n) (Throttled Rate)"
proof -
  have n: "f_of_nat n = Fin (of_nat n)" using assms by (simp add: f_of_nat_exact)
  have "f_mul (Fin (of_nat n)) (Fin 2) = Fin (of_nat (2 * n))"
    using f_of_nat_exact [of "2 * n"] assms by (simp add: f_of_nat_def mult.commute)
  then show ?thesis
    using assms unfolding n by (intro nat_bucket_run) (simp_all add: rl_new_def Let_def f_max_def del: f_mul.simps)
qed



text \<open>The daily quota: over any history whose instants do not exceed \<open>T\<close>, the admitted packets,
  counted at their size on the wire, use at most the daily budget once for the first window and
  once for each further full window of 24 hours; the bytes in use never exceed the budget. (The
  largest budget \<open>u64::MAX\<close> means no limit, because the counter saturates there.)\<close>

lemma quota_bound:
  fixes max_bytes :: u64
  assumes "0 < max_bytes" "max_bytes < - 1" "\<forall>op\<in>set ops. snd op \<le> T"
  shows "allowed_count (fst (rl_run ops (rl_new max_pps max_bytes tr tw))) * unat WIRE_BYTES_PER_PACKET
      \<le> unat max_bytes * (1 + nat (T - tw) div QUOTA_WINDOW) \<and>
    bytes_used_today (snd (rl_run ops (rl_new max_pps max_bytes tr tw))) \<le> max_bytes"
proof -
  let ?rl = "rl_new max_pps max_bytes tr tw"
  have new: "rl_max_bytes_per_day ?rl = max_bytes" "rl_bytes_used ?rl = 0" "rl_window_start ?rl = tw"
    by (simp_all add: rl_new_def Let_def)
  have "rl_inv (snd (rl_run ops ?rl))" by (rule rl.inv_run [OF rl_new_inv])
  with assms(1) run_config [of ops ?rl] new have "bytes_used_today (snd (rl_run ops ?rl)) \<le> max_bytes"
    by (simp add: rl_inv_def bytes_used_today_def)
  with quota_run [OF rl_new_inv new(1) assms] new show ?thesis
    by (simp add: WIRE_BYTES_PER_PACKET_def)
qed

text \<open>After every history the bucket is well formed (tokens between zero and the burst, bytes
  within the budget), and a throttled packet has left no trace: the admitted packets alone are all
  admitted and lead to the same state.\<close>

lemma throttling_leaves_no_trace:
  "rl_inv (snd (rl_run ops (rl_new max_pps max_bytes tr tw))) \<and>
   rl_run (admitted ops (fst (rl_run ops (rl_new max_pps max_bytes tr tw)))) (rl_new max_pps max_bytes tr tw) =
     (replicate (allowed_count (fst (rl_run ops (rl_new max_pps max_bytes tr tw)))) Allow,
      snd (rl_run ops (rl_new max_pps max_bytes tr tw)))"
  using rl.inv_run [OF rl_new_inv] by (intro conjI rl.run_drops_throttled) simp_all

text \<open>The unlimited limiter admits every packet at any instant and never changes.\<close>

lemma unlimited_never_throttles:
  "rl_is_unlimited (rl_unlimited tr tw) \<and>
   rl_run ops (rl_unlimited tr tw) = (replicate (length ops) Allow, rl_unlimited tr tw)"
proof -
  have "rl_check_at n t (rl_unlimited tr tw) = (Allow, rl_unlimited tr tw)" for n t
    by (simp add: rl_unlimited_def rl_new_def Let_def f_max_def rl_check_at_def quota_guard_def)
  then have "rl_run ops (rl_unlimited tr tw) = (replicate (length ops) Allow, rl_unlimited tr tw)"
    by (induction ops) auto
  then show ?thesis
    by (simp add: rl_is_unlimited_def rl_unlimited_def rl_new_def Let_def f_max_def f_eq_def)
qed

text \<open>The table of sources never holds more than its bound, whatever the sources, the instants
  and the iteration order of the map, and every bucket in it is well formed.\<close>

lemma sources_bounded:
  assumes "\<forall>op\<in>set ops. iterates (fst op)"
  shows "tracked (psl_run ops (psl_new max_pps max_bytes max_entries)) \<le> max max_entries 1 \<and>
    psl_inv (psl_run ops (psl_new max_pps max_bytes max_entries))"
proof -
  let ?psl = "psl_run ops (psl_new max_pps max_bytes max_entries)"
  have "psl_inv ?psl \<and> psl_max_entries ?psl = max max_entries 1"
    using psl_run_inv [OF assms psl_new_inv, of max_pps max_bytes max_entries]
    by (simp add: psl_new_def)
  then show ?thesis by (auto simp: tracked_def psl_inv_def)
qed

definition two_sources :: "nat per_source_limiter" where
  "two_sources =
     \<lparr>psl_buckets = [(1, rl_new (Fin 10) 0 0 0, 3), (2, rl_new (Fin 10) 0 0 0, 9)],
      psl_max_entries = 2, psl_max_pps = Fin 10, psl_max_bytes_per_day = 0\<rparr>"

definition longest_idle :: "'ip per_source_limiter \<Rightarrow> 'ip \<Rightarrow> bool" where
  "longest_idle psl ip =
     (case hm_get (psl_buckets psl) ip of
        None \<Rightarrow> False
      | Some (_, seen) \<Rightarrow> list_all (\<lambda>(_, (_, seen')). seen \<le> seen') (psl_buckets psl))"

lemma longest_idleI:
  assumes "hm_wf (psl_buckets psl)" "hm_get (psl_buckets psl) ip = Some (rl, seen)"
    and "\<forall>other rl' seen'. hm_get (psl_buckets psl) other = Some (rl', seen') \<longrightarrow> seen \<le> seen'"
  shows "longest_idle psl ip"
proof -
  have "seen \<le> seen'" if "(other, rl', seen') \<in> set (psl_buckets psl)" for other rl' seen'
    using assms that by (simp add: hm_get_def hm_wf_def)
  then show ?thesis using assms(2) by (auto simp: longest_idle_def list_all_iff)
qed

text \<open>Sources do not pay for each other: a packet of \<open>src\<close> is decided by the bucket of \<open>src\<close>
  alone, and every other source keeps its bucket, or is evicted; it is evicted only when the table
  is full and \<open>src\<close> is new, and only if no tracked source has been idle for longer.\<close>

lemma source_isolation:
  assumes "iterates ord" "psl_inv psl" "other \<noteq> src"
  shows "fst (psl_check_at ord t1 t2 src len now psl) = fst (rl_check_at len now (bucket_of t1 t2 psl src)) \<and>
    (hm_get (psl_buckets (snd (psl_check_at ord t1 t2 src len now psl))) other = hm_get (psl_buckets psl) other \<or>
     hm_get (psl_buckets (snd (psl_check_at ord t1 t2 src len now psl))) other = None \<and>
     \<not> hm_contains (psl_buckets psl) src \<and> psl_max_entries psl \<le> tracked psl \<and>
     longest_idle psl other)"
proof -
  let ?b = "psl_buckets psl"
  have wf: "hm_wf ?b" using assms(2) by (simp add: psl_inv_def)
  have get: "hm_get (psl_buckets (snd (psl_check_at ord t1 t2 src len now psl))) other
      = hm_get (psl_make_room ord src psl) other"
    using assms(3) make_room_facts(1) [OF assms(1,2)]
    by (simp add: psl_check_unfold [OF assms(1,2)] hm.lookup_insert)
  from psl_make_room_cases [OF assms(1,2), of src] show ?thesis
  proof
    assume "psl_make_room ord src psl = ?b \<and>
      (hm_contains ?b src \<or> hm_len ?b < psl_max_entries psl)"
    then show ?thesis using get by (simp add: psl_check_unfold [OF assms(1,2)])
  next
    assume "\<exists>victim rl seen. psl_make_room ord src psl = hm_remove victim ?b \<and>
       \<not> hm_contains ?b src \<and> psl_max_entries psl \<le> hm_len ?b \<and>
       hm_get ?b victim = Some (rl, seen) \<and>
       (\<forall>other rl' seen'. hm_get ?b other = Some (rl', seen') \<longrightarrow> seen \<le> seen')"
    then obtain victim rl seen where v: "psl_make_room ord src psl = hm_remove victim ?b"
      "\<not> hm_contains ?b src" "psl_max_entries psl \<le> hm_len ?b" "hm_get ?b victim = Some (rl, seen)"
      "\<forall>other rl' seen'. hm_get ?b other = Some (rl', seen') \<longrightarrow> seen \<le> seen'" by blast
    have "hm_get (psl_buckets (snd (psl_check_at ord t1 t2 src len now psl))) other =
        (if other = victim then None else hm_get ?b other)"
      unfolding get v(1) using wf by (simp add: hm.lookup_remove)
    then show ?thesis
      using v(2,3) longest_idleI [OF wf v(4,5)]
      by (auto simp: psl_check_unfold [OF assms(1,2)] tracked_def)
  qed
qed

subsection \<open>Sources are independent\<close>

definition op_source :: "'ip psl_op \<Rightarrow> 'ip" where
  "op_source op = (case op of (ord, t1, t2, src, len, now) \<Rightarrow> src)"

fun psl_decisions :: "'ip psl_op list \<Rightarrow> 'ip per_source_limiter \<Rightarrow> rate_decision list" where
  "psl_decisions [] psl = []"
| "psl_decisions ((ord, t1, t2, src, len, now) # ops) psl =
     (case psl_check_at ord t1 t2 src len now psl of (d, psl') \<Rightarrow> d # psl_decisions ops psl')"

text \<open>The specification: one source with a limiter of its own, created at its first packet.\<close>

fun private_decisions :: "f64 \<Rightarrow> u64 \<Rightarrow> 'ip \<Rightarrow> 'ip psl_op list \<Rightarrow> rate_limiter option \<Rightarrow> rate_decision list" where
  "private_decisions p mb src [] own = []"
| "private_decisions p mb src ((ord, t1, t2, s, len, now) # ops) own =
     (if s = src then
        case rl_check_at len now (case own of Some rl \<Rightarrow> rl | None \<Rightarrow> rl_new p mb t1 t2) of
          (d, rl) \<Rightarrow> d # private_decisions p mb src ops (Some rl)
      else private_decisions p mb src ops own)"

definition decisions_of :: "'ip \<Rightarrow> 'ip psl_op list \<Rightarrow> rate_decision list \<Rightarrow> rate_decision list" where
  "decisions_of src ops ds = map snd (filter (\<lambda>e. op_source (fst e) = src) (zip ops ds))"

lemma no_eviction:
  assumes "iterates ord" "psl_inv psl" "finite S" "card S \<le> psl_max_entries psl" "src \<in> S"
    and "dom (hm_get (psl_buckets psl)) \<subseteq> S"
  shows "psl_make_room ord src psl = psl_buckets psl"
proof (cases "hm_contains (psl_buckets psl) src")
  case True
  then show ?thesis by (simp add: psl_make_room_def)
next
  case False
  let ?b = "psl_buckets psl"
  have "hm_len ?b = card (dom (hm_get ?b))"
    using assms(2) by (simp add: psl_inv_def hm.size_dom)
  moreover have "src \<notin> dom (hm_get ?b)" using False by (simp add: hm_contains_def hm_get_def domIff)
  then have "card (dom (hm_get ?b)) < card S"
    using assms(3,5,6) by (intro psubset_card_mono) auto
  ultimately show ?thesis using assms(4) by (simp add: psl_make_room_def)
qed

lemma psl_decisions_private:
  assumes "finite S" "card S \<le> n"
  shows "\<forall>op\<in>set ops. iterates (fst op) \<and> op_source op \<in> S \<Longrightarrow> psl_inv psl \<Longrightarrow> psl_max_entries psl = n \<Longrightarrow>
    dom (hm_get (psl_buckets psl)) \<subseteq> S \<Longrightarrow>
    decisions_of src ops (psl_decisions ops psl) =
      private_decisions (psl_max_pps psl) (psl_max_bytes_per_day psl) src ops
        (map_option fst (hm_get (psl_buckets psl) src))"
proof (induction ops arbitrary: psl)
  case Nil
  then show ?case by (simp add: decisions_of_def)
next
  case (Cons op ops)
  obtain ord t1 t2 s len now where op: "op = (ord, t1, t2, s, len, now)" by (cases op)
  have it: "iterates ord" and s: "s \<in> S" using Cons.prems(1) by (simp_all add: op op_source_def)
  let ?rl = "bucket_of t1 t2 psl s"
  obtain d rl where c: "rl_check_at len now ?rl = (d, rl)" by fastforce
  let ?psl = "psl\<lparr>psl_buckets := hm_insert s (rl, now) (psl_buckets psl)\<rparr>"
  have room: "psl_make_room ord s psl = psl_buckets psl"
    using no_eviction [OF it Cons.prems(2) assms(1) _ s Cons.prems(4)] assms(2) Cons.prems(3) by simp
  have chk: "psl_check_at ord t1 t2 s len now psl = (d, ?psl)"
    using psl_check_unfold [OF it Cons.prems(2), of t1 t2 s len now] c room by simp
  have wf: "hm_wf (psl_buckets psl)" using Cons.prems(2) by (simp add: psl_inv_def)
  have inv: "psl_inv ?psl" using psl_inv_check [OF it Cons.prems(2), of t1 t2 s len now] chk by simp
  have get: "hm_get (psl_buckets ?psl) = (hm_get (psl_buckets psl))(s \<mapsto> (rl, now))"
    using wf by (simp add: hm.lookup_insert)
  have dom: "dom (hm_get (psl_buckets ?psl)) \<subseteq> S" unfolding get using Cons.prems(4) s by auto
  have ih: "decisions_of src ops (psl_decisions ops ?psl) =
      private_decisions (psl_max_pps psl) (psl_max_bytes_per_day psl) src ops (map_option fst (hm_get (psl_buckets ?psl) src))"
    using Cons.IH [OF _ inv _ dom] Cons.prems(1,3) by simp
  show ?case
    using ih c get by (auto simp: op chk decisions_of_def op_source_def bucket_of_def split: option.splits)
qed

text \<open>C18. Sources are independent: as long as no more sources appear than the table can hold, every source
  gets exactly the decisions of a rate limiter of its own, created at its first packet, whatever
  the other sources send and however their packets interleave with its own. The table with its
  evictions implements one private limiter per source.\<close>

theorem sources_independent:
  assumes "\<forall>op\<in>set ops. iterates (fst op)" "card (op_source ` set ops) \<le> max n 1"
  shows "decisions_of src ops (psl_decisions ops (psl_new p mb n)) = private_decisions p mb src ops None"
  using psl_decisions_private [OF _ assms(2), of ops "psl_new p mb n" src] assms(1) psl_new_inv [of p mb n]
  by (simp add: psl_new_def hm_get_def [abs_def])

definition three_packets :: "nat psl_op list" where
  "three_packets = [(\<lambda>m. m, 0, 0, 7, 2048, 0), (\<lambda>m. m, 1, 1, 9, 2048, 1), (\<lambda>m. m, 2, 2, 7, 2048, 2)]"

theorem sources_independent_witness:
  "decisions_of 7 three_packets (psl_decisions three_packets (psl_new (Fin 0) 3000 2)) = [Allow, Throttled DailyQuota]"
proof -
  have "decisions_of 7 three_packets (psl_decisions three_packets (psl_new (Fin 0) 3000 2)) =
      private_decisions (Fin 0) 3000 7 three_packets None"
    by (rule sources_independent) (auto simp: three_packets_def iterates_def op_source_def card_insert_if)
  moreover have "private_decisions (Fin 0) 3000 7 three_packets None = [Allow, Throttled DailyQuota]"
    by (simp add: three_packets_def rl_new_def rl_check_at_def quota_guard_def f_max_def Let_def duration_since_def
        QUOTA_WINDOW_def time_simps WIRE_BYTES_PER_PACKET_def sat_add_def)
  ultimately show ?thesis by simp
qed

end
