(* ===== verification/Delay.thy ===== *)
theory Delay
  imports F64
begin

section \<open>Poisson delays\<close>

text \<open>
  \<^verbatim>\<open>crypto-gotham-relay/src/delay.rs\<close>: the sampler of exponentially distributed delays that the
  mixing delay of a hop and the cover traffic use. The uniform sample comes from the caller's
  generator and the natural logarithm from the platform, whose precision is unspecified; both are
  arguments, \<open>gen\<close> and \<open>ln_f\<close>. The panics of \<^verbatim>\<open>f64::clamp\<close> and \<^verbatim>\<open>Duration::from_secs_f64\<close> are the
  value \<open>None\<close>, and the theory proves that neither can happen and that a delay is capped at a
  hundred times the mean.
\<close>

record poisson_scheduler =
  ps_lambda :: f64
  ps_mean_micros :: u64

definition ps_new :: "u64 \<Rightarrow> poisson_scheduler" where
  "ps_new mean_delay_micros =
     \<lparr>ps_lambda = (if mean_delay_micros = 0 then Fin 0
                   else f_div (Fin 1000000) (f_of_nat (unat mean_delay_micros))),
      ps_mean_micros = mean_delay_micros\<rparr>"

text \<open>\<^verbatim>\<open>f64::MIN_POSITIVE\<close>.\<close>

definition MIN_POSITIVE :: f64 where
  "MIN_POSITIVE = Fin (1 / 2 ^ 1022)"

definition next_delay :: "('g \<Rightarrow> f64 \<times> 'g) \<Rightarrow> (f64 \<Rightarrow> f64) \<Rightarrow> poisson_scheduler \<Rightarrow> 'g
    \<Rightarrow> duration option \<times> 'g" where
  "next_delay gen ln_f ps rng =
     (if f_eq (ps_lambda ps) (Fin 0) then (Some 0, rng)
      else
        let (u0, rng') = gen rng;
            u = (if f_eq u0 (Fin 0) then MIN_POSITIVE else u0);
            secs = f_div (f_neg (ln_f u)) (ps_lambda ps);
            max_secs = f_div (f_mul (Fin 100) (f_of_nat (unat (ps_mean_micros ps)))) (Fin 1000000) in
        (Option.bind (f_clamp secs (Fin 0) max_secs) from_secs_f64, rng'))"

definition mean_delay_micros :: "poisson_scheduler \<Rightarrow> u64" where
  "mean_delay_micros ps = ps_mean_micros ps"

text \<open>
  What the sampler relies on: the generator's samples are numbers in \<open>[0, 1)\<close>, and the logarithm
  of a number in \<open>(0, 1)\<close> is a number.
\<close>

definition unit_samples :: "('g \<Rightarrow> f64 \<times> 'g) \<Rightarrow> bool" where
  "unit_samples gen \<longleftrightarrow> (\<forall>g. \<exists>a. fst (gen g) = Fin a \<and> 0 \<le> a \<and> a < 1)"

definition ln_is_number :: "(f64 \<Rightarrow> f64) \<Rightarrow> bool" where
  "ln_is_number ln_f \<longleftrightarrow> (\<forall>a. 0 < a \<and> a < 1 \<longrightarrow> ln_f (Fin a) \<noteq> NaN)"

subsection \<open>The rate and the cap\<close>

lemma widen_le: "0 \<le> x \<Longrightarrow> widen x \<le> 2 * x + 1"
  using mult_left_mono [of eps53 1 x] by (simp add: widen_def algebra_simps eps53_def eta53_def)

lemma f_ub_Fin:
  assumes "f_ub y r" "r < 2 ^ 1024"
  obtains a where "y = Fin a" "0 \<le> a" "a \<le> r"
  using assms by (cases y) (auto simp: f_ub_def)

lemma f_of_rat_Fin:
  assumes "0 \<le> x" "2 * x + 1 < 2 ^ 1024"
  obtains a where "f_of_rat x = Fin a" "0 \<le> a" "a \<le> 2 * x + 1" "a = round53 x"
proof -
  have "f_ub (f_of_rat x) (2 * x + 1)"
    using f_ub_mono [OF f_ub_of_rat [OF assms(1) order_refl] widen_le [OF assms(1)]] .
  from f_ub_Fin [OF this assms(2)] obtain a where a: "f_of_rat x = Fin a" "0 \<le> a" "a \<le> 2 * x + 1"
    by blast
  moreover have "a = round53 x" using a(1) by (auto simp: f_of_rat_def Let_def split: if_splits)
  ultimately show thesis using that by blast
qed

lemma nat_f64:
  assumes "n < 2 ^ 64"
  obtains a where "f_of_nat n = Fin a" "0 \<le> a" "a \<le> 2 ^ 66" "0 < n \<Longrightarrow> 1 \<le> a"
proof -
  have "(of_nat n :: rat) < of_nat (2 ^ 64)" using assms by (simp only: of_nat_less_iff)
  then have n: "(of_nat n :: rat) < 2 ^ 64" by simp
  then obtain a where a: "f_of_rat (of_nat n) = Fin a" "0 \<le> a" "a \<le> 2 * of_nat n + 1"
    using f_of_rat_Fin [of "of_nat n"] by auto
  have "1 \<le> a" if "0 < n"
    using f_of_rat_ge_one [of "of_nat n"] that a by simp
  with a n that show thesis by (auto simp: f_of_nat_def)
qed

lemma unat_u64: "unat (m :: u64) < 2 ^ 64"
  using unsigned_less [of m, where 'a = nat] by simp

text \<open>For a mean that is not zero the rate is a positive finite double.\<close>

lemma lambda_pos:
  assumes "m \<noteq> 0"
  obtains l where "ps_lambda (ps_new m) = Fin l" "0 < l"
proof -
  have "0 < unat m" using assms by (simp add: unat_gt_0)
  then obtain a where a: "f_of_nat (unat m) = Fin a" "1 \<le> a" "a \<le> 2 ^ 66"
    using nat_f64 [OF unat_u64, of m] by blast
  let ?x = "1000000 / a"
  have "1000000 / 2 ^ 66 \<le> ?x" using a by (intro divide_left_mono) simp_all
  then have lo: "2 powi (- 66) \<le> ?x" by simp
  have hi: "?x \<le> 1000000" using a by (simp add: divide_le_eq)
  have x0: "0 \<le> ?x" using a by simp
  then obtain l where l: "f_of_rat ?x = Fin l" "l = round53 ?x"
    using f_of_rat_Fin [of ?x] hi by auto
  have "round53 (2 powi (- 66)) = 2 powi (- 66)"
    using round_pos_fixed [of 1 "- 66" "2 powi (- 66)"] by (simp add: round53_def)
  with r53.above [OF lo] l have "(2 :: rat) powi (- 66) \<le> l" by simp
  moreover have "(0 :: rat) < 2 powi (- 66)" by simp
  ultimately have "0 < l" by linarith
  with l a assms that show thesis by (simp add: ps_new_def)
qed

text \<open>The cap is a finite double; up to means of \<open>2 ^ 33\<close> microseconds it is a hundred means.\<close>

definition max_secs :: "u64 \<Rightarrow> f64" where
  "max_secs m = f_div (f_mul (Fin 100) (f_of_nat (unat m))) (Fin 1000000)"

lemma max_secs_finite:
  obtains s where "max_secs m = Fin s" "0 \<le> s" "s \<le> 2 ^ 60"
proof -
  obtain a where a: "f_of_nat (unat m) = Fin a" "0 \<le> a" "a \<le> 2 ^ 66"
    using nat_f64 [OF unat_u64, of m] by blast
  obtain b where b: "f_of_rat (100 * a) = Fin b" "0 \<le> b" "b \<le> 2 * (100 * a) + 1"
    using f_of_rat_Fin [of "100 * a"] a by auto
  obtain s where s: "f_of_rat (b / 1000000) = Fin s" "0 \<le> s" "s \<le> 2 * (b / 1000000) + 1"
    using f_of_rat_Fin [of "b / 1000000"] a b by auto
  have "s \<le> 2 ^ 60" using s(3) b(3) a(3) by simp
  with s a b that show thesis by (simp add: max_secs_def)
qed

lemma max_secs_close:
  assumes "unat m \<le> 2 ^ 33" "max_secs m = Fin s"
  shows "round_half_even (s * 1000000000) \<le> int (100 * from_micros (unat m))"
proof -
  let ?n = "unat m"
  have n33: "(of_nat ?n :: rat) \<le> 2 ^ 33"
    using assms(1) of_nat_le_iff [of ?n "2 ^ 33", where 'a = rat] by (simp del: of_nat_unat)
  have "f_of_nat ?n = Fin (of_nat ?n)" using assms(1) by (intro f_of_nat_exact) simp
  moreover have "f_of_nat (100 * ?n) = Fin (of_nat (100 * ?n))"
    using assms(1) by (intro f_of_nat_exact) simp
  ultimately have "max_secs m = f_of_rat (of_nat (100 * ?n) / 1000000)"
    unfolding max_secs_def by (simp add: f_of_nat_def del: of_nat_unat)
  then have "s = round53 (of_nat (100 * ?n) / 1000000)"
    using assms(2) by (auto simp: f_of_rat_def Let_def split: if_splits)
  then have "s \<le> widen (of_nat (100 * ?n) / 1000000)"
    using r53.upper [of "of_nat (100 * ?n) / 1000000"]
    by (simp add: widen_def del: of_nat_unat)
  then have "s * 1000000000 \<le> of_nat ?n * 100000 + (of_nat ?n * 100000 * eps53 + 1000000000 * eta53)"
    by (simp add: widen_def field_simps del: of_nat_unat)
  also have "of_nat ?n * 100000 * eps53 + 1000000000 * eta53 \<le> 1 / 4"
    using n33 by (simp add: eps53_def eta53_def del: of_nat_unat)
  finally have "of_int (round_half_even (s * 1000000000)) < (of_nat ?n * 100000 + 1 :: rat)"
    using rhe_error [of "s * 1000000000"] unfolding abs_le_iff by linarith
  then have "of_int (round_half_even (s * 1000000000)) < (of_int (int ?n * 100000 + 1) :: rat)"
    by (simp del: of_nat_unat)
  then show ?thesis by (simp only: of_int_less_iff) (simp add: from_micros_def)
qed

subsection \<open>Sampling\<close>

lemma f_clamp_between:
  assumes "0 \<le> s" "x \<noteq> NaN"
  obtains y where "f_clamp x (Fin 0) (Fin s) = Some (Fin y)" "0 \<le> y" "y \<le> s"
proof -
  have "\<exists>y. f_clamp x (Fin 0) (Fin s) = Some (Fin y) \<and> 0 \<le> y \<and> y \<le> s"
    using assms by (cases x) (auto simp: f_clamp_def Let_def)
  with that show thesis by blast
qed

lemma secs_is_number:
  assumes "x \<noteq> NaN" "0 < l"
  shows "f_div (f_neg x) (Fin l) \<noteq> NaN"
  using assms by (cases x) (auto simp: f_inf_def)

lemma from_secs_f64_le:
  assumes "0 \<le> y" "y \<le> s" "s \<le> 2 ^ 60"
  obtains d where "from_secs_f64 (Fin y) = Some d" "int d \<le> round_half_even (s * 1000000000)"
proof -
  have "round_half_even (y * 1000000000) \<le> round_half_even (s * 1000000000)"
    using assms by (intro rhe_mono) simp
  moreover have "s * 1000000000 \<le> of_int (2 ^ 60 * 1000000000)" using assms by simp
  then have "round_half_even (s * 1000000000) \<le> 2 ^ 60 * 1000000000" by (metis rhe_mono rhe_of_int)
  moreover have "of_int 0 \<le> y * 1000000000" using assms by simp
  then have "0 \<le> round_half_even (y * 1000000000)" by (metis rhe_mono rhe_of_int)
  ultimately show thesis using that assms by (simp add: from_secs_f64_def Let_def)
qed

lemma f64_sample:
  assumes "unit_samples gen"
  obtains a where "fst (gen g) = Fin a" "0 \<le> a" "a < 1"
  using assms by (auto simp: unit_samples_def)

lemma next_delay_ok:
  assumes "unit_samples gen" "ln_is_number ln_f"
  shows "\<exists>d. fst (next_delay gen ln_f (ps_new mean) rng) = Some d \<and>
    (unat mean \<le> 2 ^ 33 \<longrightarrow> d \<le> 100 * from_micros (unat mean))"
proof (cases "mean = 0")
  case True
  then show ?thesis by (simp add: next_delay_def ps_new_def f_eq_def)
next
  case False
  obtain l where l: "ps_lambda (ps_new mean) = Fin l" "0 < l" using lambda_pos [OF False] .
  obtain s where s: "max_secs mean = Fin s" "0 \<le> s" "s \<le> 2 ^ 60" using max_secs_finite .
  obtain a where a: "fst (gen rng) = Fin a" "0 \<le> a" "a < 1" using f64_sample [OF assms(1)] .
  let ?u = "if f_eq (Fin a) (Fin 0) then MIN_POSITIVE else Fin a"
  have "ln_f ?u \<noteq> NaN"
    using assms(2) a by (auto simp: ln_is_number_def MIN_POSITIVE_def f_eq_def)
  then have "f_div (f_neg (ln_f ?u)) (Fin l) \<noteq> NaN" using l by (intro secs_is_number)
  then obtain y where y: "f_clamp (f_div (f_neg (ln_f ?u)) (Fin l)) (Fin 0) (Fin s) = Some (Fin y)"
    "0 \<le> y" "y \<le> s" using f_clamp_between [OF s(2)] by metis
  obtain d where d: "from_secs_f64 (Fin y) = Some d" "int d \<le> round_half_even (s * 1000000000)"
    using from_secs_f64_le [OF y(2,3) s(3)] .
  have "fst (next_delay gen ln_f (ps_new mean) rng) = Some d"
    using l s(1) a(1) y(1) d(1)
    by (cases "a = 0") (simp_all add: next_delay_def max_secs_def ps_new_def f_eq_def Let_def case_prod_beta)
  with d(2) max_secs_close [OF _ s(1)] show ?thesis by fastforce
qed

text \<open>Sampling a delay never panics, for every mean a \<^verbatim>\<open>u64\<close> holds: the bounds of the clamp
  are ordered and the clamped value is a representable duration. Up to a mean of \<open>2 ^ 33\<close>
  microseconds (more than two hours) the delay is at most a hundred times the mean, to the
  nanosecond.\<close>

lemma next_delay_capped:
  assumes "unit_samples gen" "ln_is_number ln_f"
  shows "\<exists>d. fst (next_delay gen ln_f (ps_new mean) rng) = Some d \<and>
    (unat mean \<le> 2 ^ 33 \<longrightarrow> d \<le> 100 * from_micros (unat mean))"
  by (rule next_delay_ok [OF assms])

text \<open>A mean of zero turns the delay off: no delay, and no randomness consumed.\<close>

lemma zero_mean_no_delay: "next_delay gen ln_f (ps_new 0) rng = (Some 0, rng)"
  by (simp add: next_delay_def ps_new_def f_eq_def)

end
