(* ===== verification/Process.thy ===== *)
theory Process
  imports Replay_Persist Rate_Limit Delay
begin

section \<open>Packet processing\<close>

text \<open>
  \<^verbatim>\<open>crypto-gotham-relay/src/process.rs\<close>: the relay's state and the handler that every packet goes
  through. The packet format and the cryptography are the crate \<^verbatim>\<open>crypto_gotham\<close> and
  \<^verbatim>\<open>x25519_dalek\<close>, which are not part of the repository; they are the fields of the argument \<open>G\<close>,
  and \<open>gotham_ok\<close> states the lengths their types promise. The two clock readings of one call are
  arguments, and a panic is the outcome \<open>None\<close>.
\<close>

subsection \<open>What the packet crate provides\<close>

datatype gotham_error = GBadMac | GOther

text \<open>The fields and methods of a hop's routing record that the handler reads.\<close>

record hop_record =
  hr_delay_micros :: u32
  hr_next_ipv4 :: bytes
  hr_next_port :: u16
  hr_next_node_id :: bytes
  hr_is_last_hop :: bool
  hr_is_via_rendezvous :: bool

record ('h, 'k) gotham =
  PACKET_SIZE :: nat
  HEADER_LEN :: nat
  VERSION_LEGACY :: byte
  header_decode :: "bytes \<Rightarrow> 'h option"
  header_encode :: "'h \<Rightarrow> bytes"
  header_version :: "'h \<Rightarrow> byte"
  header_alpha :: "'h \<Rightarrow> bytes"
  header_gamma :: "'h \<Rightarrow> bytes"
  x25519 :: "bytes \<Rightarrow> bytes \<Rightarrow> bytes"
  public_key :: "bytes \<Rightarrow> bytes"
  derive_hop_subkeys :: "bytes \<Rightarrow> 'k option"
  unwrap_header :: "'h \<Rightarrow> 'k \<Rightarrow> gotham_error + hop_record \<times> 'h"
  k_payload :: "'k \<Rightarrow> bytes"
  lioness_decrypt :: "bytes \<Rightarrow> bytes \<Rightarrow> bytes"

definition gotham_ok :: "('h, 'k) gotham \<Rightarrow> bool" where
  "gotham_ok G \<longleftrightarrow>
     HEADER_LEN G \<le> PACKET_SIZE G \<and>
     (\<forall>h. length (header_encode G h) = HEADER_LEN G) \<and>
     (\<forall>k p. length (lioness_decrypt G k p) = length p)"

subsection \<open>State and outcomes\<close>

datatype drop_reason = BadMac | ReplayDrop | Malformed | PolicyDenied | RateLimited

type_synonym socket_addr_v4 = "bytes \<times> u16"

datatype process_outcome =
    Drop drop_reason
  | Forward (fwd_addr: socket_addr_v4) (fwd_node_id: bytes) (fwd_delay: duration)
      (fwd_via_rendezvous: bool) (fwd_packet: bytes)
  | DeliverLocal (dl_delay: duration) (dl_payload: bytes)

definition is_drop :: "process_outcome \<Rightarrow> bool" where
  "is_drop o1 = (case o1 of Drop _ \<Rightarrow> True | _ \<Rightarrow> False)"

record relay =
  r_replay_cache :: replay_cache
  r_scheduler :: poisson_scheduler
  r_rate_limiter :: rate_limiter
  r_accept_header_v2 :: bool
  r_v2_accepted :: u64
  r_replay_path :: "path option"
  r_identity_sk :: bytes

definition relay_new :: "bytes \<Rightarrow> nat \<Rightarrow> duration \<Rightarrow> u64 \<Rightarrow> instant \<Rightarrow> instant \<Rightarrow> relay" where
  "relay_new identity_sk replay_max_size replay_ttl mean_micros t1 t2 =
     \<lparr>r_replay_cache = rc_new replay_max_size replay_ttl,
      r_scheduler = ps_new mean_micros,
      r_rate_limiter = rl_unlimited t1 t2,
      r_accept_header_v2 = True,
      r_v2_accepted = 0,
      r_replay_path = None,
      r_identity_sk = identity_sk\<rparr>"

text \<open>
  \<^verbatim>\<open>with_replay_persistence\<close>: what reading the file gave is the argument \<open>rd\<close>; a file that cannot
  be read or parsed leaves the cache empty and the relay running.
\<close>

definition with_replay_persistence :: "instant \<Rightarrow> (io_error + bytes) \<Rightarrow> instant \<Rightarrow> u64 \<Rightarrow> path \<Rightarrow> relay \<Rightarrow> relay" where
  "with_replay_persistence lo rd now unix p r =
     r\<lparr>r_replay_cache := snd (load lo rd now unix (r_replay_cache r)), r_replay_path := Some p\<rparr>"

definition encode_replay :: "instant \<Rightarrow> u64 \<Rightarrow> relay \<Rightarrow> (bytes \<times> path) option" where
  "encode_replay now unix r =
     (case r_replay_path r of
        None \<Rightarrow> None
      | Some p \<Rightarrow> Some (encode now unix (r_replay_cache r), p))"

definition persist_replay :: "write_fate \<Rightarrow> instant \<Rightarrow> u64 \<Rightarrow> relay \<Rightarrow> fs
    \<Rightarrow> (io_error + nat) option \<times> fs" where
  "persist_replay fate now unix r files =
     (case r_replay_path r of
        None \<Rightarrow> (None, files)
      | Some p \<Rightarrow> (case save fate now unix (r_replay_cache r) p files of (res, files') \<Rightarrow> (Some res, files')))"

definition persists_replay :: "relay \<Rightarrow> bool" where
  "persists_replay r = (r_replay_path r \<noteq> None)"

definition strict_header_v3 :: "relay \<Rightarrow> relay" where
  "strict_header_v3 r = r\<lparr>r_accept_header_v2 := False\<rparr>"

definition with_rate_limit :: "f64 \<Rightarrow> u64 \<Rightarrow> instant \<Rightarrow> instant \<Rightarrow> relay \<Rightarrow> relay" where
  "with_rate_limit max_pps max_bytes_per_day t1 t2 r =
     r\<lparr>r_rate_limiter := rl_new max_pps max_bytes_per_day t1 t2\<rparr>"

definition replay_cache_len :: "relay \<Rightarrow> nat" where
  "replay_cache_len r = rc_len (r_replay_cache r)"

definition identity_public_key :: "('h, 'k) gotham \<Rightarrow> relay \<Rightarrow> bytes" where
  "identity_public_key G r = public_key G (r_identity_sk r)"

subsection \<open>The handler\<close>

definition MAX_HOP_DELAY :: duration where
  "MAX_HOP_DELAY = from_secs 30"

definition hop_delay :: "('g \<Rightarrow> f64 \<times> 'g) \<Rightarrow> (f64 \<Rightarrow> f64) \<Rightarrow> relay \<Rightarrow> hop_record \<Rightarrow> 'g
    \<Rightarrow> duration option \<times> 'g" where
  "hop_delay gen ln_f r rec rng =
     (if hr_delay_micros rec = 0 then next_delay gen ln_f (r_scheduler r) rng
      else (Some (min (from_micros (unat (hr_delay_micros rec))) MAX_HOP_DELAY), rng))"

text \<open>\<^verbatim>\<open>next_packet[..n].copy_from_slice(a); next_packet[n..].copy_from_slice(b)\<close> into a buffer of
  \<open>sz\<close> bytes: both copies panic unless the lengths agree.\<close>

definition fill_packet :: "nat \<Rightarrow> nat \<Rightarrow> bytes \<Rightarrow> bytes \<Rightarrow> bytes option" where
  "fill_packet sz n a b = (if n \<le> sz \<and> length a = n \<and> length b = sz - n then Some (a @ b) else None)"

text \<open>The end of the handler, once the packet is authentic and fresh.\<close>

definition route :: "('h, 'k) gotham \<Rightarrow> relay \<Rightarrow> hop_record \<Rightarrow> 'h \<Rightarrow> duration \<Rightarrow> bytes \<Rightarrow> process_outcome option" where
  "route G r rec next_header delay payload =
     (if hr_is_last_hop rec then Some (DeliverLocal delay payload)
      else
        case fill_packet (PACKET_SIZE G) (HEADER_LEN G) (header_encode G next_header) payload of
          None \<Rightarrow> None
        | Some next_packet \<Rightarrow>
            if hr_next_node_id rec = identity_public_key G r then Some (Drop PolicyDenied)
            else Some (Forward (hr_next_ipv4 rec, hr_next_port rec) (hr_next_node_id rec) delay
                   (hr_is_via_rendezvous rec) next_packet))"

text \<open>The replay check, the delay and the payload decryption of an authentic packet.\<close>

definition process_authentic :: "('h, 'k) gotham \<Rightarrow> ('g \<Rightarrow> f64 \<times> 'g) \<Rightarrow> (f64 \<Rightarrow> f64) \<Rightarrow> instant
    \<Rightarrow> bytes \<Rightarrow> 'h \<Rightarrow> 'k \<Rightarrow> hop_record \<times> 'h \<Rightarrow> relay \<Rightarrow> 'g \<Rightarrow> process_outcome option \<times> relay \<times> 'g" where
  "process_authentic G gen ln_f t_replay packet header sub_keys unwrapped r rng =
     (case check_and_insert_at (header_gamma G header) t_replay (r_replay_cache r) of
        (Replay, c) \<Rightarrow> (Some (Drop ReplayDrop), r\<lparr>r_replay_cache := c\<rparr>, rng)
      | (Fresh, c) \<Rightarrow>
          let r1 = r\<lparr>r_replay_cache := c\<rparr>;
              (rec, next_header) = unwrapped;
              (delay, rng1) = hop_delay gen ln_f r1 rec rng in
          (case (delay, slice_from (HEADER_LEN G) packet) of
             (Some d, Some body) \<Rightarrow>
               (route G r1 rec next_header d (lioness_decrypt G (k_payload G sub_keys) body), r1, rng1)
           | _ \<Rightarrow> (None, r1, rng1)))"

text \<open>The version check; \<open>None\<close> when strict mode refuses a legacy header.\<close>

definition admit_version :: "('h, 'k) gotham \<Rightarrow> 'h \<Rightarrow> relay \<Rightarrow> relay option" where
  "admit_version G header r =
     (if header_version G header = VERSION_LEGACY G then
        if \<not> r_accept_header_v2 r then None
        else Some (r\<lparr>r_v2_accepted := sat_add (r_v2_accepted r) 1\<rparr>)
      else Some r)"

definition process_header :: "('h, 'k) gotham \<Rightarrow> ('g \<Rightarrow> f64 \<times> 'g) \<Rightarrow> (f64 \<Rightarrow> f64) \<Rightarrow> instant
    \<Rightarrow> bytes \<Rightarrow> 'h \<Rightarrow> relay \<Rightarrow> 'g \<Rightarrow> process_outcome option \<times> relay \<times> 'g" where
  "process_header G gen ln_f t_replay packet header r0 rng =
     (case admit_version G header r0 of
        None \<Rightarrow> (Some (Drop Malformed), r0, rng)
      | Some r \<Rightarrow>
          (case derive_hop_subkeys G (x25519 G (r_identity_sk r) (header_alpha G header)) of
             None \<Rightarrow> (Some (Drop Malformed), r, rng)
           | Some sub_keys \<Rightarrow>
               (case unwrap_header G header sub_keys of
                  Inl GBadMac \<Rightarrow> (Some (Drop BadMac), r, rng)
                | Inl GOther \<Rightarrow> (Some (Drop Malformed), r, rng)
                | Inr unwrapped \<Rightarrow>
                    process_authentic G gen ln_f t_replay packet header sub_keys unwrapped r rng)))"

definition process :: "('h, 'k) gotham \<Rightarrow> ('g \<Rightarrow> f64 \<times> 'g) \<Rightarrow> (f64 \<Rightarrow> f64) \<Rightarrow> instant \<Rightarrow> instant
    \<Rightarrow> bytes \<Rightarrow> relay \<Rightarrow> 'g \<Rightarrow> process_outcome option \<times> relay \<times> 'g" where
  "process G gen ln_f t_rate t_replay packet r0 rng =
     (if length packet \<noteq> PACKET_SIZE G then (Some (Drop Malformed), r0, rng)
      else
        case rl_check_at (length packet) t_rate (r_rate_limiter r0) of
          (decision, rl) \<Rightarrow>
            let r = r0\<lparr>r_rate_limiter := rl\<rparr> in
            if \<not> is_allowed decision then (Some (Drop RateLimited), r, rng)
            else
              case slice_to (HEADER_LEN G) packet of
                None \<Rightarrow> (None, r, rng)
              | Some header_arr \<Rightarrow>
                  (case header_decode G header_arr of
                     None \<Rightarrow> (Some (Drop Malformed), r, rng)
                   | Some header \<Rightarrow> process_header G gen ln_f t_replay packet header r rng))"

subsection \<open>What one call does\<close>

text \<open>
  The authentication of a packet, which depends on the relay's key and mode but not on its history:
  the header, the keys and the unwrapped record of a packet that passes every check before the
  replay cache.
\<close>

definition authentic :: "('h, 'k) gotham \<Rightarrow> bytes \<Rightarrow> bool \<Rightarrow> bytes \<Rightarrow> ('h \<times> 'k \<times> hop_record \<times> 'h) option" where
  "authentic G sk accept_v2 packet =
     (case header_decode G (take (HEADER_LEN G) packet) of
        None \<Rightarrow> None
      | Some h \<Rightarrow>
          if header_version G h = VERSION_LEGACY G \<and> \<not> accept_v2 then None
          else
            (case derive_hop_subkeys G (x25519 G sk (header_alpha G h)) of
               None \<Rightarrow> None
             | Some k \<Rightarrow>
                 (case unwrap_header G h k of
                    Inl _ \<Rightarrow> None
                  | Inr u \<Rightarrow> Some (h, k, u))))"

text \<open>The relay with its counters advanced, before the replay check.\<close>

definition counted :: "('h, 'k) gotham \<Rightarrow> 'h \<Rightarrow> relay \<Rightarrow> relay" where
  "counted G h r =
     (if header_version G h = VERSION_LEGACY G then r\<lparr>r_v2_accepted := sat_add (r_v2_accepted r) 1\<rparr>
      else r)"

definition rejects :: "process_outcome option \<Rightarrow> bool" where
  "rejects o1 \<longleftrightarrow> o1 \<in> {Some (Drop BadMac), Some (Drop Malformed)}"

lemma process_header_authentic:
  assumes "HEADER_LEN G \<le> length packet" "authentic G (r_identity_sk r) (r_accept_header_v2 r) packet = Some (h, k, u)"
    and "header_decode G (take (HEADER_LEN G) packet) = Some h'"
  shows "process_header G gen ln_f t packet h' r rng =
    process_authentic G gen ln_f t packet h k u (counted G h r) rng"
  using assms
  by (auto simp: authentic_def process_header_def admit_version_def counted_def
      split: option.splits if_splits sum.splits)

lemma process_header_reject:
  assumes "authentic G (r_identity_sk r) (r_accept_header_v2 r) packet = None"
    and "header_decode G (take (HEADER_LEN G) packet) = Some h"
  obtains o1 r' where "process_header G gen ln_f t packet h r rng = (o1, r', rng)"
    "rejects o1" "r' = r \<or> r' = counted G h r"
proof -
  have "\<exists>o1 r'. process_header G gen ln_f t packet h r rng = (o1, r', rng) \<and> rejects o1 \<and>
      (r' = r \<or> r' = counted G h r)"
    using assms
    by (auto simp: authentic_def process_header_def admit_version_def rejects_def counted_def
        split: option.splits if_splits sum.splits gotham_error.splits)
  with that show thesis by blast
qed

lemma counted_fields [simp]:
  "r_replay_cache (counted G h r) = r_replay_cache r" "r_rate_limiter (counted G h r) = r_rate_limiter r"
  "r_scheduler (counted G h r) = r_scheduler r" "r_identity_sk (counted G h r) = r_identity_sk r"
  "r_accept_header_v2 (counted G h r) = r_accept_header_v2 r"
  "r_replay_path (counted G h r) = r_replay_path r"
  by (simp_all add: counted_def)

text \<open>The four ways a call can go.\<close>

lemma process_admitted:
  assumes "gotham_ok G" "length packet = PACKET_SIZE G" "rl_check_at (length packet) t1 (r_rate_limiter r) = (Allow, rl)"
  shows "process G gen ln_f t1 t2 packet r rng =
    (case header_decode G (take (HEADER_LEN G) packet) of
       None \<Rightarrow> (Some (Drop Malformed), r\<lparr>r_rate_limiter := rl\<rparr>, rng)
     | Some h \<Rightarrow> process_header G gen ln_f t2 packet h (r\<lparr>r_rate_limiter := rl\<rparr>) rng)"
  using assms by (simp add: process_def Let_def is_allowed_def slice_to_def gotham_ok_def)

lemma process_cases:
  assumes "gotham_ok G"
  obtains (size) "length packet \<noteq> PACKET_SIZE G"
      "process G gen ln_f t1 t2 packet r rng = (Some (Drop Malformed), r, rng)"
  | (rate) reason where "length packet = PACKET_SIZE G"
      "fst (rl_check_at (length packet) t1 (r_rate_limiter r)) = Throttled reason"
      "process G gen ln_f t1 t2 packet r rng = (Some (Drop RateLimited), r, rng)"
  | (reject) o1 r' rl where "length packet = PACKET_SIZE G"
      "rl_check_at (length packet) t1 (r_rate_limiter r) = (Allow, rl)"
      "authentic G (r_identity_sk r) (r_accept_header_v2 r) packet = None"
      "process G gen ln_f t1 t2 packet r rng = (o1, r', rng)" "rejects o1"
      "r' = r\<lparr>r_rate_limiter := rl\<rparr> \<or> (\<exists>h. r' = counted G h (r\<lparr>r_rate_limiter := rl\<rparr>))"
  | (authentic) h k u rl where "length packet = PACKET_SIZE G"
      "rl_check_at (length packet) t1 (r_rate_limiter r) = (Allow, rl)"
      "authentic G (r_identity_sk r) (r_accept_header_v2 r) packet = Some (h, k, u)"
      "process G gen ln_f t1 t2 packet r rng =
         process_authentic G gen ln_f t2 packet h k u (counted G h (r\<lparr>r_rate_limiter := rl\<rparr>)) rng"
proof (cases "length packet = PACKET_SIZE G")
  case False
  then show thesis by (intro size) (simp_all add: process_def)
next
  case len: True
  obtain d rl where d: "rl_check_at (length packet) t1 (r_rate_limiter r) = (d, rl)" by fastforce
  let ?r = "r\<lparr>r_rate_limiter := rl\<rparr>"
  have hl: "HEADER_LEN G \<le> length packet" using assms len by (simp add: gotham_ok_def)
  show thesis
  proof (cases d)
    case (Throttled reason)
    with d have "rl = r_rate_limiter r" using check_throttled by blast
    with len d Throttled show thesis by (intro rate) (simp_all add: process_def Let_def is_allowed_def)
  next
    case Allow
    note p = process_admitted [OF assms len d [unfolded Allow], where gen = gen and ln_f = ln_f and ?t2.0 = t2 and rng = rng]
    show thesis
    proof (cases "header_decode G (take (HEADER_LEN G) packet)")
      case None
      with len d Allow p show thesis by (intro reject) (auto simp: authentic_def rejects_def)
    next
      case (Some h')
      show thesis
      proof (cases "authentic G (r_identity_sk ?r) (r_accept_header_v2 ?r) packet")
        case None
        from process_header_reject [OF None Some] obtain o1 r'
          where "process_header G gen ln_f t2 packet h' ?r rng = (o1, r', rng)" "rejects o1"
            "r' = ?r \<or> r' = counted G h' ?r" by metis
        with len d Allow p Some None show thesis by (intro reject) auto
      next
        case (Some a)
        obtain h k u where a: "a = (h, k, u)" by (cases a) auto
        from process_header_authentic [OF hl Some [unfolded a] \<open>header_decode _ _ = Some h'\<close>]
        show thesis using len d Allow p Some a \<open>header_decode _ _ = Some h'\<close>
          by (intro authentic) auto
      qed
    qed
  qed
qed

text \<open>
  The outcomes of packets that were new to the replay cache: forwarded, delivered, or refused by
  policy afterwards.
\<close>

definition took_slot :: "process_outcome option \<Rightarrow> bool" where
  "took_slot o1 =
     (case o1 of
        Some (Drop reason) \<Rightarrow> reason = PolicyDenied
      | _ \<Rightarrow> True)"

lemma took_slot_route: "took_slot (route G r rec nh d payload)"
  by (auto simp: route_def took_slot_def split: option.splits)

lemma process_authentic_replay:
  assumes "fst (check_and_insert_at (header_gamma G h) t (r_replay_cache r)) = Replay"
  shows "process_authentic G gen ln_f t packet h k u r rng =
    (Some (Drop ReplayDrop),
     r\<lparr>r_replay_cache := snd (check_and_insert_at (header_gamma G h) t (r_replay_cache r))\<rparr>, rng)"
  using assms by (cases "check_and_insert_at (header_gamma G h) t (r_replay_cache r)")
    (simp add: process_authentic_def)

lemma process_authentic_fresh:
  assumes "fst (check_and_insert_at (header_gamma G h) t (r_replay_cache r)) = Fresh"
  obtains o1 rng' where "process_authentic G gen ln_f t packet h k u r rng =
    (o1, r\<lparr>r_replay_cache := snd (check_and_insert_at (header_gamma G h) t (r_replay_cache r))\<rparr>, rng')"
    "took_slot o1"
proof -
  obtain c where c: "check_and_insert_at (header_gamma G h) t (r_replay_cache r) = (Fresh, c)"
    using assms by (cases "check_and_insert_at (header_gamma G h) t (r_replay_cache r)") simp
  obtain rec nh where u: "u = (rec, nh)" by (cases u)
  let ?r = "r\<lparr>r_replay_cache := c\<rparr>"
  obtain d rng1 where d: "hop_delay gen ln_f ?r rec rng = (d, rng1)" by fastforce
  have "\<exists>o1. process_authentic G gen ln_f t packet h k u r rng = (o1, ?r, rng1) \<and> took_slot o1"
    by (cases d; cases "slice_from (HEADER_LEN G) packet")
      (simp_all add: process_authentic_def c u d Let_def took_slot_route, simp_all add: took_slot_def)
  with that c show thesis by auto
qed

subsection \<open>Histories\<close>

text \<open>The packets a relay is given, each with the readings of the clock at its two checks.\<close>

fun relay_run :: "('h, 'k) gotham \<Rightarrow> ('g \<Rightarrow> f64 \<times> 'g) \<Rightarrow> (f64 \<Rightarrow> f64) \<Rightarrow> (instant \<times> instant \<times> bytes) list
    \<Rightarrow> relay \<Rightarrow> 'g \<Rightarrow> process_outcome option list \<times> relay \<times> 'g" where
  "relay_run G gen ln_f [] r rng = ([], r, rng)"
| "relay_run G gen ln_f ((t1, t2, packet) # ops) r rng =
     (case process G gen ln_f t1 t2 packet r rng of
        (o1, r1, rng1) \<Rightarrow>
          (case relay_run G gen ln_f ops r1 rng1 of (os, r2, rng2) \<Rightarrow> (o1 # os, r2, rng2)))"

definition slots_taken :: "process_outcome option list \<Rightarrow> nat" where
  "slots_taken os = length (filter took_slot os)"

text \<open>What never changes while packets are processed.\<close>

lemma process_config:
  assumes "gotham_ok G" "process G gen ln_f t1 t2 packet r rng = (o1, r', rng')"
  shows "r_identity_sk r' = r_identity_sk r \<and> r_accept_header_v2 r' = r_accept_header_v2 r \<and>
    r_scheduler r' = r_scheduler r \<and> r_replay_path r' = r_replay_path r"
proof (cases rule: process_cases [OF assms(1), of packet gen ln_f t1 t2 r rng,
      case_names size rate reject authentic])
  case (authentic h k u rl)
  let ?r = "counted G h (r\<lparr>r_rate_limiter := rl\<rparr>)"
  show ?thesis
  proof (cases "fst (check_and_insert_at (header_gamma G h) t2 (r_replay_cache ?r))")
    case Fresh
    from process_authentic_fresh [OF this, of gen ln_f packet k u rng] obtain o2 rng2 c
      where "process_authentic G gen ln_f t2 packet h k u ?r rng = (o2, ?r\<lparr>r_replay_cache := c\<rparr>, rng2)"
      by metis
    then show ?thesis using assms(2) authentic by auto
  next
    case Replay
    from process_authentic_replay [OF this, of gen ln_f packet k u rng] show ?thesis
      using assms(2) authentic by auto
  qed
qed (use assms(2) in auto)

text \<open>The cache is used exactly on authentic, admitted packets, and answers as it does alone.\<close>

lemma process_cache:
  assumes "gotham_ok G" "process G gen ln_f t1 t2 packet r rng = (o1, r', rng')"
  shows "\<not> took_slot o1 \<and> o1 \<noteq> Some (Drop ReplayDrop) \<and> r_replay_cache r' = r_replay_cache r \<or>
    (\<exists>h k u. authentic G (r_identity_sk r) (r_accept_header_v2 r) packet = Some (h, k, u) \<and>
       (took_slot o1 \<and> check_and_insert_at (header_gamma G h) t2 (r_replay_cache r) = (Fresh, r_replay_cache r') \<or>
        o1 = Some (Drop ReplayDrop) \<and>
        check_and_insert_at (header_gamma G h) t2 (r_replay_cache r) = (Replay, r_replay_cache r')))"
proof (cases rule: process_cases [OF assms(1), of packet gen ln_f t1 t2 r rng,
      case_names size rate reject authentic])
  case (authentic h k u rl)
  let ?r = "counted G h (r\<lparr>r_rate_limiter := rl\<rparr>)"
  obtain a c where c: "check_and_insert_at (header_gamma G h) t2 (r_replay_cache r) = (a, c)" by fastforce
  show ?thesis
  proof (cases a)
    case Fresh
    then have "fst (check_and_insert_at (header_gamma G h) t2 (r_replay_cache ?r)) = Fresh" by (simp add: c)
    then obtain o2 rng2 where "process_authentic G gen ln_f t2 packet h k u ?r rng =
        (o2, ?r\<lparr>r_replay_cache := c\<rparr>, rng2)" "took_slot o2"
      using process_authentic_fresh [of G h t2 ?r gen ln_f packet k u rng] c by auto
    then show ?thesis using assms(2) authentic c Fresh by auto
  next
    case Replay
    then have "fst (check_and_insert_at (header_gamma G h) t2 (r_replay_cache ?r)) = Replay" by (simp add: c)
    from process_authentic_replay [OF this, of gen ln_f packet k u rng] show ?thesis
      using assms(2) authentic c Replay by auto
  qed
qed (use assms(2) in \<open>auto simp: rejects_def took_slot_def\<close>)

lemma run_cache:
  assumes "gotham_ok G" "relay_run G gen ln_f ops r rng = (os, r', rng')"
  shows "\<exists>kops rs. check_run kops (r_replay_cache r) = (rs, r_replay_cache r') \<and>
    (\<forall>(k, t)\<in>set kops. \<exists>t1 p. (t1, t, p) \<in> set ops) \<and> fresh_count rs = slots_taken os"
  using assms(2)
proof (induction ops arbitrary: r rng os)
  case Nil
  then show ?case by (intro exI [of _ "[]"]) (auto simp: fresh_count_def slots_taken_def)
next
  case (Cons op ops)
  obtain t1 t2 p where op: "op = (t1, t2, p)" by (cases op)
  obtain o1 r1 rng1 where s: "process G gen ln_f t1 t2 p r rng = (o1, r1, rng1)"
    by (metis prod_cases3)
  obtain os1 where run: "relay_run G gen ln_f ops r1 rng1 = (os1, r', rng')" and os: "os = o1 # os1"
    using Cons.prems by (auto simp: op s split: prod.splits)
  from Cons.IH [OF run] obtain kops rs
    where IH: "check_run kops (r_replay_cache r1) = (rs, r_replay_cache r')"
      "\<forall>(k, t)\<in>set kops. \<exists>t1 p. (t1, t, p) \<in> set ops" "fresh_count rs = slots_taken os1" by blast
  from process_cache [OF assms(1) s] show ?case
  proof
    assume "\<not> took_slot o1 \<and> o1 \<noteq> Some (Drop ReplayDrop) \<and> r_replay_cache r1 = r_replay_cache r"
    with IH show ?thesis
      by (intro exI [of _ kops] exI [of _ rs]) (fastforce simp: os slots_taken_def)
  next
    assume "\<exists>h k u. authentic G (r_identity_sk r) (r_accept_header_v2 r) p = Some (h, k, u) \<and>
       (took_slot o1 \<and> check_and_insert_at (header_gamma G h) t2 (r_replay_cache r) = (Fresh, r_replay_cache r1) \<or>
        o1 = Some (Drop ReplayDrop) \<and>
        check_and_insert_at (header_gamma G h) t2 (r_replay_cache r) = (Replay, r_replay_cache r1))"
    then obtain h a where a: "check_and_insert_at (header_gamma G h) t2 (r_replay_cache r) = (a, r_replay_cache r1)"
      "a = Fresh \<longleftrightarrow> took_slot o1" by (auto simp: took_slot_def)
    show ?thesis
    proof (intro exI conjI)
      show "check_run ((header_gamma G h, t2) # kops) (r_replay_cache r) = (a # rs, r_replay_cache r')"
        using a IH by simp
      show "\<forall>(k, t)\<in>set ((header_gamma G h, t2) # kops). \<exists>t1 p. (t1, t, p) \<in> set (op # ops)"
        using IH(2) by (fastforce simp: op)
      show "fresh_count (a # rs) = slots_taken os"
        using a IH by (simp add: os fresh_count_def slots_taken_def)
    qed
  qed
qed

lemma authentic_header:
  "take (HEADER_LEN G) p = take (HEADER_LEN G) q \<Longrightarrow> authentic G sk v2 p = authentic G sk v2 q"
  by (simp add: authentic_def)

lemma relay_run_config:
  assumes "gotham_ok G" "relay_run G gen ln_f ops r rng = (os, r', rng')"
  shows "r_identity_sk r' = r_identity_sk r \<and> r_accept_header_v2 r' = r_accept_header_v2 r \<and>
    r_scheduler r' = r_scheduler r"
  using assms(2)
proof (induction ops arbitrary: r rng os)
  case (Cons op ops)
  obtain t1 t2 p where op: "op = (t1, t2, p)" by (cases op)
  obtain o1 r1 rng1 where s: "process G gen ln_f t1 t2 p r rng = (o1, r1, rng1)"
    by (metis prod_cases3)
  obtain os1 where "relay_run G gen ln_f ops r1 rng1 = (os1, r', rng')"
    using Cons.prems by (auto simp: op s split: prod.splits)
  from Cons.IH [OF this] process_config [OF assms(1) s] show ?case by simp
qed simp

text \<open>Replay protection of the whole handler: once a packet has been accepted as new at
  \<open>ts\<close>, a packet with the same header (whatever its payload) offered while the clock of
  the cache is within the time to live is dropped, as a replay or by the rate limiter, as long as
  fewer than \<open>max_size\<close> packets were accepted as new in between. Forged, malformed and throttled
  packets in between, however many, do not count.\<close>

lemma relay_replay_protection:
  assumes "gotham_ok G" "rc_inv (r_replay_cache r)"
    and "process G gen ln_f tr ts p r rng = (out, r', rng')" "took_slot out"
    and "relay_run G gen ln_f ops r' rng' = (os, r'', rng'')"
    and "\<forall>(tq, t, q)\<in>set ops. t \<le> ts + int (rc_ttl (r_replay_cache r))"
    and "now \<le> ts + int (rc_ttl (r_replay_cache r))"
    and "slots_taken os < rc_max_size (r_replay_cache r)"
    and "take (HEADER_LEN G) q = take (HEADER_LEN G) p" "length q = PACKET_SIZE G"
  shows "fst (process G gen ln_f tq now q r'' rng'') \<in> {Some (Drop ReplayDrop), Some (Drop RateLimited)}"
proof -
  from process_cache [OF assms(1,3)] assms(4) obtain h k u
    where h: "authentic G (r_identity_sk r) (r_accept_header_v2 r) p = Some (h, k, u)"
      "check_and_insert_at (header_gamma G h) ts (r_replay_cache r) = (Fresh, r_replay_cache r')"
    by (auto simp: took_slot_def)
  from run_cache [OF assms(1,5)] obtain kops rs
    where k: "check_run kops (r_replay_cache r') = (rs, r_replay_cache r'')"
      "\<forall>(k, t)\<in>set kops. \<exists>t1 p. (t1, t, p) \<in> set ops" "fresh_count rs = slots_taken os" by blast
  have "t \<le> ts + int (rc_ttl (r_replay_cache r))" if "(k', t) \<in> set kops" for k' t
    using k(2) that assms(6) by fastforce
  then have rep: "fst (check_and_insert_at (header_gamma G h) now (r_replay_cache r'')) = Replay"
    using assms(8) k(3) by (intro rc.guarded_run [OF assms(2) h(2) k(1) _ assms(7)]) auto
  have aq: "authentic G (r_identity_sk r'') (r_accept_header_v2 r'') q = Some (h, k, u)"
    using h(1) authentic_header [OF assms(9)] process_config [OF assms(1,3)] relay_run_config [OF assms(1,5)] by simp
  show ?thesis
  proof (cases rule: process_cases [OF assms(1), of q gen ln_f tq now r'' rng'',
      case_names size rate reject authentic])
    case (authentic h' k' u' rl)
    moreover have "h' = h" using authentic(3) aq by simp
    ultimately show ?thesis
      using process_authentic_replay [of G h now "counted G h (r''\<lparr>r_rate_limiter := rl\<rparr>)"
          gen ln_f q k' u' rng''] rep by simp
  qed (use assms(10) aq in auto)
qed

text \<open>
  An instance of the packet crate for the examples: packets of four bytes, a header of two bytes
  that is its own integrity tag, odd first bytes failing authentication, the last hop marked by a
  zero second byte, and a payload cipher that complements every byte.
\<close>

definition toy_record :: "bytes \<Rightarrow> hop_record" where
  "toy_record h =
     \<lparr>hr_delay_micros = 5, hr_next_ipv4 = [10, 0, 0, 1], hr_next_port = 9001,
      hr_next_node_id = [h ! 1], hr_is_last_hop = (h ! 1 = 0), hr_is_via_rendezvous = False\<rparr>"

definition toy_gotham :: "(bytes, unit) gotham" where
  "toy_gotham =
     \<lparr>PACKET_SIZE = 4, HEADER_LEN = 2, VERSION_LEGACY = 2,
      header_decode = Some, header_encode = (\<lambda>h. [h ! 0, h ! 1]),
      header_version = (\<lambda>h. if h ! 0 = 8 then 2 else 3), header_alpha = (\<lambda>h. h), header_gamma = (\<lambda>h. h),
      x25519 = (\<lambda>sk a. a), public_key = (\<lambda>sk. sk), derive_hop_subkeys = (\<lambda>s. Some ()),
      unwrap_header = (\<lambda>h k. if odd (h ! 0) then Inl GBadMac else Inr (toy_record h, h)),
      k_payload = (\<lambda>_. []), lioness_decrypt = (\<lambda>k p. map (\<lambda>b. not b) p)\<rparr>"

lemma toy_gotham_ok: "gotham_ok toy_gotham"
  by (simp add: gotham_ok_def toy_gotham_def)

definition toy_relay :: relay where
  "toy_relay = relay_new [77] 3 60 0 0 0"

lemmas process_eval = process_def process_header_def process_authentic_def admit_version_def route_def
  fill_packet_def hop_delay_def slice_to_def slice_from_def identity_public_key_def is_allowed_def
  toy_gotham_def toy_record_def toy_relay_def relay_new_def rl_unlimited_def rl_new_def f_max_def
  rl_check_at_def quota_guard_def MAX_HOP_DELAY_def time_simps took_slot_def slots_taken_def

lemma process_authentic_outcome:
  assumes "process_authentic G gen ln_f t packet h k u r rng = (o1, r', rng')"
  shows "took_slot o1 \<or> o1 = Some (Drop ReplayDrop)"
proof (cases "fst (check_and_insert_at (header_gamma G h) t (r_replay_cache r))")
  case Fresh
  from process_authentic_fresh [OF this, of gen ln_f packet k u rng] assms show ?thesis by force
next
  case Replay
  from process_authentic_replay [OF this, of gen ln_f packet k u rng] assms show ?thesis by simp
qed

text \<open>A packet that does not authenticate (undecodable or refused header, failed key derivation,
  bad integrity tag) is dropped, and neither the replay cache nor the random generator notices it:
  forged traffic cannot push entries out of the replay window.\<close>

lemma forged_leaves_cache:
  assumes "gotham_ok G" "authentic G (r_identity_sk r) (r_accept_header_v2 r) p = None"
    and "process G gen ln_f t1 t2 p r rng = (out, r', rng')"
  shows "out \<in> {Some (Drop BadMac), Some (Drop Malformed), Some (Drop RateLimited)} \<and>
    r_replay_cache r' = r_replay_cache r \<and> rng' = rng"
  by (cases rule: process_cases [OF assms(1), of p gen ln_f t1 t2 r rng])
    (use assms in \<open>auto simp: rejects_def\<close>)

text \<open>A packet of the wrong size, or one over the rate limit, leaves the relay exactly as it was:
  it costs no tokens, no quota and no cache slot.\<close>

lemma refused_leaves_relay:
  assumes "gotham_ok G" "process G gen ln_f t1 t2 p r rng = (out, r', rng')"
    and "length p \<noteq> PACKET_SIZE G \<or> out = Some (Drop RateLimited)"
  shows "r' = r \<and> rng' = rng \<and> out \<in> {Some (Drop Malformed), Some (Drop RateLimited)}"
proof (cases rule: process_cases [OF assms(1), of p gen ln_f t1 t2 r rng,
    case_names size rate reject authentic])
  case (authentic h k u rl)
  with assms(2) have "out \<noteq> Some (Drop RateLimited)"
    using process_authentic_outcome [of G gen ln_f t2 p h k u] by (fastforce simp: took_slot_def)
  with authentic assms(3) show ?thesis by simp
qed (use assms in \<open>auto simp: rejects_def\<close>)

text \<open>The delay of a hop: the sender's choice capped at thirty seconds, or the relay's own sample.\<close>

lemma hop_delay_ok:
  assumes "unit_samples gen" "ln_is_number ln_f" "r_scheduler r = ps_new mean" "unat mean \<le> 2 ^ 33"
  obtains d rng' where "hop_delay gen ln_f r rec rng = (Some d, rng')"
    "d \<le> max MAX_HOP_DELAY (100 * from_micros (unat mean))"
proof (cases "hr_delay_micros rec = 0")
  case True
  obtain d where d: "fst (next_delay gen ln_f (ps_new mean) rng) = Some d" "d \<le> 100 * from_micros (unat mean)"
    using next_delay_ok [OF assms(1,2), of mean rng] assms(4) by blast
  then have "hop_delay gen ln_f r rec rng = (Some d, snd (next_delay gen ln_f (ps_new mean) rng))"
    using True assms(3) by (simp add: hop_delay_def prod_eq_iff)
  with d that show thesis by (simp add: le_max_iff_disj)
next
  case False
  then show thesis using that by (simp add: hop_delay_def)
qed

text \<open>The shape of what a call returns: no panic, full-size packets, bounded delays, and never a
  packet for the relay itself.\<close>

definition outcome_ok :: "('h, 'k) gotham \<Rightarrow> relay \<Rightarrow> duration \<Rightarrow> process_outcome option \<Rightarrow> bool" where
  "outcome_ok G r max_delay o1 =
     (case o1 of
        None \<Rightarrow> False
      | Some (Drop _) \<Rightarrow> True
      | Some (Forward addr node_id delay via packet) \<Rightarrow>
          length packet = PACKET_SIZE G \<and> node_id \<noteq> identity_public_key G r \<and> delay \<le> max_delay
      | Some (DeliverLocal delay payload) \<Rightarrow>
          length payload = PACKET_SIZE G - HEADER_LEN G \<and> delay \<le> max_delay)"

lemma route_ok:
  assumes "gotham_ok G" "length payload = PACKET_SIZE G - HEADER_LEN G" "d \<le> max_delay"
  shows "outcome_ok G r max_delay (route G r rec nh d payload)"
  using assms by (auto simp: outcome_ok_def route_def fill_packet_def gotham_ok_def)

text \<open>The handler is total and well behaved: whatever the packet, the state and the clock, it
  returns; a forwarded packet has the full packet size and is never addressed to the relay itself; a
  delivered payload is the packet without its header; every delay is at most the larger of thirty
  seconds and a hundred times the relay's mean.\<close>

lemma process_total:
  assumes "gotham_ok G" "unit_samples gen" "ln_is_number ln_f"
    and "r_scheduler r = ps_new mean" "unat mean \<le> 2 ^ 33"
  shows "outcome_ok G r (max MAX_HOP_DELAY (100 * from_micros (unat mean)))
    (fst (process G gen ln_f t1 t2 packet r rng))"
proof (cases rule: process_cases [OF assms(1), of packet gen ln_f t1 t2 r rng,
    case_names size rate reject authentic])
  case (authentic h k u rl)
  let ?r = "counted G h (r\<lparr>r_rate_limiter := rl\<rparr>)"
  obtain a c where c: "check_and_insert_at (header_gamma G h) t2 (r_replay_cache r) = (a, c)" by fastforce
  show ?thesis
  proof (cases a)
    case Fresh
    let ?r1 = "?r\<lparr>r_replay_cache := c\<rparr>"
    obtain rec nh where u: "u = (rec, nh)" by (cases u)
    obtain d rng' where d: "hop_delay gen ln_f ?r1 rec rng = (Some d, rng')"
      "d \<le> max MAX_HOP_DELAY (100 * from_micros (unat mean))"
      using hop_delay_ok [OF assms(2,3) _ assms(5), of ?r1 rec rng] assms(4) by auto
    let ?body = "drop (HEADER_LEN G) packet"
    have "slice_from (HEADER_LEN G) packet = Some ?body" "length ?body = PACKET_SIZE G - HEADER_LEN G"
      using assms(1) authentic(1) by (simp_all add: slice_from_def gotham_ok_def)
    then have "outcome_ok G ?r1 (max MAX_HOP_DELAY (100 * from_micros (unat mean)))
        (fst (process G gen ln_f t1 t2 packet r rng))"
      using authentic(4) c Fresh u d assms(1)
      by (simp add: process_authentic_def Let_def route_ok gotham_ok_def)
    then show ?thesis
      by (simp add: outcome_ok_def identity_public_key_def split: option.splits process_outcome.splits)
  next
    case Replay
    then show ?thesis using authentic c by (simp add: process_authentic_def outcome_ok_def)
  qed
qed (auto simp: outcome_ok_def rejects_def)

text \<open>Strict mode: a relay that refuses legacy headers drops every packet with one, before any
  cryptography, and does not count it.\<close>

lemma strict_refuses_legacy:
  assumes "gotham_ok G" "header_decode G (take (HEADER_LEN G) packet) = Some h"
    and "header_version G h = VERSION_LEGACY G"
    and "process G gen ln_f t1 t2 packet (strict_header_v3 r) rng = (out, r', rng')"
  shows "out \<in> {Some (Drop Malformed), Some (Drop RateLimited)} \<and>
    r_replay_cache r' = r_replay_cache r \<and> r_v2_accepted r' = r_v2_accepted r \<and> rng' = rng"
proof -
  obtain d rl where d: "rl_check_at (length packet) t1 (r_rate_limiter r) = (d, rl)" by fastforce
  have "HEADER_LEN G \<le> PACKET_SIZE G" using assms(1) by (simp add: gotham_ok_def)
  with assms(2-4) d show ?thesis
    by (auto simp: process_def strict_header_v3_def slice_to_def process_header_def admit_version_def Let_def
        split: if_splits)
qed

subsection \<open>Throughput of the whole relay\<close>

definition passed :: "process_outcome option \<Rightarrow> bool" where
  "passed o1 = (case o1 of None \<Rightarrow> False | Some o2 \<Rightarrow> \<not> is_drop o2)"

definition passed_count :: "process_outcome option list \<Rightarrow> nat" where
  "passed_count os = length (filter passed os)"

text \<open>The packets of a history that reach the rate limiter.\<close>

definition rate_ops :: "('h, 'k) gotham \<Rightarrow> (instant \<times> instant \<times> bytes) list \<Rightarrow> (nat \<times> instant) list" where
  "rate_ops G ops = map (\<lambda>(t1, t2, p). (length p, t1)) (filter (\<lambda>(t1, t2, p). length p = PACKET_SIZE G) ops)"

lemma process_authentic_state:
  obtains o1 c rng' where
    "process_authentic G gen ln_f t packet h k u r rng = (o1, r\<lparr>r_replay_cache := c\<rparr>, rng')"
proof (cases "fst (check_and_insert_at (header_gamma G h) t (r_replay_cache r))")
  case Fresh
  from process_authentic_fresh [OF this, of gen ln_f packet k u rng] that show thesis by blast
next
  case Replay
  from process_authentic_replay [OF this, of gen ln_f packet k u rng] that show thesis by blast
qed

lemma process_rate:
  assumes "gotham_ok G" "process G gen ln_f t1 t2 packet r rng = (o1, r', rng')"
  shows "if length packet = PACKET_SIZE G
    then rl_check_at (length packet) t1 (r_rate_limiter r) =
        (fst (rl_check_at (length packet) t1 (r_rate_limiter r)), r_rate_limiter r') \<and>
      (passed o1 \<longrightarrow> fst (rl_check_at (length packet) t1 (r_rate_limiter r)) = Allow)
    else r_rate_limiter r' = r_rate_limiter r \<and> \<not> passed o1"
proof (cases rule: process_cases [OF assms(1), of packet gen ln_f t1 t2 r rng,
    case_names size rate reject authentic])
  case size
  then show ?thesis using assms(2) by (simp add: passed_def is_drop_def)
next
  case (rate reason)
  then show ?thesis
    using assms(2) rl.throttle_same [OF rate(2)]
    by (auto simp: passed_def is_drop_def prod_eq_iff)
next
  case (authentic h k u rl)
  let ?r = "counted G h (r\<lparr>r_rate_limiter := rl\<rparr>)"
  obtain o2 c rng2 where "process_authentic G gen ln_f t2 packet h k u ?r rng = (o2, ?r\<lparr>r_replay_cache := c\<rparr>, rng2)"
    by (rule process_authentic_state)
  then show ?thesis using assms(2) authentic by auto
qed (use assms(2) in auto)

lemma run_rate:
  assumes "gotham_ok G" "relay_run G gen ln_f ops r rng = (os, r', rng')"
  shows "passed_count os \<le> allowed_count (fst (rl_run (rate_ops G ops) (r_rate_limiter r)))"
  using assms(2)
proof (induction ops arbitrary: r rng os)
  case (Cons op ops)
  obtain t1 t2 p where op: "op = (t1, t2, p)" by (cases op)
  obtain o1 r1 rng1 where s: "process G gen ln_f t1 t2 p r rng = (o1, r1, rng1)"
    by (metis prod_cases3)
  obtain os1 where run: "relay_run G gen ln_f ops r1 rng1 = (os1, r', rng')" and os: "os = o1 # os1"
    using Cons.prems by (auto simp: op s split: prod.splits)
  obtain d where d: "length p = PACKET_SIZE G \<Longrightarrow>
      rl_check_at (length p) t1 (r_rate_limiter r) = (d, r_rate_limiter r1) \<and> (passed o1 \<longrightarrow> d = Allow)"
    using process_rate [OF assms(1) s] by (cases "length p = PACKET_SIZE G") auto
  show ?case
  proof (cases "length p = PACKET_SIZE G")
    case True
    with d Cons.IH [OF run] show ?thesis
      by (auto simp: op os rate_ops_def passed_count_def allowed_count_def is_allowed_def case_prod_beta)
  next
    case False
    with process_rate [OF assms(1) s] Cons.IH [OF run] show ?thesis
      by (simp add: op os rate_ops_def passed_count_def)
  qed
qed (simp add: passed_count_def)

lemma rate_ops_times:
  "(n, t) \<in> set (rate_ops G ops) \<Longrightarrow> \<exists>t2 p. (t, t2, p) \<in> set ops"
  by (auto simp: rate_ops_def)

text \<open>C16. The operator's byte budget binds the whole relay: whatever packets arrive, the packets it
  forwards or delivers, at their size on the wire, stay within the daily budget for every started
  window of 24 hours.\<close>

theorem relay_quota:
  fixes max_bytes :: u64
  assumes "gotham_ok G" "0 < max_bytes" "max_bytes < - 1"
    and "relay_run G gen ln_f ops (with_rate_limit max_pps max_bytes tr tw r) rng = (os, r', rng')"
    and "\<forall>(t, t2, p)\<in>set ops. t \<le> T"
  shows "passed_count os * unat WIRE_BYTES_PER_PACKET \<le> unat max_bytes * (1 + nat (T - tw) div QUOTA_WINDOW)"
proof -
  let ?rl = "rl_new max_pps max_bytes tr tw" and ?ops = "rate_ops G ops"
  have new: "rl_max_bytes_per_day ?rl = max_bytes" "rl_bytes_used ?rl = 0" "rl_window_start ?rl = tw"
    by (simp_all add: rl_new_def Let_def)
  have "\<forall>op\<in>set ?ops. snd op \<le> T"
    using assms(5) rate_ops_times [of _ _ G ops] by fastforce
  from quota_run [OF rl_new_inv new(1) assms(2,3) this] new
  have "allowed_count (fst (rl_run ?ops ?rl)) * 2064 \<le> unat max_bytes * (1 + nat (T - tw) div QUOTA_WINDOW)"
    by simp
  moreover have "passed_count os * 2064 \<le> allowed_count (fst (rl_run ?ops ?rl)) * 2064"
    using run_rate [OF assms(1,4)] by (simp add: with_rate_limit_def)
  ultimately show ?thesis unfolding WIRE_BYTES_PER_PACKET_def by simp
qed

theorem relay_quota_witness:
  "passed_count (fst (relay_run toy_gotham (\<lambda>g. (Fin 0, g)) (\<lambda>u. u) [(0, 0, [4, 0, 1, 2]), (1, 1, [6, 0, 1, 2])]
      (with_rate_limit (Fin 0) 3000 0 0 toy_relay) ())) * unat WIRE_BYTES_PER_PACKET
    \<le> unat (3000 :: u64) * (1 + nat (1 - 0) div QUOTA_WINDOW)"
proof -
  obtain os r' rng' where run: "relay_run toy_gotham (\<lambda>g. (Fin 0, g)) (\<lambda>u. u)
      [(0, 0, [4, 0, 1, 2]), (1, 1, [6, 0, 1, 2])] (with_rate_limit (Fin 0) 3000 0 0 toy_relay) () = (os, r', rng')"
    by (metis prod_cases3)
  have "(3000 :: u64) < - 1" by (simp add: word_less_nat_alt unsigned_minus_1_eq_mask mask_eq_exp_minus_1)
  from relay_quota [OF toy_gotham_ok _ this run, of 1] run show ?thesis by simp
qed

end
