(* ===== verification/Noise_Frames.thy ===== *)
theory Noise_Frames
  imports Byte_Codec
begin

section \<open>Streams, Noise messages and frames\<close>

text \<open>
  \<^verbatim>\<open>crypto-gotham-relay/src/transport.rs\<close>, the wire protocol inside a QUIC stream: the
  length-prefixed handshake messages, the fixed-size packet frames, the length-prefixed Noise
  messages and the blobs cut into Noise messages.

  One end of a connection is the record \<open>link\<close>: the Noise state, the bytes the peer will have sent,
  whether the peer then finishes or goes silent, and the bytes written so far. An operation is a
  function from a link to a result and the link after it; a read that waits for a silent peer is
  the result \<open>Blocked\<close>. The Noise implementation is the crate \<^verbatim>\<open>snow\<close>, which is the argument \<open>N\<close>.
\<close>

subsection \<open>Results and links\<close>

datatype transport_error =
    TIo io_error
  | TConnect
  | TConnection
  | TWrite
  | TRead
  | TRustls
  | TRcgen
  | TNoise
  | BadHandshake
  | Unreachable duration

datatype 'a res = Ok 'a | Err transport_error | Blocked

datatype stream_end = Finished | Silent

record 'n link =
  lk_noise :: 'n
  lk_in :: bytes
  lk_end :: stream_end
  lk_out :: bytes
  lk_writes :: "nat option"

text \<open>
  \<open>lk_writes\<close> is the number of writes after which the connection is lost, if ever. Sequencing stops
  at the first result that is not \<open>Ok\<close>, as the operator \<^verbatim>\<open>?\<close> does.
\<close>

definition ret :: "'a \<Rightarrow> 's \<Rightarrow> 'a res \<times> 's" where
  "ret a s = (Ok a, s)"

definition fail :: "transport_error \<Rightarrow> 's \<Rightarrow> 'a res \<times> 's" where
  "fail e s = (Err e, s)"

definition andthen :: "('s \<Rightarrow> 'a res \<times> 's) \<Rightarrow> ('a \<Rightarrow> 's \<Rightarrow> 'b res \<times> 's) \<Rightarrow> 's \<Rightarrow> 'b res \<times> 's" where
  "andthen m f s =
     (case m s of
        (Ok a, s') \<Rightarrow> f a s'
      | (Err e, s') \<Rightarrow> (Err e, s')
      | (Blocked, s') \<Rightarrow> (Blocked, s'))"

text \<open>\<^verbatim>\<open>RecvStream::read_exact\<close>, the same under a timeout, and \<^verbatim>\<open>SendStream::write_all\<close>.\<close>

definition read_exact :: "nat \<Rightarrow> 'n link \<Rightarrow> bytes res \<times> 'n link" where
  "read_exact n s =
     (if n \<le> length (lk_in s) then (Ok (take n (lk_in s)), s\<lparr>lk_in := drop n (lk_in s)\<rparr>)
      else (case lk_end s of Finished \<Rightarrow> Err TRead | Silent \<Rightarrow> Blocked, s\<lparr>lk_in := []\<rparr>))"

definition timed :: "('s \<Rightarrow> 'a res \<times> 's) \<Rightarrow> 's \<Rightarrow> 'a res \<times> 's" where
  "timed m s = (case m s of (Blocked, s') \<Rightarrow> (Err BadHandshake, s') | r \<Rightarrow> r)"

definition write_all :: "bytes \<Rightarrow> 'n link \<Rightarrow> unit res \<times> 'n link" where
  "write_all bs s =
     (case lk_writes s of
        None \<Rightarrow> (Ok (), s\<lparr>lk_out := lk_out s @ bs\<rparr>)
      | Some 0 \<Rightarrow> (Err TWrite, s)
      | Some (Suc k) \<Rightarrow> (Ok (), s\<lparr>lk_out := lk_out s @ bs, lk_writes := Some k\<rparr>))"

subsection \<open>What the Noise crate provides\<close>

text \<open>
  \<^verbatim>\<open>write_message(payload, buf)\<close> and \<^verbatim>\<open>read_message(message, buf)\<close> of a transport state, with the
  size of the buffer; they fail when the buffer is too small or the message does not authenticate.
\<close>

record 'n noise =
  n_write :: "'n \<Rightarrow> bytes \<Rightarrow> nat \<Rightarrow> (bytes \<times> 'n) option"
  n_read :: "'n \<Rightarrow> bytes \<Rightarrow> nat \<Rightarrow> (bytes \<times> 'n) option"

definition noise_write :: "'n noise \<Rightarrow> bytes \<Rightarrow> nat \<Rightarrow> 'n link \<Rightarrow> bytes res \<times> 'n link" where
  "noise_write N msg cap s =
     (case n_write N (lk_noise s) msg cap of
        None \<Rightarrow> (Err TNoise, s)
      | Some (c, n) \<Rightarrow> (Ok c, s\<lparr>lk_noise := n\<rparr>))"

definition noise_read :: "'n noise \<Rightarrow> bytes \<Rightarrow> nat \<Rightarrow> 'n link \<Rightarrow> bytes res \<times> 'n link" where
  "noise_read N msg cap s =
     (case n_read N (lk_noise s) msg cap of
        None \<Rightarrow> (Err TNoise, s)
      | Some (m, n) \<Rightarrow> (Ok m, s\<lparr>lk_noise := n\<rparr>))"

subsection \<open>Constants and frames\<close>

definition NOISE_TAG_LEN :: nat where
  "NOISE_TAG_LEN = 16"

definition NOISE_CHUNK :: nat where
  "NOISE_CHUNK = 32 * 1024"

definition MAX_GOSSIP_FRAME :: nat where
  "MAX_GOSSIP_FRAME = 4 * 1024 * 1024"

definition MAX_HANDSHAKE_MSG :: nat where
  "MAX_HANDSHAKE_MSG = 1024"

text \<open>The packet size is a constant of the packet crate and an argument here.\<close>

definition FRAME_LEN :: "nat \<Rightarrow> nat" where
  "FRAME_LEN packet_size = packet_size + NOISE_TAG_LEN"

definition write_handshake_msg :: "bytes \<Rightarrow> 'n link \<Rightarrow> unit res \<times> 'n link" where
  "write_handshake_msg msg =
     (if length msg > MAX_HANDSHAKE_MSG then fail BadHandshake
      else andthen (write_all (u16_to_be_bytes (of_nat (length msg)))) (\<lambda>_. write_all msg))"

definition read_handshake_msg :: "'n link \<Rightarrow> bytes res \<times> 'n link" where
  "read_handshake_msg =
     andthen (timed (read_exact 2)) (\<lambda>len_bytes.
       let len = unat (u16_from_be_bytes len_bytes) in
       if len > MAX_HANDSHAKE_MSG then fail BadHandshake
       else timed (read_exact len))"

text \<open>The frame buffer starts zeroed and the whole of it is sent.\<close>

definition write_noise_frame :: "'n noise \<Rightarrow> nat \<Rightarrow> bytes \<Rightarrow> 'n link \<Rightarrow> unit res \<times> 'n link" where
  "write_noise_frame N packet_size packet =
     (if length packet \<noteq> packet_size then fail BadHandshake
      else andthen (noise_write N packet (FRAME_LEN packet_size)) (\<lambda>c.
        write_all (c @ replicate (FRAME_LEN packet_size - length c) 0)))"

definition read_noise_frame :: "'n noise \<Rightarrow> nat \<Rightarrow> 'n link \<Rightarrow> bytes res \<times> 'n link" where
  "read_noise_frame N packet_size =
     andthen (read_exact (FRAME_LEN packet_size)) (\<lambda>frame.
     andthen (noise_read N frame packet_size) (\<lambda>p.
     ret (p @ replicate (packet_size - length p) 0)))"

definition write_one_noise_msg :: "'n noise \<Rightarrow> bytes \<Rightarrow> 'n link \<Rightarrow> unit res \<times> 'n link" where
  "write_one_noise_msg N msg =
     andthen (noise_write N msg (length msg + NOISE_TAG_LEN)) (\<lambda>c.
       if length c \<ge> 2 ^ 16 then fail BadHandshake
       else andthen (write_all (u16_to_be_bytes (of_nat (length c)))) (\<lambda>_. write_all c))"

text \<open>Appends one message to \<open>out\<close>; the result is the vector after and the bytes added.\<close>

definition read_one_noise_msg :: "'n noise \<Rightarrow> bytes \<Rightarrow> 'n link \<Rightarrow> (bytes \<times> nat) res \<times> 'n link" where
  "read_one_noise_msg N out =
     andthen (read_exact 2) (\<lambda>len_bytes.
       let clen = unat (u16_from_be_bytes len_bytes) in
       if \<not> (NOISE_TAG_LEN + 1 \<le> clen \<and> clen \<le> NOISE_CHUNK + NOISE_TAG_LEN) then fail BadHandshake
       else
         andthen (read_exact clen) (\<lambda>cbuf.
         andthen (noise_read N cbuf clen) (\<lambda>m.
         ret (out @ m, length m))))"

fun write_chunks :: "'n noise \<Rightarrow> bytes list \<Rightarrow> 'n link \<Rightarrow> unit res \<times> 'n link" where
  "write_chunks N [] = ret ()"
| "write_chunks N (c # cs) = andthen (write_one_noise_msg N c) (\<lambda>_. write_chunks N cs)"

text \<open>The largest mailbox frame is a constant of the packet crate and an argument here.\<close>

definition write_noise_blob :: "'n noise \<Rightarrow> nat \<Rightarrow> bytes \<Rightarrow> 'n link \<Rightarrow> unit res \<times> 'n link" where
  "write_noise_blob N max_mailbox_frame blob =
     (if length blob > max_mailbox_frame then fail BadHandshake
      else andthen (write_one_noise_msg N (u32_to_be_bytes (of_nat (length blob)))) (\<lambda>_.
        write_chunks N (chunks NOISE_CHUNK blob)))"

function read_chunks :: "'n noise \<Rightarrow> nat \<Rightarrow> bytes \<Rightarrow> 'n link \<Rightarrow> bytes res \<times> 'n link" where
  "read_chunks N want out s =
     (if \<not> length out < want then (Ok out, s)
      else
        case read_one_noise_msg N out s of
          (Err e, s') \<Rightarrow> (Err e, s')
        | (Blocked, s') \<Rightarrow> (Blocked, s')
        | (Ok (out', n), s') \<Rightarrow>
            if length out' \<le> length out \<or> length out' > want then (Err BadHandshake, s')
            else read_chunks N want out' s')"
  by pat_completeness auto
termination
  by (relation "measure (\<lambda>(N, want, out, s). want - length out)") auto

declare read_chunks.simps [simp del]

definition read_noise_blob_capped :: "'n noise \<Rightarrow> nat \<Rightarrow> 'n link \<Rightarrow> bytes res \<times> 'n link" where
  "read_noise_blob_capped N max_frame =
     andthen (read_one_noise_msg N []) (\<lambda>(header, _).
       if length header \<noteq> 4 then fail BadHandshake
       else
         let n = unat (u32_from_be_bytes header) in
         if n > max_frame then fail BadHandshake
         else read_chunks N n [])"

definition read_noise_blob :: "'n noise \<Rightarrow> nat \<Rightarrow> 'n link \<Rightarrow> bytes res \<times> 'n link" where
  "read_noise_blob N max_mailbox_frame = read_noise_blob_capped N max_mailbox_frame"

subsection \<open>Two ends of one channel\<close>

text \<open>
  What the framing relies on: while the sender's state \<open>a\<close> and the receiver's state \<open>b\<close> are in step,
  a message that fits is encrypted into sixteen more bytes, and decrypting exactly these bytes gives
  the message back and leaves the two ends in step.
\<close>

definition noise_channel :: "'n noise \<Rightarrow> ('n \<Rightarrow> 'n \<Rightarrow> bool) \<Rightarrow> bool" where
  "noise_channel N in_step \<longleftrightarrow>
     (\<forall>a b m cap cap'. in_step a b \<and> length m + NOISE_TAG_LEN \<le> cap \<and> length m + NOISE_TAG_LEN < 2 ^ 16 \<and>
        length m \<le> cap' \<longrightarrow>
        (\<exists>c a' b'. n_write N a m cap = Some (c, a') \<and> length c = length m + NOISE_TAG_LEN \<and>
           n_read N b c cap' = Some (m, b') \<and> in_step a' b'))"

lemma noise_channelE:
  assumes "noise_channel N in_step" "in_step a b" "length m + NOISE_TAG_LEN \<le> cap"
    "length m + NOISE_TAG_LEN < 2 ^ 16" "length m \<le> cap'"
  obtains c a' b' where "n_write N a m cap = Some (c, a')" "length c = length m + NOISE_TAG_LEN"
    "n_read N b c cap' = Some (m, b')" "in_step a' b'"
  using assms unfolding noise_channel_def by blast

lemmas link_simps = Let_def andthen_def ret_def fail_def timed_def noise_write_def noise_read_def

lemma read_exact_prefix:
  "lk_in r = w @ rest \<Longrightarrow> n = length w \<Longrightarrow> read_exact n r = (Ok w, r\<lparr>lk_in := rest\<rparr>)"
  by (simp add: read_exact_def)

lemma write_all_ok: "lk_writes s = None \<Longrightarrow> write_all w s = (Ok (), s\<lparr>lk_out := lk_out s @ w\<rparr>)"
  by (simp add: write_all_def)

lemma length_u16 [simp]: "length (u16_to_be_bytes x) = 2"
  and length_u32 [simp]: "length (u32_to_be_bytes y) = 4"
  by (simp_all add: u16_to_be_bytes_def u32_to_be_bytes_def)

lemma u16_len: "n < 2 ^ 16 \<Longrightarrow> unat (u16_from_be_bytes (u16_to_be_bytes (of_nat n))) = n"
  by (simp add: be16.dec_enc unat_of_nat)

lemma u32_len: "n < 2 ^ 32 \<Longrightarrow> unat (u32_from_be_bytes (u32_to_be_bytes (of_nat n))) = n"
  by (simp add: be32.dec_enc unat_of_nat)

lemma one_msg:
  assumes "noise_channel N in_step" "in_step (lk_noise s) b" "lk_writes s = None"
    and "1 \<le> length m" "length m \<le> NOISE_CHUNK"
  obtains w a' b' where
    "write_one_noise_msg N m s = (Ok (), s\<lparr>lk_noise := a', lk_out := lk_out s @ w\<rparr>)" "in_step a' b'"
    "\<And>r rest out. lk_noise r = b \<Longrightarrow> lk_in r = w @ rest \<Longrightarrow>
       read_one_noise_msg N out r = (Ok (out @ m, length m), r\<lparr>lk_noise := b', lk_in := rest\<rparr>)"
proof -
  have fits: "length m + NOISE_TAG_LEN < 2 ^ 16" using assms(5) by (simp add: NOISE_CHUNK_def NOISE_TAG_LEN_def)
  obtain c a' b' where c: "n_write N (lk_noise s) m (length m + NOISE_TAG_LEN) = Some (c, a')"
    "length c = length m + NOISE_TAG_LEN" "n_read N b c (length m + NOISE_TAG_LEN) = Some (m, b')" "in_step a' b'"
    using noise_channelE [OF assms(1,2) order_refl fits, of "length m + NOISE_TAG_LEN"] by auto
  let ?w = "u16_to_be_bytes (of_nat (length c)) @ c"
  have "write_one_noise_msg N m s = (Ok (), s\<lparr>lk_noise := a', lk_out := lk_out s @ ?w\<rparr>)"
    using c(1,2) fits assms(3) by (simp add: write_one_noise_msg_def link_simps write_all_ok)
  moreover have "read_one_noise_msg N out r = (Ok (out @ m, length m), r\<lparr>lk_noise := b', lk_in := rest\<rparr>)"
    if r: "lk_noise r = b" "lk_in r = ?w @ rest" for r rest out
  proof -
    let ?l = "u16_to_be_bytes (of_nat (length c))"
    have 1: "read_exact 2 r = (Ok ?l, r\<lparr>lk_in := c @ rest\<rparr>)"
      using r by (intro read_exact_prefix) simp_all
    have 2: "unat (u16_from_be_bytes ?l) = length m + NOISE_TAG_LEN" using fits c(2) by (metis u16_len)
    have 3: "read_exact (length m + NOISE_TAG_LEN) (r\<lparr>lk_in := c @ rest\<rparr>) = (Ok c, r\<lparr>lk_in := rest\<rparr>)"
      using c(2) by (subst read_exact_prefix [of _ c rest]) simp_all
    show ?thesis
      using c(3) assms(4,5) r(1) by (simp add: read_one_noise_msg_def link_simps 1 2 3)
  qed
  ultimately show thesis using that c(4) by blast
qed

lemma many_msgs:
  assumes "noise_channel N in_step" "in_step (lk_noise s) b" "lk_writes s = None"
    and "\<forall>c\<in>set cs. 1 \<le> length c \<and> length c \<le> NOISE_CHUNK"
  obtains w a' b' where
    "write_chunks N cs s = (Ok (), s\<lparr>lk_noise := a', lk_out := lk_out s @ w\<rparr>)" "in_step a' b'"
    "\<And>r rest out. lk_noise r = b \<Longrightarrow> lk_in r = w @ rest \<Longrightarrow>
       read_chunks N (length out + length (concat cs)) out r =
         (Ok (out @ concat cs), r\<lparr>lk_noise := b', lk_in := rest\<rparr>)"
  using assms
proof (induction cs arbitrary: s b thesis)
  case Nil
  show ?case
  proof (rule Nil.prems(1) [where w = "[]" and a' = "lk_noise s" and b' = b])
    show "read_chunks N (length out + length (concat [])) out r =
        (Ok (out @ concat []), r\<lparr>lk_noise := b, lk_in := rest\<rparr>)"
      if "lk_noise r = b" "lk_in r = [] @ rest" for r :: "'a link" and rest out
      using that by (subst read_chunks.simps) simp
  qed (use Nil.prems in \<open>simp_all add: ret_def\<close>)
next
  case (Cons c cs)
  have c1: "1 \<le> length c" "length c \<le> NOISE_CHUNK" and c0: "c \<noteq> []" using Cons.prems by auto
  obtain w1 a1 b1 where 1: "write_one_noise_msg N c s = (Ok (), s\<lparr>lk_noise := a1, lk_out := lk_out s @ w1\<rparr>)"
    "in_step a1 b1"
    "\<And>r rest out. lk_noise r = b \<Longrightarrow> lk_in r = w1 @ rest \<Longrightarrow>
       read_one_noise_msg N out r = (Ok (out @ c, length c), r\<lparr>lk_noise := b1, lk_in := rest\<rparr>)"
    using one_msg [OF Cons.prems(2-4) c1] by blast
  let ?s = "s\<lparr>lk_noise := a1, lk_out := lk_out s @ w1\<rparr>"
  obtain w2 a2 b2 where 2: "write_chunks N cs ?s = (Ok (), ?s\<lparr>lk_noise := a2, lk_out := lk_out ?s @ w2\<rparr>)"
    "in_step a2 b2"
    "\<And>r rest out. lk_noise r = b1 \<Longrightarrow> lk_in r = w2 @ rest \<Longrightarrow>
       read_chunks N (length out + length (concat cs)) out r =
         (Ok (out @ concat cs), r\<lparr>lk_noise := b2, lk_in := rest\<rparr>)"
    using Cons.IH [of ?s b1] Cons.prems 1(2) by auto
  show ?case
  proof (rule Cons.prems(1) [where w = "w1 @ w2" and a' = a2 and b' = b2])
    show "write_chunks N (c # cs) s = (Ok (), s\<lparr>lk_noise := a2, lk_out := lk_out s @ w1 @ w2\<rparr>)"
      using 1(1) 2(1) by (simp add: andthen_def)
    show "in_step a2 b2" by (rule 2(2))
    show "read_chunks N (length out + length (concat (c # cs))) out r =
        (Ok (out @ concat (c # cs)), r\<lparr>lk_noise := b2, lk_in := rest\<rparr>)"
      if r: "lk_noise r = b" "lk_in r = (w1 @ w2) @ rest" for r :: "'a link" and rest out
      using c0 1(3) [of r "w2 @ rest" out] 2(3) [of "r\<lparr>lk_noise := b1, lk_in := w2 @ rest\<rparr>" rest "out @ c"] r c1
      by (subst read_chunks.simps) (simp add: add.assoc)
  qed
qed

subsection \<open>Reading makes progress\<close>

lemma read_exact_Ok: "read_exact n s = (Ok bs, s') \<Longrightarrow> length bs = n \<and> length (lk_in s') + n = length (lk_in s)"
  by (auto simp: read_exact_def split: if_splits stream_end.splits)

lemma andthen_Ok:
  assumes "andthen m f s = (Ok b, s')"
  obtains a s1 where "m s = (Ok a, s1)" "f a s1 = (Ok b, s')"
  using assms by (auto simp: andthen_def split: prod.splits res.splits)

lemma noise_read_Ok: "noise_read N c cap s = (Ok m, s') \<Longrightarrow> lk_in s' = lk_in s"
  by (auto simp: noise_read_def split: option.splits)

lemma read_one_progress:
  assumes "read_one_noise_msg N out s = (Ok (out', n), s')"
  shows "length (lk_in s') < length (lk_in s)"
  using assms unfolding read_one_noise_msg_def Let_def
  by (auto elim!: andthen_Ok simp: fail_def ret_def split: if_splits
      dest!: read_exact_Ok noise_read_Ok)

lemma read_chunks_bounds:
  "read_chunks N want out s = (Ok blob, s') \<Longrightarrow> length out \<le> want \<Longrightarrow>
   length blob = want \<and> length (lk_in s') \<le> length (lk_in s)"
proof (induction N want out s rule: read_chunks.induct)
  case (1 N want out s)
  show ?case
  proof (cases "length out < want")
    case True
    obtain out' n s1 where one: "read_one_noise_msg N out s = (Ok (out', n), s1)"
      using 1(2) True by (subst (asm) read_chunks.simps) (auto split: prod.splits res.splits)
    have "\<not> (length out' \<le> length out \<or> want < length out')" "read_chunks N want out' s1 = (Ok blob, s')"
      using 1(2) True one by (subst (asm) read_chunks.simps, simp split: if_splits)+
    with 1(1) [OF _ one [symmetric]] True one read_one_progress [OF one] show ?thesis by force
  next
    case False
    with 1(2,3) show ?thesis by (subst (asm) read_chunks.simps) auto
  qed
qed

lemma read_blob_bounds:
  assumes "read_noise_blob_capped N max_frame s = (Ok blob, s')"
  shows "length blob \<le> max_frame \<and> length (lk_in s') < length (lk_in s)"
proof -
  obtain header n s1 where h: "read_one_noise_msg N [] s = (Ok (header, n), s1)"
    and rest: "unat (u32_from_be_bytes header) \<le> max_frame"
      "read_chunks N (unat (u32_from_be_bytes header)) [] s1 = (Ok blob, s')"
    using assms unfolding read_noise_blob_capped_def Let_def
    by (auto elim!: andthen_Ok simp: fail_def split: if_splits)
  from read_chunks_bounds [OF rest(2)] read_one_progress [OF h] rest(1) show ?thesis by simp
qed

subsection \<open>Properties\<close>

text \<open>
  A Noise implementation for the examples: the state counts messages and the tag repeats the count.
\<close>

definition toy_noise :: "nat noise" where
  "toy_noise =
     \<lparr>n_write = (\<lambda>a m cap. if length m + NOISE_TAG_LEN \<le> cap then Some (m @ replicate NOISE_TAG_LEN (of_nat a), Suc a) else None),
      n_read = (\<lambda>b c cap.
        let m = take (length c - NOISE_TAG_LEN) c in
        if NOISE_TAG_LEN \<le> length c \<and> length m \<le> cap \<and>
           drop (length c - NOISE_TAG_LEN) c = replicate NOISE_TAG_LEN (of_nat b)
        then Some (m, Suc b) else None)\<rparr>"

lemma toy_noise_channel: "noise_channel toy_noise (=)"
  by (simp add: noise_channel_def toy_noise_def)

text \<open>C24. Blobs survive the wire: what \<^verbatim>\<open>write_noise_blob\<close> sends, cut into Noise messages of at most
  32 KiB behind a length header, \<^verbatim>\<open>read_noise_blob_capped\<close> at the other end returns unchanged, for
  every blob up to the frame limit, consuming exactly the bytes sent and leaving the two ends in
  step, whatever follows on the stream.\<close>

theorem blob_roundtrip:
  assumes "noise_channel N in_step" "in_step (lk_noise s) (lk_noise r)" "lk_writes s = None"
    and "length blob \<le> max_mailbox_frame" "max_mailbox_frame \<le> max_frame" "max_mailbox_frame < 2 ^ 32"
  shows "\<exists>w a b. write_noise_blob N max_mailbox_frame blob s = (Ok (), s\<lparr>lk_noise := a, lk_out := lk_out s @ w\<rparr>) \<and>
    in_step a b \<and>
    (\<forall>rest. read_noise_blob_capped N max_frame (r\<lparr>lk_in := w @ rest\<rparr>) = (Ok blob, r\<lparr>lk_noise := b, lk_in := rest\<rparr>))"
proof -
  let ?h = "u32_to_be_bytes (of_nat (length blob))"
  obtain w1 a1 b1 where 1: "write_one_noise_msg N ?h s = (Ok (), s\<lparr>lk_noise := a1, lk_out := lk_out s @ w1\<rparr>)"
    "in_step a1 b1"
    "\<And>r' rest out. lk_noise r' = lk_noise r \<Longrightarrow> lk_in r' = w1 @ rest \<Longrightarrow>
       read_one_noise_msg N out r' = (Ok (out @ ?h, length ?h), r'\<lparr>lk_noise := b1, lk_in := rest\<rparr>)"
    using one_msg [OF assms(1-3), of ?h] by (auto simp: NOISE_CHUNK_def)
  let ?s = "s\<lparr>lk_noise := a1, lk_out := lk_out s @ w1\<rparr>"
  have cs: "\<forall>c\<in>set (chunks NOISE_CHUNK blob). 1 \<le> length c \<and> length c \<le> NOISE_CHUNK"
    using chunks_length [of NOISE_CHUNK _ blob] by (auto simp: NOISE_CHUNK_def Suc_le_eq)
  obtain w2 a2 b2 where 2: "write_chunks N (chunks NOISE_CHUNK blob) ?s = (Ok (), ?s\<lparr>lk_noise := a2, lk_out := lk_out ?s @ w2\<rparr>)"
    "in_step a2 b2"
    "\<And>r rest out. lk_noise r = b1 \<Longrightarrow> lk_in r = w2 @ rest \<Longrightarrow>
       read_chunks N (length out + length (concat (chunks NOISE_CHUNK blob))) out r =
         (Ok (out @ concat (chunks NOISE_CHUNK blob)), r\<lparr>lk_noise := b2, lk_in := rest\<rparr>)"
    using many_msgs [OF assms(1) _ _ cs, of ?s b1] 1(2) assms(3) by auto
  have cc: "concat (chunks NOISE_CHUNK blob) = blob" by (rule concat_chunks) (simp add: NOISE_CHUNK_def)
  have len: "unat (u32_from_be_bytes ?h) = length blob" using assms(4,6) by (intro u32_len) simp
  have "write_noise_blob N max_mailbox_frame blob s = (Ok (), s\<lparr>lk_noise := a2, lk_out := lk_out s @ w1 @ w2\<rparr>)"
    using assms(4) 1(1) 2(1) by (simp add: write_noise_blob_def andthen_def)
  moreover have "read_noise_blob_capped N max_frame (r\<lparr>lk_in := (w1 @ w2) @ rest\<rparr>) = (Ok blob, r\<lparr>lk_noise := b2, lk_in := rest\<rparr>)" for rest
    using 1(3) [of "r\<lparr>lk_in := (w1 @ w2) @ rest\<rparr>" "w2 @ rest" "[]"]
      2(3) [of "r\<lparr>lk_noise := b1, lk_in := w2 @ rest\<rparr>" rest "[]"] len cc assms(4,5)
    by (simp add: read_noise_blob_capped_def andthen_def Let_def)
  ultimately show ?thesis using 2(2) by blast
qed

theorem blob_roundtrip_witness:
  "\<exists>w a b. write_noise_blob toy_noise 100 [1, 2, 3] \<lparr>lk_noise = 5, lk_in = [], lk_end = Finished, lk_out = [], lk_writes = None\<rparr> =
      (Ok (), \<lparr>lk_noise = a, lk_in = [], lk_end = Finished, lk_out = w, lk_writes = None\<rparr>) \<and> a = b \<and>
    (\<forall>rest. read_noise_blob_capped toy_noise 200 \<lparr>lk_noise = 5, lk_in = w @ rest, lk_end = Silent, lk_out = [9], lk_writes = None\<rparr> =
      (Ok [1, 2, 3], \<lparr>lk_noise = b, lk_in = rest, lk_end = Silent, lk_out = [9], lk_writes = None\<rparr>))"
  using blob_roundtrip [OF toy_noise_channel,
      of "\<lparr>lk_noise = 5, lk_in = [], lk_end = Finished, lk_out = [], lk_writes = None\<rparr>"
        "\<lparr>lk_noise = 5, lk_in = [], lk_end = Silent, lk_out = [9], lk_writes = None\<rparr>" "[1, 2, 3]" 100 200] by simp

text \<open>Packets survive the wire: a packet of the packet size is framed into exactly the frame
  length, and the reader returns it and consumes exactly one frame.\<close>

lemma frame_roundtrip:
  assumes "noise_channel N in_step" "in_step (lk_noise s) (lk_noise r)" "lk_writes s = None"
    and "length packet = packet_size" "FRAME_LEN packet_size < 2 ^ 16"
  shows "\<exists>w a b. write_noise_frame N packet_size packet s = (Ok (), s\<lparr>lk_noise := a, lk_out := lk_out s @ w\<rparr>) \<and>
    length w = FRAME_LEN packet_size \<and> in_step a b \<and>
    (\<forall>rest. read_noise_frame N packet_size (r\<lparr>lk_in := w @ rest\<rparr>) = (Ok packet, r\<lparr>lk_noise := b, lk_in := rest\<rparr>))"
proof -
  obtain c a b where c: "n_write N (lk_noise s) packet (FRAME_LEN packet_size) = Some (c, a)"
    "length c = length packet + NOISE_TAG_LEN" "n_read N (lk_noise r) c packet_size = Some (packet, b)" "in_step a b"
    using noise_channelE [OF assms(1,2), of packet "FRAME_LEN packet_size" packet_size] assms(4,5)
    by (auto simp: FRAME_LEN_def)
  have "write_noise_frame N packet_size packet s = (Ok (), s\<lparr>lk_noise := a, lk_out := lk_out s @ c\<rparr>)"
    using c(1,2) assms(3,4) by (simp add: write_noise_frame_def link_simps write_all_ok FRAME_LEN_def)
  moreover have "read_noise_frame N packet_size (r\<lparr>lk_in := c @ rest\<rparr>) = (Ok packet, r\<lparr>lk_noise := b, lk_in := rest\<rparr>)" for rest
    using read_exact_prefix [of "r\<lparr>lk_in := c @ rest\<rparr>" c rest "FRAME_LEN packet_size"] c(2,3) assms(4)
    by (simp add: read_noise_frame_def link_simps FRAME_LEN_def)
  ultimately show ?thesis using c(2,4) assms(4) by (auto simp: FRAME_LEN_def)
qed

text \<open>Whatever a peer sends and whatever the Noise layer accepts, a blob that is returned is no
  longer than the cap, and reading it consumed input, so a connection that serves blobs in a loop
  makes progress with every one.\<close>

lemma blob_capped:
  assumes "read_noise_blob_capped N max_frame s = (Ok blob, s')"
  shows "length blob \<le> max_frame \<and> length (lk_in s') < length (lk_in s)"
  by (rule read_blob_bounds [OF assms])

definition toy_inbox :: "nat link" where
  "toy_inbox =
     \<lparr>lk_noise = 5,
      lk_in = [0, 20, 0, 0, 0, 1] @ replicate 16 5 @ [0, 17, 7] @ replicate 16 6 @ [1],
      lk_end = Silent, lk_out = [], lk_writes = None\<rparr>"

end
