(* ===== verification/Handshake.thy ===== *)
theory Handshake
  imports Noise_Frames
begin

section \<open>Noise handshakes\<close>

text \<open>
  \<^verbatim>\<open>crypto-gotham-relay/src/transport.rs\<close>: the XK handshake between relays, the IK handshake of the
  rendezvous query, the query service and the two probes. The handshake state machine is the crate
  \<^verbatim>\<open>snow\<close>, the argument \<open>H\<close>; opening a QUIC connection and a stream gives a link or an error.
  The theory proves that the framed messages carry a handshake to the same session at both ends, and
  that the query service tells nobody but the authority which relays it hosts.
\<close>

record ('h, 'n) handshake =
  xk_responder :: "bytes \<Rightarrow> 'h option"
  xk_initiator :: "bytes \<Rightarrow> bytes \<Rightarrow> 'h option"
  ik_responder :: "bytes \<Rightarrow> 'h option"
  ik_initiator :: "bytes \<Rightarrow> bytes \<Rightarrow> 'h option"
  hs_write :: "'h \<Rightarrow> nat \<Rightarrow> (bytes \<times> 'h) option"
  hs_read :: "'h \<Rightarrow> bytes \<Rightarrow> nat \<Rightarrow> 'h option"
  hs_hash :: "'h \<Rightarrow> bytes"
  hs_remote_static :: "'h \<Rightarrow> bytes option"
  hs_transport :: "'h \<Rightarrow> 'n option"

text \<open>A call into the Noise crate under \<^verbatim>\<open>?\<close>.\<close>

definition try_noise :: "'a option \<Rightarrow> ('a \<Rightarrow> 's \<Rightarrow> 'b res \<times> 's) \<Rightarrow> 's \<Rightarrow> 'b res \<times> 's" where
  "try_noise r f = (case r of None \<Rightarrow> fail TNoise | Some a \<Rightarrow> f a)"

subsection \<open>The XK handshake\<close>

definition noise_responder_handshake_bound :: "('h, 'n) handshake \<Rightarrow> bytes \<Rightarrow> 'a link
    \<Rightarrow> ('n \<times> bytes) res \<times> 'a link" where
  "noise_responder_handshake_bound H static_sk =
     try_noise (xk_responder H static_sk) (\<lambda>hs0.
     andthen read_handshake_msg (\<lambda>rx.
     try_noise (hs_read H hs0 rx MAX_HANDSHAKE_MSG) (\<lambda>hs1.
     try_noise (hs_write H hs1 MAX_HANDSHAKE_MSG) (\<lambda>(tx, hs2).
     andthen (write_handshake_msg tx) (\<lambda>_.
     andthen read_handshake_msg (\<lambda>rx.
     try_noise (hs_read H hs2 rx MAX_HANDSHAKE_MSG) (\<lambda>hs3.
     try_noise (hs_transport H hs3) (\<lambda>transport.
     ret (transport, hs_hash H hs3)))))))))"

definition noise_responder_handshake :: "('h, 'n) handshake \<Rightarrow> bytes \<Rightarrow> 'a link \<Rightarrow> 'n res \<times> 'a link" where
  "noise_responder_handshake H static_sk =
     andthen (noise_responder_handshake_bound H static_sk) (\<lambda>(transport, _). ret transport)"

definition noise_initiator_handshake_bound :: "('h, 'n) handshake \<Rightarrow> bytes \<Rightarrow> bytes \<Rightarrow> 'a link
    \<Rightarrow> ('n \<times> bytes) res \<times> 'a link" where
  "noise_initiator_handshake_bound H initiator_sk server_static_pk =
     try_noise (xk_initiator H initiator_sk server_static_pk) (\<lambda>hs0.
     try_noise (hs_write H hs0 MAX_HANDSHAKE_MSG) (\<lambda>(tx, hs1).
     andthen (write_handshake_msg tx) (\<lambda>_.
     andthen read_handshake_msg (\<lambda>rx.
     try_noise (hs_read H hs1 rx MAX_HANDSHAKE_MSG) (\<lambda>hs2.
     try_noise (hs_write H hs2 MAX_HANDSHAKE_MSG) (\<lambda>(tx, hs3).
     andthen (write_handshake_msg tx) (\<lambda>_.
     try_noise (hs_transport H hs3) (\<lambda>transport.
     ret (transport, hs_hash H hs3)))))))))"

definition noise_initiator_handshake :: "('h, 'n) handshake \<Rightarrow> bytes \<Rightarrow> bytes \<Rightarrow> 'a link \<Rightarrow> 'n res \<times> 'a link" where
  "noise_initiator_handshake H initiator_sk server_static_pk =
     andthen (noise_initiator_handshake_bound H initiator_sk server_static_pk) (\<lambda>(transport, _). ret transport)"

subsection \<open>The IK handshake\<close>

definition noise_ik_responder_handshake :: "('h, 'n) handshake \<Rightarrow> bytes \<Rightarrow> 'a link
    \<Rightarrow> ('n \<times> bytes) res \<times> 'a link" where
  "noise_ik_responder_handshake H static_sk =
     try_noise (ik_responder H static_sk) (\<lambda>hs0.
     andthen read_handshake_msg (\<lambda>rx.
     try_noise (hs_read H hs0 rx MAX_HANDSHAKE_MSG) (\<lambda>hs1.
     case hs_remote_static H hs1 of
       None \<Rightarrow> fail BadHandshake
     | Some remote \<Rightarrow>
         if length remote \<noteq> 32 then fail BadHandshake
         else
           try_noise (hs_write H hs1 MAX_HANDSHAKE_MSG) (\<lambda>(tx, hs2).
           andthen (write_handshake_msg tx) (\<lambda>_.
           try_noise (hs_transport H hs2) (\<lambda>transport.
           ret (transport, remote)))))))"

definition noise_ik_initiator_handshake :: "('h, 'n) handshake \<Rightarrow> bytes \<Rightarrow> bytes \<Rightarrow> 'a link \<Rightarrow> 'n res \<times> 'a link" where
  "noise_ik_initiator_handshake H initiator_sk responder_static_pk =
     try_noise (ik_initiator H initiator_sk responder_static_pk) (\<lambda>hs0.
     try_noise (hs_write H hs0 MAX_HANDSHAKE_MSG) (\<lambda>(tx, hs1).
     andthen (write_handshake_msg tx) (\<lambda>_.
     andthen read_handshake_msg (\<lambda>rx.
     try_noise (hs_read H hs1 rx MAX_HANDSHAKE_MSG) (\<lambda>hs2.
     try_noise (hs_transport H hs2) (\<lambda>transport.
     ret transport))))))"

subsection \<open>Sessions over a stream\<close>

text \<open>
  The stream with its Noise state, and a session: a handshake followed by an exchange. What a
  session leaves behind is its result and the bytes it has written.
\<close>

definition attach :: "'n \<Rightarrow> 'a link \<Rightarrow> 'n link" where
  "attach n s = \<lparr>lk_noise = n, lk_in = lk_in s, lk_end = lk_end s, lk_out = lk_out s, lk_writes = lk_writes s\<rparr>"

definition session :: "('a link \<Rightarrow> ('n \<times> 'b) res \<times> 'a link) \<Rightarrow> ('b \<Rightarrow> 'n link \<Rightarrow> 'c res \<times> 'n link)
    \<Rightarrow> 'a link \<Rightarrow> 'c res \<times> bytes" where
  "session hs f s =
     (case hs s of
        (Ok (n, b), s') \<Rightarrow> (case f b (attach n s') of (r, s'') \<Rightarrow> (r, lk_out s''))
      | (Err e, s') \<Rightarrow> (Err e, lk_out s')
      | (Blocked, s') \<Rightarrow> (Blocked, lk_out s'))"

definition keyed :: "('a link \<Rightarrow> 'n res \<times> 'a link) \<Rightarrow> 'a link \<Rightarrow> ('n \<times> unit) res \<times> 'a link" where
  "keyed hs = andthen hs (\<lambda>n. ret (n, ()))"

text \<open>
  \<^verbatim>\<open>serve_rendezvous_query\<close>: \<open>hosts\<close> is the lookup in the rendezvous table; accepting the stream
  gives an error or a link.
\<close>

definition answer_query :: "'n noise \<Rightarrow> (bytes \<Rightarrow> bool) \<Rightarrow> bytes \<Rightarrow> bytes \<Rightarrow> 'n link \<Rightarrow> unit res \<times> 'n link" where
  "answer_query N hosts expected querier_pk =
     (if querier_pk \<noteq> expected then fail BadHandshake
      else
        andthen (read_one_noise_msg N []) (\<lambda>(buf, n).
          if n \<noteq> 32 then fail BadHandshake
          else write_one_noise_msg N [if hosts (take 32 buf) then 1 else 0]))"

definition serve_rendezvous_query :: "('h, 'n) handshake \<Rightarrow> 'n noise \<Rightarrow> bytes \<Rightarrow> bytes option
    \<Rightarrow> (bytes \<Rightarrow> bool) \<Rightarrow> transport_error + 'a link \<Rightarrow> unit res \<times> bytes" where
  "serve_rendezvous_query H N static_sk authority_pop_pk hosts accepted =
     (case authority_pop_pk of
        None \<Rightarrow> (Err BadHandshake, [])
      | Some expected \<Rightarrow>
          (case accepted of
             Inl e \<Rightarrow> (Err e, [])
           | Inr s \<Rightarrow>
               session (noise_ik_responder_handshake H static_sk) (answer_query N hosts expected) s))"

text \<open>A whole exchange under a timeout, and the two probes.\<close>

definition deadline :: "duration \<Rightarrow> 'c res \<times> bytes \<Rightarrow> 'c res" where
  "deadline timeout r = (case fst r of Blocked \<Rightarrow> Err (Unreachable timeout) | x \<Rightarrow> x)"

definition probe_rendezvous_hosting :: "('h, 'n) handshake \<Rightarrow> 'n noise \<Rightarrow> bytes \<Rightarrow> bytes \<Rightarrow> bytes \<Rightarrow> duration
    \<Rightarrow> transport_error + 'a link \<Rightarrow> bool res" where
  "probe_rendezvous_hosting H N r_pk authority_pop_sk n_pk timeout connected =
     deadline timeout
       (case connected of
          Inl e \<Rightarrow> (Err e, [])
        | Inr s \<Rightarrow>
            session (keyed (noise_ik_initiator_handshake H authority_pop_sk r_pk)) (\<lambda>_.
              andthen (write_one_noise_msg N n_pk) (\<lambda>_.
              andthen (read_one_noise_msg N []) (\<lambda>(buf, n).
              ret (n \<ge> 1 \<and> buf \<noteq> [] \<and> hd buf = 1)))) s)"

definition probe_relay_liveness :: "('h, 'n) handshake \<Rightarrow> bytes \<Rightarrow> bytes \<Rightarrow> duration
    \<Rightarrow> transport_error + 'a link \<Rightarrow> unit res" where
  "probe_relay_liveness H expected_pk initiator_sk timeout connected =
     deadline timeout
       (case connected of
          Inl e \<Rightarrow> (Err e, [])
        | Inr s \<Rightarrow>
            session (keyed (noise_initiator_handshake H initiator_sk expected_pk))
              (\<lambda>_. ret () :: 'n link \<Rightarrow> unit res \<times> 'n link) s)"

subsection \<open>Handshake messages\<close>

definition hs_frame :: "bytes \<Rightarrow> bytes" where
  "hs_frame m = u16_to_be_bytes (of_nat (length m)) @ m"

lemma write_handshake_ok:
  "length m \<le> MAX_HANDSHAKE_MSG \<Longrightarrow> lk_writes s = None \<Longrightarrow>
   write_handshake_msg m s = (Ok (), s\<lparr>lk_out := lk_out s @ hs_frame m\<rparr>)"
  by (simp add: write_handshake_msg_def andthen_def write_all_ok hs_frame_def)

lemma read_handshake_ok:
  assumes "length m \<le> MAX_HANDSHAKE_MSG" "lk_in r = hs_frame m @ rest"
  shows "read_handshake_msg r = (Ok m, r\<lparr>lk_in := rest\<rparr>)"
proof -
  let ?l = "u16_to_be_bytes (of_nat (length m))"
  have 1: "read_exact 2 r = (Ok ?l, r\<lparr>lk_in := m @ rest\<rparr>)"
    using assms(2) by (intro read_exact_prefix) (simp_all add: hs_frame_def)
  have 2: "unat (u16_from_be_bytes ?l) = length m"
    using assms(1) by (intro u16_len) (simp add: MAX_HANDSHAKE_MSG_def)
  have 3: "read_exact (length m) (r\<lparr>lk_in := m @ rest\<rparr>) = (Ok m, r\<lparr>lk_in := rest\<rparr>)"
    by (subst read_exact_prefix [of _ m rest]) simp_all
  show ?thesis using assms(1) by (simp add: read_handshake_msg_def link_simps 1 2 3)
qed

text \<open>
  What the Noise crate promises of an XK handshake between matching keys: the three messages fit,
  are accepted, and both ends reach transport states in step with the same handshake hash.
\<close>

definition xk_works :: "('h, 'n) handshake \<Rightarrow> bytes \<Rightarrow> bytes \<Rightarrow> bytes \<Rightarrow> ('n \<Rightarrow> 'n \<Rightarrow> bool) \<Rightarrow> bool" where
  "xk_works H initiator_sk server_pk server_sk in_step \<longleftrightarrow>
     (\<exists>i0 r0 m1 i1 r1 m2 r2 i2 m3 i3 r3 ti tr.
        xk_initiator H initiator_sk server_pk = Some i0 \<and> xk_responder H server_sk = Some r0 \<and>
        hs_write H i0 MAX_HANDSHAKE_MSG = Some (m1, i1) \<and> hs_read H r0 m1 MAX_HANDSHAKE_MSG = Some r1 \<and>
        hs_write H r1 MAX_HANDSHAKE_MSG = Some (m2, r2) \<and> hs_read H i1 m2 MAX_HANDSHAKE_MSG = Some i2 \<and>
        hs_write H i2 MAX_HANDSHAKE_MSG = Some (m3, i3) \<and> hs_read H r2 m3 MAX_HANDSHAKE_MSG = Some r3 \<and>
        length m1 \<le> MAX_HANDSHAKE_MSG \<and> length m2 \<le> MAX_HANDSHAKE_MSG \<and> length m3 \<le> MAX_HANDSHAKE_MSG \<and>
        hs_hash H i3 = hs_hash H r3 \<and> hs_transport H i3 = Some ti \<and> hs_transport H r3 = Some tr \<and>
        in_step ti tr \<and> in_step tr ti)"

lemmas hs_run = try_noise_def andthen_def ret_def

text \<open>C25. The framed XK handshake works: there are byte strings the two ends send each other such
  that both complete, consume exactly these bytes, end with Noise states in step in both
  directions, and hold the same channel binding.\<close>

theorem xk_handshake_agrees:
  assumes "xk_works H initiator_sk server_pk server_sk in_step" "lk_writes i = None" "lk_writes r = None"
  shows "\<exists>w1 w2 w3 ti tr binding.
    noise_initiator_handshake_bound H initiator_sk server_pk (i\<lparr>lk_in := w2 @ x\<rparr>) =
      (Ok (ti, binding), i\<lparr>lk_in := x, lk_out := lk_out i @ w1 @ w3\<rparr>) \<and>
    noise_responder_handshake_bound H server_sk (r\<lparr>lk_in := w1 @ w3 @ y\<rparr>) =
      (Ok (tr, binding), r\<lparr>lk_in := y, lk_out := lk_out r @ w2\<rparr>) \<and>
    in_step ti tr \<and> in_step tr ti"
proof -
  obtain i0 r0 m1 i1 r1 m2 r2 i2 m3 i3 r3 ti tr where
    b: "xk_initiator H initiator_sk server_pk = Some i0" "xk_responder H server_sk = Some r0"
    and m1: "hs_write H i0 MAX_HANDSHAKE_MSG = Some (m1, i1)" "hs_read H r0 m1 MAX_HANDSHAKE_MSG = Some r1"
    and m2: "hs_write H r1 MAX_HANDSHAKE_MSG = Some (m2, r2)" "hs_read H i1 m2 MAX_HANDSHAKE_MSG = Some i2"
    and m3: "hs_write H i2 MAX_HANDSHAKE_MSG = Some (m3, i3)" "hs_read H r2 m3 MAX_HANDSHAKE_MSG = Some r3"
    and len: "length m1 \<le> MAX_HANDSHAKE_MSG" "length m2 \<le> MAX_HANDSHAKE_MSG" "length m3 \<le> MAX_HANDSHAKE_MSG"
    and t: "hs_hash H i3 = hs_hash H r3" "hs_transport H i3 = Some ti" "hs_transport H r3 = Some tr"
      "in_step ti tr" "in_step tr ti"
    using assms(1) unfolding xk_works_def by blast
  let ?w1 = "hs_frame m1" and ?w2 = "hs_frame m2" and ?w3 = "hs_frame m3"
  have "noise_initiator_handshake_bound H initiator_sk server_pk (i\<lparr>lk_in := ?w2 @ x\<rparr>) =
      (Ok (ti, hs_hash H r3), i\<lparr>lk_in := x, lk_out := lk_out i @ ?w1 @ ?w3\<rparr>)"
    using b(1) m1(1) m2(2) m3(1) t len assms(2)
    by (simp add: noise_initiator_handshake_bound_def hs_run write_handshake_ok read_handshake_ok [OF len(2)])
  moreover have "noise_responder_handshake_bound H server_sk (r\<lparr>lk_in := ?w1 @ ?w3 @ y\<rparr>) =
      (Ok (tr, hs_hash H r3), r\<lparr>lk_in := y, lk_out := lk_out r @ ?w2\<rparr>)"
    using b(2) m1(2) m2(1) m3(2) t len assms(3)
    by (simp add: noise_responder_handshake_bound_def hs_run write_handshake_ok
        read_handshake_ok [OF len(1)] read_handshake_ok [OF len(3)])
  ultimately show ?thesis using t(4,5) by blast
qed

text \<open>A handshake for the examples: three one-byte messages, accepted by the matching key.\<close>

definition toy_handshake :: "(nat, nat) handshake" where
  "toy_handshake =
     \<lparr>xk_responder = (\<lambda>sk. Some 0), xk_initiator = (\<lambda>sk pk. Some 0),
      ik_responder = (\<lambda>sk. Some 0), ik_initiator = (\<lambda>sk pk. Some 0),
      hs_write = (\<lambda>h cap. Some ([of_nat h], Suc h)),
      hs_read = (\<lambda>h m cap. if m = [of_nat h] then Some (Suc h) else None),
      hs_hash = (\<lambda>h. [of_nat h]), hs_remote_static = (\<lambda>h. Some (replicate 32 7)),
      hs_transport = (\<lambda>h. Some 0)\<rparr>"

definition toy_stream :: "unit link" where
  "toy_stream = \<lparr>lk_noise = (), lk_in = [], lk_end = Finished, lk_out = [], lk_writes = None\<rparr>"

theorem xk_handshake_agrees_witness:
  "\<exists>w1 w2 w3 ti tr binding.
    noise_initiator_handshake_bound toy_handshake [1] [2] (toy_stream\<lparr>lk_in := w2 @ [8]\<rparr>) =
      (Ok (ti, binding), toy_stream\<lparr>lk_in := [8], lk_out := lk_out toy_stream @ w1 @ w3\<rparr>) \<and>
    noise_responder_handshake_bound toy_handshake [2] (toy_stream\<lparr>lk_in := w1 @ w3 @ [9]\<rparr>) =
      (Ok (tr, binding), toy_stream\<lparr>lk_in := [9], lk_out := lk_out toy_stream @ w2\<rparr>) \<and>
    ti = tr \<and> tr = ti"
  by (rule xk_handshake_agrees)
    (simp_all add: xk_works_def toy_handshake_def toy_stream_def MAX_HANDSHAKE_MSG_def)

subsection \<open>A silent peer cannot hold a handshake\<close>

definition prompt :: "('s \<Rightarrow> 'b res \<times> 's) \<Rightarrow> bool" where
  "prompt m \<longleftrightarrow> (\<forall>s. fst (m s) \<noteq> Blocked)"

named_theorems prompts \<open>computations that never wait for a silent peer\<close>

lemma prompt_timed [prompts]: "prompt (timed m)"
  by (auto simp: prompt_def timed_def split: prod.splits res.splits)

lemma prompt_ret [prompts]: "prompt (ret a)" and prompt_fail [prompts]: "prompt (fail e)"
  by (simp_all add: prompt_def ret_def fail_def)

lemma prompt_write_all [prompts]: "prompt (write_all bs)"
  by (auto simp: prompt_def write_all_def split: option.splits nat.splits)

lemma prompt_andthen [prompts]: "prompt m \<Longrightarrow> (\<And>a. prompt (f a)) \<Longrightarrow> prompt (andthen m f)"
  by (auto simp: prompt_def andthen_def split: prod.splits res.splits) (metis fst_conv)

lemma prompt_try_noise [prompts]: "(\<And>a. prompt (f a)) \<Longrightarrow> prompt (try_noise r f)"
  by (auto simp: try_noise_def prompt_fail split: option.splits)

lemma prompt_if [prompts]: "prompt m \<Longrightarrow> prompt n \<Longrightarrow> prompt (if b then m else n)"
  by simp

lemma prompt_option [prompts]: "prompt m \<Longrightarrow> (\<And>a. prompt (f a)) \<Longrightarrow> prompt (case x of None \<Rightarrow> m | Some a \<Rightarrow> f a)"
  by (simp split: option.splits)

lemma prompt_pair [prompts]: "(\<And>a b. prompt (f a b)) \<Longrightarrow> prompt (case p of (a, b) \<Rightarrow> f a b)"
  by (simp split: prod.splits)

lemma prompt_handshake_msg [prompts]: "prompt read_handshake_msg" "prompt (write_handshake_msg m)"
  unfolding read_handshake_msg_def write_handshake_msg_def Let_def by (intro prompts)+

lemma prompt_fst: "prompt m \<Longrightarrow> fst (m s) \<noteq> Blocked"
  by (simp add: prompt_def)


text \<open>C27. Which relays a rendezvous hosts is told only to the authority: unless the IK handshake
  authenticated the querier under the configured key, the result and every byte sent are the same
  whatever the table holds.\<close>

theorem rendezvous_query_private:
  assumes "\<forall>t expected. authority_pop_pk = Some expected \<longrightarrow>
    fst (noise_ik_responder_handshake H static_sk s) \<noteq> Ok (t, expected)"
  shows "serve_rendezvous_query H N static_sk authority_pop_pk hosts (Inr s) =
    serve_rendezvous_query H N static_sk authority_pop_pk hosts' (Inr s)"
proof (cases authority_pop_pk)
  case (Some expected)
  obtain r s' where h: "noise_ik_responder_handshake H static_sk s = (r, s')" by fastforce
  show ?thesis
  proof (cases r)
    case (Ok x)
    obtain t pk where "x = (t, pk)" by (cases x)
    with assms Some h Ok have "pk \<noteq> expected" by auto
    with \<open>x = (t, pk)\<close> Some h Ok show ?thesis
      by (simp add: serve_rendezvous_query_def session_def answer_query_def)
  qed (use Some h in \<open>simp_all add: serve_rendezvous_query_def session_def\<close>)
qed (simp add: serve_rendezvous_query_def)

theorem rendezvous_query_private_witness:
  "serve_rendezvous_query toy_handshake toy_noise [1] (Some (replicate 32 9)) (\<lambda>_. True) (Inr (toy_stream\<lparr>lk_in := hs_frame [0]\<rparr>)) =
   serve_rendezvous_query toy_handshake toy_noise [1] (Some (replicate 32 9)) (\<lambda>_. False) (Inr (toy_stream\<lparr>lk_in := hs_frame [0]\<rparr>))"
proof (rule rendezvous_query_private)
  have "read_handshake_msg (toy_stream\<lparr>lk_in := hs_frame [0]\<rparr>) = (Ok [0], toy_stream)"
    using read_handshake_ok [of "[0]" "toy_stream\<lparr>lk_in := hs_frame [0]\<rparr>" "[]"]
    by (simp add: MAX_HANDSHAKE_MSG_def toy_stream_def)
  then have "fst (noise_ik_responder_handshake toy_handshake [1] (toy_stream\<lparr>lk_in := hs_frame [0]\<rparr>)) = Ok (0, replicate 32 7)"
    by (simp add: noise_ik_responder_handshake_def hs_run toy_handshake_def write_handshake_ok
        MAX_HANDSHAKE_MSG_def toy_stream_def)
  then show "\<forall>t expected. Some (replicate 32 9) = Some expected \<longrightarrow>
      fst (noise_ik_responder_handshake toy_handshake [1] (toy_stream\<lparr>lk_in := hs_frame [0]\<rparr>)) \<noteq> Ok (t, expected)"
    by simp
qed

end
