(* ===== verification/Session.thy ===== *)
theory Session
  imports Handshake
begin

section \<open>Sessions that serve requests\<close>

text \<open>
  What the loops of the mailbox, gossip and mixnet connections have in common: a session reads a message, changes the state it
  shares with the other connections, answers, and goes on until the stream ends, an error occurs or its budget is used up. The contract
  says that one turn of the loop is one step on the state and uses up some of the stream; the effect of a whole session and its
  invariants follow.
\<close>

text \<open>The effect of a sequence of messages, numbered from \<open>i\<close> on.\<close>

fun run_requests :: "(nat \<Rightarrow> bytes \<Rightarrow> 's \<Rightarrow> 's) \<Rightarrow> nat \<Rightarrow> bytes list \<Rightarrow> 's \<Rightarrow> 's" where
  "run_requests step i [] st = st"
| "run_requests step i (blob # blobs) st = run_requests step (Suc i) blobs (step i blob st)"

locale request_loop =
  fixes loop :: "nat \<Rightarrow> 's \<Rightarrow> 'l \<Rightarrow> 'o" and state :: "'o \<Rightarrow> 's" and step :: "nat \<Rightarrow> bytes \<Rightarrow> 's \<Rightarrow> 's"
    and left :: "'l \<Rightarrow> nat" and admits :: "nat \<Rightarrow> bool"
  assumes turn: "state (loop i st l) = st \<or>
    (admits i \<and> (\<exists>blob. state (loop i st l) = step i blob st \<or>
      (\<exists>l'. left l' < left l \<and> loop i st l = loop (Suc i) (step i blob st) l')))"
begin

lemma effect:
  "\<exists>blobs. (\<forall>k<length blobs. admits (i + k)) \<and> state (loop i st l) = run_requests step i blobs st"
proof (induction "left l" arbitrary: i st l rule: less_induct)
  case less
  consider "state (loop i st l) = st" | blob where "admits i" "state (loop i st l) = step i blob st"
    | blob l' where "admits i" "left l' < left l" "loop i st l = loop (Suc i) (step i blob st) l'" using turn by blast
  then show ?case
  proof cases
    case 1
    then show ?thesis by (intro exI [of _ "[]"]) simp
  next
    case (2 blob)
    then show ?thesis by (intro exI [of _ "[blob]"]) simp
  next
    case (3 blob l')
    from less [OF 3(2), of "Suc i" "step i blob st"] obtain blobs where
      "\<forall>k<length blobs. admits (Suc i + k)" "state (loop i st l) = run_requests step (Suc i) blobs (step i blob st)"
      using 3(3) by auto
    then show ?thesis using 3(1) by (intro exI [of _ "blob # blobs"]) (auto simp: less_Suc_eq_0_disj)
  qed
qed

lemma keeps:
  assumes "\<And>i blob st. P st \<Longrightarrow> P (step i blob st)" "P st"
  shows "P (state (loop i st l))"
proof -
  have "P (run_requests step i blobs st)" for blobs
    using assms(2) by (induction blobs arbitrary: i st) (simp_all add: assms(1))
  with effect [of i st l] show ?thesis by auto
qed

end

end
