(* ===== verification/Mailbox_Service.thy ===== *)
theory Mailbox_Service
  imports Session
begin

section \<open>Delivery handlers, the mailbox and the gossip service\<close>

text \<open>
  \<^verbatim>\<open>crypto-gotham-relay/src/transport.rs\<close>: what happens to a payload delivered at the last hop, the
  mailbox service on its own connections, and the directory gossip service. The mailbox, its wire
  format, the sealed envelopes and the roster are external crates, the arguments \<open>M\<close> and \<open>R\<close>; the
  clock readings are functions of the position in the connection.

  The mailbox and the roster are shared: other connections change them between the steps of this
  one. What they do before the \<open>i\<close>-th time this connection takes the lock is the argument
  \<open>others i\<close>, any function on the state.
\<close>

subsection \<open>What the mailbox crate provides\<close>

datatype 'a mailbox_request =
    Deposit bytes bytes u64
  | Fetch bytes "'a option"
  | FetchWithSurb bytes bytes "'a option"

datatype mailbox_wire_error = WRateLimited | WUnauthorized | WMalformed | WOther nat

datatype mailbox_response = Ack | Delivery "bytes list" bool | MError mailbox_wire_error

record ('m, 'a) mailbox_api =
  req_from_bytes :: "bytes \<Rightarrow> 'a mailbox_request option"
  resp_to_bytes :: "mailbox_response \<Rightarrow> bytes option"
  mb_deposit :: "'m \<Rightarrow> bytes \<Rightarrow> bytes \<Rightarrow> u64 \<Rightarrow> u64 \<Rightarrow> mailbox_wire_error option \<times> 'm"
  mb_fetch_batch :: "'m \<Rightarrow> bytes \<Rightarrow> u64 \<Rightarrow> nat \<Rightarrow> (bytes list \<times> bool) \<times> 'm"
  auth_pk :: "'a \<Rightarrow> bytes"
  auth_verify :: "'a \<Rightarrow> bytes \<Rightarrow> bytes \<Rightarrow> bytes \<Rightarrow> bool"
  mb_x25519 :: "bytes \<Rightarrow> bytes \<Rightarrow> bytes"
  surb_fetch_binding :: "bytes \<Rightarrow> bytes"
  unseal :: "bytes \<Rightarrow> bytes \<Rightarrow> (bytes \<times> bytes) option"
  max_payload_size :: nat

subsection \<open>Delivery handlers\<close>

text \<open>The payload of a last hop: a length-prefixed sealed envelope; \<open>None\<close> when it is dropped.\<close>

definition unsealing_handler :: "('m, 'a) mailbox_api \<Rightarrow> bytes \<Rightarrow> bytes \<Rightarrow> (bytes \<times> bytes) option" where
  "unsealing_handler M recipient_sk payload =
     (if length payload < 4 then None
      else
        let env_len = unat (u32_from_be_bytes (take 4 payload)) in
        if 4 + env_len > length payload then None
        else unseal M recipient_sk (take env_len (drop 4 payload)))"

definition mailbox_deposit_handler :: "('m, 'a) mailbox_api \<Rightarrow> bytes \<Rightarrow> u64 \<Rightarrow> bytes \<Rightarrow> 'm \<Rightarrow> 'm" where
  "mailbox_deposit_handler M host_sk now payload mb =
     (case unsealing_handler M host_sk payload of
        None \<Rightarrow> mb
      | Some (_, body) \<Rightarrow>
          (case req_from_bytes M body of
             Some (Deposit bid sealed ttl_secs) \<Rightarrow> snd (mb_deposit M mb bid sealed now ttl_secs)
           | _ \<Rightarrow> mb))"

definition SURB_FETCH_BUDGET :: "('m, 'a) mailbox_api \<Rightarrow> nat" where
  "SURB_FETCH_BUDGET M = max_payload_size M - 256"

fun redeposit :: "('m, 'a) mailbox_api \<Rightarrow> bytes \<Rightarrow> u64 \<Rightarrow> bytes list \<Rightarrow> 'm \<Rightarrow> 'm" where
  "redeposit M bid now [] mb = mb"
| "redeposit M bid now (env # envs) mb = redeposit M bid now envs (snd (mb_deposit M mb bid env now 0))"

text \<open>
  The spawned task of a fetch over a single-use reply block. \<open>ship\<close> says whether sending the reply
  succeeded; \<open>others\<close> is what happens to the mailbox while the reply is under way.
\<close>

definition surb_fetch :: "('m, 'a) mailbox_api \<Rightarrow> (bytes \<Rightarrow> bytes \<Rightarrow> bool) \<Rightarrow> ('m \<Rightarrow> 'm) \<Rightarrow> bytes \<Rightarrow> bytes
    \<Rightarrow> u64 \<Rightarrow> 'm \<Rightarrow> 'm" where
  "surb_fetch M ship others bid surb now mb =
     (case mb_fetch_batch M mb bid now (SURB_FETCH_BUDGET M) of
        ((sealed, rest), mb1) \<Rightarrow>
          if sealed = [] then mb1
          else
            let shipped = (case resp_to_bytes M (Delivery sealed rest) of
                             Some bs \<Rightarrow> ship surb bs
                           | None \<Rightarrow> False);
                mb2 = others mb1 in
            if shipped then mb2 else redeposit M bid now sealed mb2)"

definition mailbox_service_handler :: "('m, 'a) mailbox_api \<Rightarrow> (bytes \<Rightarrow> bool) \<Rightarrow> (bytes \<Rightarrow> bytes \<Rightarrow> bool)
    \<Rightarrow> ('m \<Rightarrow> 'm) \<Rightarrow> bytes \<Rightarrow> u64 \<Rightarrow> bytes \<Rightarrow> 'm \<Rightarrow> 'm" where
  "mailbox_service_handler M surb_ok ship others host_sk now payload mb =
     (case unsealing_handler M host_sk payload of
        None \<Rightarrow> mb
      | Some (_, body) \<Rightarrow>
          (case req_from_bytes M body of
             Some (Deposit bid sealed ttl_secs) \<Rightarrow> snd (mb_deposit M mb bid sealed now ttl_secs)
           | Some (FetchWithSurb bid surb auth) \<Rightarrow>
               (case auth of
                  None \<Rightarrow> mb
                | Some a \<Rightarrow>
                    if \<not> auth_verify M a (mb_x25519 M host_sk (auth_pk M a)) (surb_fetch_binding M surb) bid then mb
                    else if \<not> surb_ok surb then mb
                    else surb_fetch M ship others bid surb now mb)
           | _ \<Rightarrow> mb))"

subsection \<open>The mailbox connection\<close>

definition MAILBOX_FETCH_BUDGET :: nat where
  "MAILBOX_FETCH_BUDGET = 1024 * 1024"

definition MAX_MAILBOX_REQUESTS_PER_CONN :: nat where
  "MAX_MAILBOX_REQUESTS_PER_CONN = 512"

text \<open>The answer to one request, under the mailbox lock.\<close>

definition serve_fetch :: "('m, 'a) mailbox_api \<Rightarrow> bytes \<Rightarrow> u64 \<Rightarrow> 'm \<Rightarrow> mailbox_response \<times> 'm" where
  "serve_fetch M bid now mb =
     (case mb_fetch_batch M mb bid now MAILBOX_FETCH_BUDGET of
        ((sealed, rest), mb') \<Rightarrow> (Delivery sealed rest, mb'))"

definition answer :: "('m, 'a) mailbox_api \<Rightarrow> bytes \<Rightarrow> bytes \<Rightarrow> bool \<Rightarrow> u64 \<Rightarrow> bytes \<Rightarrow> 'm
    \<Rightarrow> mailbox_response \<times> 'm" where
  "answer M static_sk binding allow_unauthenticated_fetch now blob mb =
     (case req_from_bytes M blob of
        Some (Deposit bid sealed ttl_secs) \<Rightarrow>
          (case mb_deposit M mb bid sealed now ttl_secs of
             (None, mb') \<Rightarrow> (Ack, mb')
           | (Some e, mb') \<Rightarrow> (MError e, mb'))
      | Some (Fetch bid auth) \<Rightarrow>
          (case auth of
             Some a \<Rightarrow>
               if auth_verify M a (mb_x25519 M static_sk (auth_pk M a)) binding bid
               then serve_fetch M bid now mb
               else (MError WUnauthorized, mb)
           | None \<Rightarrow>
               if allow_unauthenticated_fetch then serve_fetch M bid now mb
               else (MError WUnauthorized, mb))
      | Some (FetchWithSurb _ _ _) \<Rightarrow> (MError WMalformed, mb)
      | None \<Rightarrow> (MError WMalformed, mb))"

lemma lk_in_write:
  "lk_in (snd (write_all bs s)) = lk_in s" "lk_in (snd (noise_write N m cap s)) = lk_in s"
  by (auto simp: write_all_def noise_write_def split: option.splits nat.splits)

lemma lk_in_andthen:
  "(\<And>s. lk_in (snd (m s)) = lk_in s) \<Longrightarrow> (\<And>a s. lk_in (snd (f a s)) = lk_in s) \<Longrightarrow>
   lk_in (snd (andthen m f s)) = lk_in s"
  by (auto simp: andthen_def split: prod.splits res.splits) (metis snd_conv)+

lemma lk_in_write_one: "lk_in (snd (write_one_noise_msg N m s)) = lk_in s"
  unfolding write_one_noise_msg_def by (intro lk_in_andthen) (auto simp: lk_in_write fail_def intro!: lk_in_andthen)

lemma lk_in_write_chunks: "lk_in (snd (write_chunks N cs s)) = lk_in s"
  by (induction cs arbitrary: s) (auto simp: ret_def lk_in_write_one intro!: lk_in_andthen)

lemma lk_in_write_blob: "lk_in (snd (write_noise_blob N mx blob s)) = lk_in s"
  unfolding write_noise_blob_def
  by (auto simp: fail_def lk_in_write_one lk_in_write_chunks intro!: lk_in_andthen)

lemma write_blob_in: "write_noise_blob N mx blob s = (r, s') \<Longrightarrow> lk_in s' = lk_in s"
  using lk_in_write_blob [of N mx blob s] by simp

lemma read_blob_less: "read_noise_blob N mx s = (Ok blob, s') \<Longrightarrow> length (lk_in s') < length (lk_in s)"
  by (simp add: read_noise_blob_def read_blob_bounds)

function serve_mailbox_loop :: "('m, 'a) mailbox_api \<Rightarrow> 'n noise \<Rightarrow> nat \<Rightarrow> bytes \<Rightarrow> bytes \<Rightarrow> bool
    \<Rightarrow> (nat \<Rightarrow> u64) \<Rightarrow> (nat \<Rightarrow> 'm \<Rightarrow> 'm) \<Rightarrow> nat \<Rightarrow> 'm \<Rightarrow> 'n link \<Rightarrow> unit res \<times> 'm \<times> 'n link" where
  "serve_mailbox_loop M N mx static_sk binding allow clock others served mb s =
     (case read_noise_blob N mx s of
        (Err TRead, s1) \<Rightarrow> (Ok (), mb, s1)
      | (Err (TIo _), s1) \<Rightarrow> (Ok (), mb, s1)
      | (Err e, s1) \<Rightarrow> (Err e, mb, s1)
      | (Blocked, s1) \<Rightarrow> (Blocked, mb, s1)
      | (Ok blob, s1) \<Rightarrow>
          if Suc served > MAX_MAILBOX_REQUESTS_PER_CONN then
            (case resp_to_bytes M (MError WRateLimited) of
               None \<Rightarrow> (Err BadHandshake, mb, s1)
             | Some bs \<Rightarrow> (Ok (), mb, snd (write_noise_blob N mx bs s1)))
          else
            (case answer M static_sk binding allow (clock served) blob (others served mb) of
               (resp, mb1) \<Rightarrow>
                 (case resp_to_bytes M resp of
                    None \<Rightarrow> (Err BadHandshake, mb1, s1)
                  | Some bs \<Rightarrow>
                      (case write_noise_blob N mx bs s1 of
                         (Ok _, s2) \<Rightarrow>
                           serve_mailbox_loop M N mx static_sk binding allow clock others (Suc served) mb1 s2
                       | (Err e, s2) \<Rightarrow> (Err e, mb1, s2)
                       | (Blocked, s2) \<Rightarrow> (Blocked, mb1, s2)))))"
  by pat_completeness auto
termination
  by (relation "measure (\<lambda>(M, N, mx, sk, b, al, c, ot, n, mb, s). length (lk_in s))")
    (auto dest!: read_blob_less [OF sym] write_blob_in [OF sym])

declare serve_mailbox_loop.simps [simp del]

text \<open>The whole connection; a handshake that fails leaves the mailbox alone.\<close>

definition serve_mailbox_connection :: "('h, 'n) handshake \<Rightarrow> ('m, 'a) mailbox_api \<Rightarrow> 'n noise \<Rightarrow> nat \<Rightarrow> bytes \<Rightarrow> bool
    \<Rightarrow> (nat \<Rightarrow> u64) \<Rightarrow> (nat \<Rightarrow> 'm \<Rightarrow> 'm) \<Rightarrow> 'm \<Rightarrow> transport_error + 'x link \<Rightarrow> unit res \<times> 'm" where
  "serve_mailbox_connection H M N mx static_sk allow clock others mb accepted =
     (case accepted of
        Inl e \<Rightarrow> (Err e, mb)
      | Inr s \<Rightarrow>
          (case noise_responder_handshake_bound H static_sk s of
             (Err e, _) \<Rightarrow> (Err e, mb)
           | (Blocked, _) \<Rightarrow> (Blocked, mb)
           | (Ok (n, binding), s1) \<Rightarrow>
               (case serve_mailbox_loop M N mx static_sk binding allow clock others 0 mb (attach n s1) of
                  (r, mb', _) \<Rightarrow> (r, mb'))))"

subsection \<open>The gossip connection\<close>

record 'r roster_api =
  roster_from_slice :: "bytes \<Rightarrow> 'r option"
  roster_to_vec :: "'r \<Rightarrow> bytes option"
  verify_incoming :: "'r \<Rightarrow> u64 \<Rightarrow> 'r"
  splice_verified :: "'r \<Rightarrow> 'r \<Rightarrow> 'r"

definition merge_peer :: "'r roster_api \<Rightarrow> u64 \<Rightarrow> bytes \<Rightarrow> 'r \<Rightarrow> 'r" where
  "merge_peer R now blob roster =
     (case roster_from_slice R blob of
        None \<Rightarrow> roster
      | Some peer \<Rightarrow> splice_verified R (verify_incoming R peer now) roster)"

function serve_gossip_loop :: "'r roster_api \<Rightarrow> 'n noise \<Rightarrow> nat \<Rightarrow> (nat \<Rightarrow> u64) \<Rightarrow> (nat \<Rightarrow> 'r \<Rightarrow> 'r) \<Rightarrow> nat \<Rightarrow> 'r
    \<Rightarrow> 'n link \<Rightarrow> unit res \<times> 'r \<times> 'n link" where
  "serve_gossip_loop R N mx clock others i roster s =
     (case read_noise_blob_capped N MAX_GOSSIP_FRAME s of
        (Err TRead, s1) \<Rightarrow> (Ok (), roster, s1)
      | (Err (TIo _), s1) \<Rightarrow> (Ok (), roster, s1)
      | (Err e, s1) \<Rightarrow> (Err e, roster, s1)
      | (Blocked, s1) \<Rightarrow> (Blocked, roster, s1)
      | (Ok blob, s1) \<Rightarrow>
          let ours = others (2 * i + 1) (merge_peer R (clock i) blob (others (2 * i) roster)) in
          (case roster_to_vec R ours of
             None \<Rightarrow> (Err BadHandshake, ours, s1)
           | Some bs \<Rightarrow>
               (case write_noise_blob N mx bs s1 of
                  (Ok _, s2) \<Rightarrow> serve_gossip_loop R N mx clock others (Suc i) ours s2
                | (Err e, s2) \<Rightarrow> (Err e, ours, s2)
                | (Blocked, s2) \<Rightarrow> (Blocked, ours, s2))))"
  by pat_completeness auto
termination
  by (relation "measure (\<lambda>(R, N, mx, c, ot, i, roster, s). length (lk_in s))")
    (auto dest!: read_blob_bounds [OF sym] write_blob_in [OF sym])

declare serve_gossip_loop.simps [simp del]

definition serve_gossip_connection :: "('h, 'n) handshake \<Rightarrow> 'r roster_api \<Rightarrow> 'n noise \<Rightarrow> nat \<Rightarrow> bytes
    \<Rightarrow> (nat \<Rightarrow> u64) \<Rightarrow> (nat \<Rightarrow> 'r \<Rightarrow> 'r) \<Rightarrow> 'r \<Rightarrow> transport_error + 'x link \<Rightarrow> unit res \<times> 'r" where
  "serve_gossip_connection H R N mx static_sk clock others roster accepted =
     (case accepted of
        Inl e \<Rightarrow> (Err e, roster)
      | Inr s \<Rightarrow>
          (case noise_responder_handshake H static_sk s of
             (Err e, _) \<Rightarrow> (Err e, roster)
           | (Blocked, _) \<Rightarrow> (Blocked, roster)
           | (Ok n, s1) \<Rightarrow>
               (case serve_gossip_loop R N mx clock others 0 roster (attach n s1) of
                  (r, roster', _) \<Rightarrow> (r, roster'))))"

subsection \<open>What a connection does to the shared state\<close>

text \<open>One request and one exchange of rosters, after what other connections did.\<close>

definition mailbox_turn :: "('m, 'a) mailbox_api \<Rightarrow> bytes \<Rightarrow> bytes \<Rightarrow> bool \<Rightarrow> (nat \<Rightarrow> u64) \<Rightarrow> (nat \<Rightarrow> 'm \<Rightarrow> 'm) \<Rightarrow> nat
    \<Rightarrow> bytes \<Rightarrow> 'm \<Rightarrow> 'm" where
  "mailbox_turn M sk binding allow clock others i blob mb = snd (answer M sk binding allow (clock i) blob (others i mb))"

definition gossip_turn :: "'r roster_api \<Rightarrow> (nat \<Rightarrow> u64) \<Rightarrow> (nat \<Rightarrow> 'r \<Rightarrow> 'r) \<Rightarrow> nat \<Rightarrow> bytes \<Rightarrow> 'r \<Rightarrow> 'r" where
  "gossip_turn R clock others i blob roster = others (2 * i + 1) (merge_peer R (clock i) blob (others (2 * i) roster))"

interpretation ms: request_loop "serve_mailbox_loop M N mx sk binding allow clock others" "\<lambda>out. fst (snd out)"
  "mailbox_turn M sk binding allow clock others" "\<lambda>s. length (lk_in s)" "\<lambda>i. i < MAX_MAILBOX_REQUESTS_PER_CONN"
  for M N mx sk binding allow clock others
proof
  fix i mb s
  let ?loop = "serve_mailbox_loop M N mx sk binding allow clock others" and ?turn = "mailbox_turn M sk binding allow clock others"
  obtain r s1 where rd: "read_noise_blob N mx s = (r, s1)" by fastforce
  show "fst (snd (?loop i mb s)) = mb \<or> (i < MAX_MAILBOX_REQUESTS_PER_CONN \<and> (\<exists>blob. fst (snd (?loop i mb s)) = ?turn i blob mb \<or>
      (\<exists>s'. length (lk_in s') < length (lk_in s) \<and> ?loop i mb s = ?loop (Suc i) (?turn i blob mb) s')))"
  proof (cases "\<exists>blob. r = Ok blob \<and> i < MAX_MAILBOX_REQUESTS_PER_CONN")
    case True
    then obtain blob where r: "r = Ok blob" "i < MAX_MAILBOX_REQUESTS_PER_CONN" by blast
    obtain resp mb1 where a: "answer M sk binding allow (clock i) blob (others i mb) = (resp, mb1)" by fastforce
    have eq: "?loop i mb s =
       (case resp_to_bytes M resp of
          None \<Rightarrow> (Err BadHandshake, mb1, s1)
        | Some bs \<Rightarrow>
            (case write_noise_blob N mx bs s1 of
               (Ok _, s2) \<Rightarrow> ?loop (Suc i) mb1 s2 | (Err e, s2) \<Rightarrow> (Err e, mb1, s2) | (Blocked, s2) \<Rightarrow> (Blocked, mb1, s2)))"
      using rd r a by (subst serve_mailbox_loop.simps) simp
    have "fst (snd (?loop i mb s)) = mb1 \<or> (\<exists>bs x s2. write_noise_blob N mx bs s1 = (Ok x, s2) \<and> ?loop i mb s = ?loop (Suc i) mb1 s2)"
    proof (cases "resp_to_bytes M resp")
      case (Some bs)
      then show ?thesis by (cases "write_noise_blob N mx bs s1"; cases "fst (write_noise_blob N mx bs s1)") (auto simp: eq)
    qed (simp add: eq)
    moreover have "length (lk_in s1) < length (lk_in s)" using read_blob_less rd r by blast
    moreover have "mb1 = ?turn i blob mb" by (simp add: mailbox_turn_def a)
    ultimately show ?thesis using r(2) write_blob_in by metis
  next
    case False
    then have "fst (snd (?loop i mb s)) = mb"
      using rd by (subst serve_mailbox_loop.simps) (auto split: option.splits res.splits transport_error.splits)
    then show ?thesis ..
  qed
qed

interpretation gs: request_loop "serve_gossip_loop R N mx clock others" "\<lambda>out. fst (snd out)" "gossip_turn R clock others"
  "\<lambda>s. length (lk_in s)" "\<lambda>_. True"
  for R N mx clock others
proof
  fix i roster s
  let ?loop = "serve_gossip_loop R N mx clock others" and ?turn = "gossip_turn R clock others"
  obtain r s1 where rd: "read_noise_blob_capped N MAX_GOSSIP_FRAME s = (r, s1)" by fastforce
  show "fst (snd (?loop i roster s)) = roster \<or> (True \<and> (\<exists>blob. fst (snd (?loop i roster s)) = ?turn i blob roster \<or>
      (\<exists>s'. length (lk_in s') < length (lk_in s) \<and> ?loop i roster s = ?loop (Suc i) (?turn i blob roster) s')))"
  proof (cases r)
    case (Ok blob)
    let ?ours = "?turn i blob roster"
    have eq: "?loop i roster s =
       (case roster_to_vec R ?ours of
          None \<Rightarrow> (Err BadHandshake, ?ours, s1)
        | Some bs \<Rightarrow>
            (case write_noise_blob N mx bs s1 of
               (Ok _, s2) \<Rightarrow> ?loop (Suc i) ?ours s2 | (Err e, s2) \<Rightarrow> (Err e, ?ours, s2) | (Blocked, s2) \<Rightarrow> (Blocked, ?ours, s2)))"
      by (subst serve_gossip_loop.simps) (simp only: rd Ok gossip_turn_def Let_def prod.case res.case)
    have "fst (snd (?loop i roster s)) = ?ours \<or>
        (\<exists>bs x s2. write_noise_blob N mx bs s1 = (Ok x, s2) \<and> ?loop i roster s = ?loop (Suc i) ?ours s2)"
    proof (cases "roster_to_vec R ?ours")
      case (Some bs)
      then show ?thesis by (cases "write_noise_blob N mx bs s1"; cases "fst (write_noise_blob N mx bs s1)") (auto simp: eq)
    qed (simp add: eq)
    moreover have "length (lk_in s1) < length (lk_in s)" using read_blob_bounds rd Ok by blast
    ultimately show ?thesis using write_blob_in by metis
  qed (subst serve_gossip_loop.simps, use rd in \<open>simp split: transport_error.splits\<close>)+
qed

text \<open>
  A property of the mailbox that deposits keep, and that a fetch keeps when it comes with a proof of
  possession for its box that verifies against this host and this session.
\<close>

definition owner_safe :: "('m, 'a) mailbox_api \<Rightarrow> bytes \<Rightarrow> bytes \<Rightarrow> nat \<Rightarrow> ('m \<Rightarrow> bool) \<Rightarrow> bool" where
  "owner_safe M sk binding budget P \<longleftrightarrow>
     (\<forall>mb bid sealed now ttl. P mb \<longrightarrow> P (snd (mb_deposit M mb bid sealed now ttl))) \<and>
     (\<forall>mb bid a now. P mb \<and> auth_verify M a (mb_x25519 M sk (auth_pk M a)) binding bid \<longrightarrow>
        P (snd (mb_fetch_batch M mb bid now budget)))"

lemma answer_owner_safe:
  assumes "owner_safe M sk binding MAILBOX_FETCH_BUDGET P" "P mb"
  shows "P (snd (answer M sk binding False now blob mb))"
proof (cases "req_from_bytes M blob")
  case (Some req)
  then show ?thesis
  proof (cases req)
    case (Deposit bid sealed ttl)
    have "P (snd (mb_deposit M mb bid sealed now ttl))" using assms by (simp add: owner_safe_def)
    with Some Deposit show ?thesis by (auto simp: answer_def split: prod.splits option.splits)
  next
    case (Fetch bid auth)
    have "P (snd (mb_fetch_batch M mb bid now MAILBOX_FETCH_BUDGET))"
      if "auth = Some a" "auth_verify M a (mb_x25519 M sk (auth_pk M a)) binding bid" for a
      using assms that unfolding owner_safe_def by blast
    with Some Fetch assms(2) show ?thesis
      by (auto simp: answer_def serve_fetch_def split: prod.splits option.splits)
  qed (use assms Some in \<open>simp add: answer_def\<close>)
qed (use assms in \<open>simp add: answer_def\<close>)


text \<open>A mailbox for the examples: the envelopes of each box; a proof is a byte that matches the box.\<close>

definition toy_mailbox :: "((bytes \<times> bytes) list, byte) mailbox_api" where
  "toy_mailbox =
     \<lparr>req_from_bytes = (\<lambda>b.
        if length b = 3 \<and> b ! 0 = 0 then Some (Deposit [b ! 1] [b ! 2] 60)
        else if length b = 2 \<and> b ! 0 = 1 then Some (Fetch [b ! 1] None)
        else if length b = 3 \<and> b ! 0 = 2 then Some (Fetch [b ! 1] (Some (b ! 2))) else None),
      resp_to_bytes = (\<lambda>r. case r of Ack \<Rightarrow> Some [1] | Delivery es _ \<Rightarrow> Some (2 # concat es) | MError _ \<Rightarrow> Some [3]),
      mb_deposit = (\<lambda>mb bid e now ttl. (None, mb @ [(bid, e)])),
      mb_fetch_batch = (\<lambda>mb bid now budget. ((map snd (filter (\<lambda>e. fst e = bid) mb), False), filter (\<lambda>e. fst e \<noteq> bid) mb)),
      auth_pk = (\<lambda>a. [a]), auth_verify = (\<lambda>a shared binding bid. a = 9 \<and> bid = [4]), mb_x25519 = (\<lambda>sk pk. pk),
      surb_fetch_binding = (\<lambda>b. b), unseal = (\<lambda>sk e. Some ([], e)), max_payload_size = 1000\<rparr>"



lemma redeposit_safe: "owner_safe M sk binding budget P \<Longrightarrow> P mb \<Longrightarrow> P (redeposit M bid now envs mb)"
  by (induction M bid now envs mb rule: redeposit.induct) (simp_all add: owner_safe_def)

text \<open>C11. The same for fetches that arrive through the mixnet with a single-use reply block: without a
  possession proof bound to the very reply block, the delivery handler drains nothing; and when the
  reply cannot be sent, the drained envelopes are deposited again, so that properties kept by
  deposits and proven fetches hold afterwards.\<close>

theorem mixnet_fetch_owner_only:
  assumes "\<forall>surb. owner_safe M host_sk (surb_fetch_binding M surb) (SURB_FETCH_BUDGET M) P"
    and "\<forall>mb. P mb \<longrightarrow> P (others mb)" "P mb"
  shows "P (mailbox_service_handler M surb_ok ship others host_sk now payload mb)"
proof -
  have safe: "owner_safe M host_sk (surb_fetch_binding M surb) (SURB_FETCH_BUDGET M) P" for surb
    using assms(1) by blast
  have "P (snd (mb_deposit M mb bid sealed now ttl))" for bid sealed ttl
    using safe assms(3) by (simp add: owner_safe_def)
  moreover have "P (surb_fetch M ship others bid surb now mb)"
    if "auth_verify M a (mb_x25519 M host_sk (auth_pk M a)) (surb_fetch_binding M surb) bid" for bid surb a
  proof -
    obtain sealed rest mb1 where f: "mb_fetch_batch M mb bid now (SURB_FETCH_BUDGET M) = ((sealed, rest), mb1)"
      by (metis prod.collapse)
    have "P mb1" using safe [of surb] assms(3) that f unfolding owner_safe_def by (metis snd_conv)
    then show ?thesis
      using f assms(2) redeposit_safe [OF safe] by (auto simp: surb_fetch_def Let_def)
  qed
  ultimately show ?thesis
    using assms(3)
    by (auto simp: mailbox_service_handler_def split: option.splits mailbox_request.splits)
qed

theorem mixnet_fetch_owner_only_witness:
  "([5], [77]) \<in> set (mailbox_service_handler toy_mailbox (\<lambda>_. True) (\<lambda>_ _. False) (\<lambda>mb. mb) [1] 0 [0, 0, 0, 2, 1, 5] [([5], [77])])"
  by (rule mixnet_fetch_owner_only) (auto simp: owner_safe_def toy_mailbox_def)

lemma merge_keeps:
  "\<forall>peer now roster. P roster \<longrightarrow> P (splice_verified R (verify_incoming R peer now) roster) \<Longrightarrow>
   P roster \<Longrightarrow> P (merge_peer R now blob roster)"
  by (simp add: merge_peer_def split: option.splits)

text \<open>C28. Nothing unverified enters the directory through gossip: every property of the roster that
  merging verified entries keeps (and that the other users of the roster keep) holds after any
  gossip connection, whatever the peer sends.\<close>

theorem gossip_only_verified:
  assumes "\<forall>peer now roster. P roster \<longrightarrow> P (splice_verified R (verify_incoming R peer now) roster)"
    and "\<forall>i roster. P roster \<longrightarrow> P (others i roster)" "P roster"
  shows "P (snd (serve_gossip_connection H R N mx sk clock others roster accepted))"
proof (cases accepted)
  case (Inr s)
  obtain r s1 where h: "noise_responder_handshake H sk s = (r, s1)" by fastforce
  show ?thesis
  proof (cases r)
    case (Ok n)
    obtain q roster' s2 where l: "serve_gossip_loop R N mx clock others 0 roster (attach n s1) = (q, roster', s2)"
      by (metis prod_cases3)
    have "P (gossip_turn R clock others i blob st)" if "P st" for i blob st
      using merge_keeps [OF assms(1)] assms(2) that by (simp add: gossip_turn_def)
    then have "P roster'" using gs.keeps [where P = P and R = R and st = roster] assms(3) l by (metis fst_conv snd_conv)
    with Inr h Ok l show ?thesis by (simp add: serve_gossip_connection_def)
  qed (use Inr h assms(3) in \<open>simp_all add: serve_gossip_connection_def\<close>)
qed (use assms(3) in \<open>simp add: serve_gossip_connection_def\<close>)

text \<open>A roster for the examples: a list of entries; verification keeps the even ones.\<close>

definition toy_roster :: "byte list roster_api" where
  "toy_roster = \<lparr>roster_from_slice = Some, roster_to_vec = Some,
     verify_incoming = (\<lambda>peer now. filter even peer), splice_verified = (\<lambda>v r. r @ v)\<rparr>"

theorem gossip_only_verified_witness:
  "list_all even (snd (serve_gossip_connection toy_handshake toy_roster toy_noise 100 [1] (\<lambda>_. 0) (\<lambda>_ r. r) [2, 4]
     (Inr (toy_stream\<lparr>lk_in := hs_frame [0] @ hs_frame [2]\<rparr>))))"
  by (rule gossip_only_verified) (auto simp: toy_roster_def list_all_iff)

end
