(* ===== verification/Client.thy ===== *)
theory Client
  imports Process Mailbox_Service
begin

section \<open>The client\<close>

text \<open>
  \<^verbatim>\<open>crypto-gotham-relay/src/client.rs\<close>: building an onion packet for a selected path and shipping it to
  the entry relay, and the sealed, length-prefixed payloads; with \<^verbatim>\<open>forward_packet\<close> of
  \<^verbatim>\<open>transport.rs\<close>. Path selection, key derivation, header wrapping, the payload cipher and sealing
  belong to the packet crate and are the fields of the argument \<open>C\<close>; the generator is a state \<open>'g\<close>.
\<close>

subsection \<open>What the packet crate provides to a sender\<close>

text \<open>The accessors of a relay descriptor that the client calls; \<open>None\<close> is their error.\<close>

record relay_descriptor =
  rd_kem_pubkey_bytes :: "bytes option"
  rd_rendezvous :: bool
  rd_ipv4_octets :: "bytes option"
  rd_port :: "u16 option"
  rd_socket_addr :: "(bytes \<times> u16) option"

record ('h, 'k, 'g) sender_crypto =
  pick_path :: "'g \<Rightarrow> relay_descriptor list \<Rightarrow> string list \<Rightarrow> nat \<Rightarrow> relay_descriptor list option \<times> 'g"
  pick_to_exit :: "'g \<Rightarrow> relay_descriptor list \<Rightarrow> string list \<Rightarrow> nat \<Rightarrow> relay_descriptor \<Rightarrow> relay_descriptor list option \<times> 'g"
  derive_route_secrets :: "'g \<Rightarrow> bytes list \<Rightarrow> (bytes list \<times> 'k list) option \<times> 'g"
  fill_bytes :: "'g \<Rightarrow> nat \<Rightarrow> bytes \<times> 'g"
  wrap_header :: "'g \<Rightarrow> byte \<Rightarrow> bytes list \<Rightarrow> 'k list \<Rightarrow> hop_record list \<Rightarrow> bytes \<Rightarrow> 'h option \<times> 'g"
  lioness_encrypt :: "bytes \<Rightarrow> bytes \<Rightarrow> bytes"
  seal :: "'g \<Rightarrow> bytes \<Rightarrow> bytes \<Rightarrow> bytes \<Rightarrow> bytes option \<times> 'g"
  TRAILER_LEN :: nat
  MODE_LOW_LATENCY :: byte
  MODE_BALANCED :: byte
  MODE_PARANOID :: byte

datatype client_error =
    PayloadTooLarge
  | BadHopCount
  | PathSelection
  | BadDirectory string
  | CryptoFailed
  | TransportFailed transport_error

datatype 'a sent = Sent 'a | SendErr client_error | SendPanic | SendBlocked

subsection \<open>Constants and helpers\<close>

definition MAX_PAYLOAD_SIZE :: "('h, 'k) gotham \<Rightarrow> nat" where
  "MAX_PAYLOAD_SIZE G = PACKET_SIZE G - HEADER_LEN G"

definition SENDER_MEAN_DELAY_MICROS :: u64 where
  "SENDER_MEAN_DELAY_MICROS = 500000"

definition sender_hop_delay_micros :: "('g \<Rightarrow> f64 \<times> 'g) \<Rightarrow> (f64 \<Rightarrow> f64) \<Rightarrow> poisson_scheduler \<Rightarrow> 'g
    \<Rightarrow> u32 option \<times> 'g" where
  "sender_hop_delay_micros gen ln_f sched rng =
     (case next_delay gen ln_f sched rng of
        (None, rng') \<Rightarrow> (None, rng')
      | (Some d, rng') \<Rightarrow>
          let micros = min (as_micros d) (2 ^ 32 - 1) in
          (Some (max (of_nat micros) 1), rng'))"

definition hop_count_for_mode :: "('h, 'k, 'g) sender_crypto \<Rightarrow> byte \<Rightarrow> nat option" where
  "hop_count_for_mode C m =
     (if m = MODE_LOW_LATENCY C then Some 3
      else if m = MODE_BALANCED C then Some 4
      else if m = MODE_PARANOID C then Some 5
      else None)"

record gotham_client =
  gc_mean_hop_delay_micros :: u64
  gc_entry_guards :: "string list"

definition client_new :: "transport_error + 'ep \<Rightarrow> transport_error + gotham_client" where
  "client_new endpoint =
     (case endpoint of
        Inl e \<Rightarrow> Inl e
      | Inr _ \<Rightarrow> Inr \<lparr>gc_mean_hop_delay_micros = SENDER_MEAN_DELAY_MICROS, gc_entry_guards = []\<rparr>)"

definition with_hop_delay :: "u64 \<Rightarrow> gotham_client \<Rightarrow> gotham_client" where
  "with_hop_delay mean_micros c = c\<lparr>gc_mean_hop_delay_micros := max mean_micros 1000\<rparr>"

definition with_entry_guards :: "string list \<Rightarrow> gotham_client \<Rightarrow> gotham_client" where
  "with_entry_guards guards c = c\<lparr>gc_entry_guards := guards\<rparr>"

text \<open>The clamping of a fresh Curve25519 key; \<open>os_random\<close> are the 32 bytes the system generator fills in.\<close>

definition clamp_key :: "bytes \<Rightarrow> bytes" where
  "clamp_key sk0 =
     (let sk1 = sk0[0 := and (sk0 ! 0) 248];
          sk2 = sk1[31 := and (sk1 ! 31) 127] in
      sk2[31 := or (sk2 ! 31) 64])"

definition fresh_handshake_key :: "bytes \<Rightarrow> bytes" where
  "fresh_handshake_key os_random = clamp_key os_random"

subsection \<open>Routing records\<close>

definition default_record :: hop_record where
  "default_record =
     \<lparr>hr_delay_micros = 0, hr_next_ipv4 = [0, 0, 0, 0], hr_next_port = 0, hr_next_node_id = replicate 32 0,
      hr_is_last_hop = False, hr_is_via_rendezvous = False\<rparr>"

text \<open>The record for a hop followed by \<open>nxt\<close>, or for the last hop, before its delay is set.\<close>

definition record_for :: "relay_descriptor option \<Rightarrow> client_error + hop_record" where
  "record_for nxt =
     (case nxt of
        None \<Rightarrow> Inr (default_record\<lparr>hr_is_last_hop := True\<rparr>)
      | Some d \<Rightarrow>
          (case rd_kem_pubkey_bytes d of
             None \<Rightarrow> Inl (BadDirectory ''next node id'')
           | Some pk \<Rightarrow>
               let rec = default_record\<lparr>hr_next_node_id := pk\<rparr> in
               if rd_rendezvous d then Inr (rec\<lparr>hr_is_via_rendezvous := True\<rparr>)
               else
                 (case rd_ipv4_octets d of
                    None \<Rightarrow> Inl (BadDirectory ''non-ipv4 next addr'')
                  | Some ip \<Rightarrow>
                      (case rd_port d of
                         None \<Rightarrow> Inl (BadDirectory ''bad next port'')
                       | Some port \<Rightarrow> Inr (rec\<lparr>hr_next_ipv4 := ip, hr_next_port := port\<rparr>)))))"

fun build_records :: "('g \<Rightarrow> f64 \<times> 'g) \<Rightarrow> (f64 \<Rightarrow> f64) \<Rightarrow> poisson_scheduler \<Rightarrow> relay_descriptor list \<Rightarrow> 'g
    \<Rightarrow> hop_record list sent \<times> 'g" where
  "build_records gen ln_f sched [] rng = (Sent [], rng)"
| "build_records gen ln_f sched (d # hops) rng =
     (case record_for (case hops of [] \<Rightarrow> None | nxt # _ \<Rightarrow> Some nxt) of
        Inl e \<Rightarrow> (SendErr e, rng)
      | Inr rec \<Rightarrow>
          (case sender_hop_delay_micros gen ln_f sched rng of
             (None, rng1) \<Rightarrow> (SendPanic, rng1)
           | (Some micros, rng1) \<Rightarrow>
               (case build_records gen ln_f sched hops rng1 of
                  (Sent recs, rng2) \<Rightarrow> (Sent (rec\<lparr>hr_delay_micros := micros\<rparr> # recs), rng2)
                | (other, rng2) \<Rightarrow> (other, rng2))))"

text \<open>The payload region, padded with zeros and encrypted once per hop, the last hop first.\<close>

definition onion_payload :: "('h, 'k) gotham \<Rightarrow> ('h, 'k, 'g) sender_crypto \<Rightarrow> 'k list \<Rightarrow> bytes \<Rightarrow> bytes" where
  "onion_payload G C sub_keys payload =
     foldr (\<lambda>sub p. lioness_encrypt C (k_payload G sub) p) sub_keys
       (payload @ replicate (MAX_PAYLOAD_SIZE G - length payload) 0)"

subsection \<open>Shipping a packet\<close>

text \<open>
  \<^verbatim>\<open>forward_packet\<close>: dial, shake hands, write one frame. \<open>dialled\<close> is what connecting and opening a stream
  gave; the closing wait for the peer's acknowledgement has its result ignored and ends at the latest
  with the connection, so it leaves no trace here.
\<close>

definition forward_packet :: "('hs, 'n) handshake \<Rightarrow> 'n noise \<Rightarrow> nat \<Rightarrow> transport_error + 'x link \<Rightarrow> bytes \<Rightarrow> bytes
    \<Rightarrow> bytes \<Rightarrow> unit res \<times> bytes" where
  "forward_packet H N packet_size dialled peer_pk my_sk packet =
     (case dialled of
        Inl e \<Rightarrow> (Err e, [])
      | Inr s \<Rightarrow>
          session (keyed (noise_initiator_handshake H my_sk peer_pk))
            (\<lambda>_. write_noise_frame N packet_size packet) s)"

text \<open>
  \<^verbatim>\<open>ship_path\<close> up to the packet: the slice copies panic when the header or the payload does not fit.
\<close>

definition build_packet :: "('h, 'k) gotham \<Rightarrow> ('h, 'k, 'g) sender_crypto \<Rightarrow> ('g \<Rightarrow> f64 \<times> 'g) \<Rightarrow> (f64 \<Rightarrow> f64)
    \<Rightarrow> gotham_client \<Rightarrow> relay_descriptor list \<Rightarrow> bytes \<Rightarrow> 'g \<Rightarrow> bytes sent \<times> 'g" where
  "build_packet G C gen ln_f c hops payload rng =
     (case those (map rd_kem_pubkey_bytes hops) of
        None \<Rightarrow> (SendErr (BadDirectory ''relay kem pubkey malformed''), rng)
      | Some recipient_pks \<Rightarrow>
          (case derive_route_secrets C rng recipient_pks of
             (None, rng1) \<Rightarrow> (SendErr CryptoFailed, rng1)
           | (Some (alphas, sub_keys), rng1) \<Rightarrow>
               (case build_records gen ln_f (ps_new (gc_mean_hop_delay_micros c)) hops rng1 of
                  (SendErr e, rng2) \<Rightarrow> (SendErr e, rng2)
                | (SendPanic, rng2) \<Rightarrow> (SendPanic, rng2)
                | (SendBlocked, rng2) \<Rightarrow> (SendBlocked, rng2)
                | (Sent records, rng2) \<Rightarrow>
                    (case fill_bytes C rng2 (TRAILER_LEN C) of
                       (trailer, rng3) \<Rightarrow>
                         (case wrap_header C rng3 (MODE_BALANCED C) alphas sub_keys records trailer of
                            (None, rng4) \<Rightarrow> (SendErr CryptoFailed, rng4)
                          | (Some header, rng4) \<Rightarrow>
                              if HEADER_LEN G + length payload \<le> PACKET_SIZE G \<and>
                                 length (header_encode G header) = HEADER_LEN G
                              then (Sent (header_encode G header @ onion_payload G C sub_keys payload), rng4)
                              else (SendPanic, rng4))))))"

definition ship_path :: "('h, 'k) gotham \<Rightarrow> ('h, 'k, 'g) sender_crypto \<Rightarrow> ('g \<Rightarrow> f64 \<times> 'g) \<Rightarrow> (f64 \<Rightarrow> f64)
    \<Rightarrow> (bytes \<times> u16 \<Rightarrow> bytes \<Rightarrow> bytes \<Rightarrow> bytes \<Rightarrow> unit res) \<Rightarrow> bytes \<Rightarrow> gotham_client \<Rightarrow> relay_descriptor list \<Rightarrow> bytes \<Rightarrow> 'g
    \<Rightarrow> unit sent \<times> 'g" where
  "ship_path G C gen ln_f transmit os_random c hops payload rng =
     (case build_packet G C gen ln_f c hops payload rng of
        (SendErr e, rng1) \<Rightarrow> (SendErr e, rng1)
      | (SendPanic, rng1) \<Rightarrow> (SendPanic, rng1)
      | (SendBlocked, rng1) \<Rightarrow> (SendBlocked, rng1)
      | (Sent packet, rng1) \<Rightarrow>
          (case hops of
             [] \<Rightarrow> (SendPanic, rng1)
           | entry # _ \<Rightarrow>
               (case rd_socket_addr entry of
                  None \<Rightarrow> (SendErr (BadDirectory ''entry addr parse''), rng1)
                | Some entry_addr \<Rightarrow>
                    (case rd_kem_pubkey_bytes entry of
                       None \<Rightarrow> (SendErr (BadDirectory ''entry kem pk''), rng1)
                     | Some entry_pk \<Rightarrow>
                         (case transmit entry_addr entry_pk (fresh_handshake_key os_random) packet of
                            Ok _ \<Rightarrow> (Sent (), rng1)
                          | Err e \<Rightarrow> (SendErr (TransportFailed e), rng1)
                          | Blocked \<Rightarrow> (SendBlocked, rng1))))))"

definition client_send :: "('h, 'k) gotham \<Rightarrow> ('h, 'k, 'g) sender_crypto \<Rightarrow> ('g \<Rightarrow> f64 \<times> 'g) \<Rightarrow> (f64 \<Rightarrow> f64)
    \<Rightarrow> (bytes \<times> u16 \<Rightarrow> bytes \<Rightarrow> bytes \<Rightarrow> bytes \<Rightarrow> unit res) \<Rightarrow> bytes \<Rightarrow> gotham_client \<Rightarrow> relay_descriptor list \<Rightarrow> nat \<Rightarrow> bytes
    \<Rightarrow> 'g \<Rightarrow> unit sent \<times> 'g" where
  "client_send G C gen ln_f transmit os_random c relays hop_count payload rng =
     (if length payload > MAX_PAYLOAD_SIZE G then (SendErr PayloadTooLarge, rng)
      else if \<not> (3 \<le> hop_count \<and> hop_count \<le> 5) then (SendErr BadHopCount, rng)
      else
        (case pick_path C rng relays (gc_entry_guards c) hop_count of
           (None, rng1) \<Rightarrow> (SendErr PathSelection, rng1)
         | (Some hops, rng1) \<Rightarrow> ship_path G C gen ln_f transmit os_random c hops payload rng1))"

definition send_to_exit :: "('h, 'k) gotham \<Rightarrow> ('h, 'k, 'g) sender_crypto \<Rightarrow> ('g \<Rightarrow> f64 \<times> 'g) \<Rightarrow> (f64 \<Rightarrow> f64)
    \<Rightarrow> (bytes \<times> u16 \<Rightarrow> bytes \<Rightarrow> bytes \<Rightarrow> bytes \<Rightarrow> unit res) \<Rightarrow> bytes \<Rightarrow> gotham_client \<Rightarrow> relay_descriptor list \<Rightarrow> nat
    \<Rightarrow> relay_descriptor \<Rightarrow> bytes \<Rightarrow> 'g \<Rightarrow> unit sent \<times> 'g" where
  "send_to_exit G C gen ln_f transmit os_random c relays hop_count exit payload rng =
     (if length payload > MAX_PAYLOAD_SIZE G then (SendErr PayloadTooLarge, rng)
      else if \<not> (3 \<le> hop_count \<and> hop_count \<le> 5) then (SendErr BadHopCount, rng)
      else
        (case pick_to_exit C rng relays (gc_entry_guards c) hop_count exit of
           (None, rng1) \<Rightarrow> (SendErr PathSelection, rng1)
         | (Some hops, rng1) \<Rightarrow> ship_path G C gen ln_f transmit os_random c hops payload rng1))"

subsection \<open>Sealed payloads\<close>

definition frame_envelope :: "bytes \<Rightarrow> bytes" where
  "frame_envelope envelope = u32_to_be_bytes (of_nat (length envelope)) @ envelope"

definition seal_and_frame :: "('h, 'k) gotham \<Rightarrow> ('h, 'k, 'g) sender_crypto \<Rightarrow> bytes \<Rightarrow> bytes \<Rightarrow> bytes \<Rightarrow> 'g
    \<Rightarrow> bytes sent \<times> 'g" where
  "seal_and_frame G C recipient_pk sender_pk body rng =
     (case seal C rng recipient_pk sender_pk body of
        (None, rng1) \<Rightarrow> (SendErr CryptoFailed, rng1)
      | (Some envelope, rng1) \<Rightarrow>
          if length (frame_envelope envelope) > MAX_PAYLOAD_SIZE G then (SendErr PayloadTooLarge, rng1)
          else (Sent (frame_envelope envelope), rng1))"

definition frame_sealed_for_exit :: "('h, 'k) gotham \<Rightarrow> ('h, 'k, 'g) sender_crypto \<Rightarrow> relay_descriptor \<Rightarrow> bytes
    \<Rightarrow> bytes \<Rightarrow> 'g \<Rightarrow> bytes sent \<times> 'g" where
  "frame_sealed_for_exit G C exit sender_pk body rng =
     (case rd_kem_pubkey_bytes exit of
        None \<Rightarrow> (SendErr (BadDirectory ''exit kem pk''), rng)
      | Some exit_kem \<Rightarrow> seal_and_frame G C exit_kem sender_pk body rng)"

definition send_sealed :: "('h, 'k) gotham \<Rightarrow> ('h, 'k, 'g) sender_crypto \<Rightarrow> ('g \<Rightarrow> f64 \<times> 'g) \<Rightarrow> (f64 \<Rightarrow> f64)
    \<Rightarrow> (bytes \<times> u16 \<Rightarrow> bytes \<Rightarrow> bytes \<Rightarrow> bytes \<Rightarrow> unit res) \<Rightarrow> bytes \<Rightarrow> gotham_client \<Rightarrow> relay_descriptor list \<Rightarrow> nat
    \<Rightarrow> bytes \<Rightarrow> bytes \<Rightarrow> bytes \<Rightarrow> 'g \<Rightarrow> unit sent \<times> 'g" where
  "send_sealed G C gen ln_f transmit os_random c relays hop_count recipient_pk sender_pk body rng =
     (case seal_and_frame G C recipient_pk sender_pk body rng of
        (Sent framed, rng1) \<Rightarrow> client_send G C gen ln_f transmit os_random c relays hop_count framed rng1
      | (SendErr e, rng1) \<Rightarrow> (SendErr e, rng1)
      | (SendPanic, rng1) \<Rightarrow> (SendPanic, rng1)
      | (SendBlocked, rng1) \<Rightarrow> (SendBlocked, rng1))"

definition send_sealed_to_exit :: "('h, 'k) gotham \<Rightarrow> ('h, 'k, 'g) sender_crypto \<Rightarrow> ('g \<Rightarrow> f64 \<times> 'g) \<Rightarrow> (f64 \<Rightarrow> f64)
    \<Rightarrow> (bytes \<times> u16 \<Rightarrow> bytes \<Rightarrow> bytes \<Rightarrow> bytes \<Rightarrow> unit res) \<Rightarrow> bytes \<Rightarrow> gotham_client \<Rightarrow> relay_descriptor list \<Rightarrow> nat
    \<Rightarrow> relay_descriptor \<Rightarrow> bytes \<Rightarrow> bytes \<Rightarrow> 'g \<Rightarrow> unit sent \<times> 'g" where
  "send_sealed_to_exit G C gen ln_f transmit os_random c relays hop_count exit sender_pk body rng =
     (case frame_sealed_for_exit G C exit sender_pk body rng of
        (Sent framed, rng1) \<Rightarrow> send_to_exit G C gen ln_f transmit os_random c relays hop_count exit framed rng1
      | (SendErr e, rng1) \<Rightarrow> (SendErr e, rng1)
      | (SendPanic, rng1) \<Rightarrow> (SendPanic, rng1)
      | (SendBlocked, rng1) \<Rightarrow> (SendBlocked, rng1))"

subsection \<open>A packet on its way\<close>

text \<open>
  The promise of the packet crate that the route rests on. A header \<open>peels\<close> along a route when the
  relay with each identity key in turn derives the key meant for it and unwraps the record meant for it, leaving the
  header for the rest.
\<close>

fun peels :: "('h, 'k) gotham \<Rightarrow> bytes list \<Rightarrow> 'k list \<Rightarrow> hop_record list \<Rightarrow> 'h \<Rightarrow> bool" where
  "peels G [] [] [] h = True"
| "peels G (sk # sks) (k # ks) (rec # recs) h =
     (header_decode G (header_encode G h) = Some h \<and>
      derive_hop_subkeys G (x25519 G sk (header_alpha G h)) = Some k \<and>
      (case unwrap_header G h k of
         Inl _ \<Rightarrow> False
       | Inr (rec', h') \<Rightarrow> rec' = rec \<and> peels G sks ks recs h'))"
| "peels G _ _ _ h = False"

definition sphinx_ok :: "('h, 'k) gotham \<Rightarrow> ('h, 'k, 'g) sender_crypto \<Rightarrow> bool" where
  "sphinx_ok G C \<longleftrightarrow>
     (\<forall>sks recs g1 g2 g3 g4 alphas keys md tr h.
        derive_route_secrets C g1 (map (public_key G) sks) = (Some (alphas, keys), g2) \<and>
        length recs = length sks \<and> wrap_header C g3 md alphas keys recs tr = (Some h, g4) \<longrightarrow>
        peels G sks keys recs h) \<and>
     (\<forall>k p. lioness_decrypt G k (lioness_encrypt C k p) = p) \<and>
     (\<forall>k p. length (lioness_encrypt C k p) = length p)"

text \<open>
  A packet handed from relay to relay, each with the clock readings of its two checks. A relay stands
  ready for a header when its limiter admits a packet, its cache does not hold the header's tag, and
  it accepts the header's version.
\<close>

fun travel :: "('h, 'k) gotham \<Rightarrow> ('g \<Rightarrow> f64 \<times> 'g) \<Rightarrow> (f64 \<Rightarrow> f64) \<Rightarrow> (relay \<times> instant \<times> instant) list \<Rightarrow> bytes
    \<Rightarrow> 'g \<Rightarrow> process_outcome option list" where
  "travel G gen ln_f [] packet rng = []"
| "travel G gen ln_f ((r, t1, t2) # rs) packet rng =
     (case process G gen ln_f t1 t2 packet r rng of
        (Some (Forward a n d v next_packet), r', rng') \<Rightarrow>
          Some (Forward a n d v next_packet) # travel G gen ln_f rs next_packet rng'
      | (o1, r', rng') \<Rightarrow> [o1])"

definition ready :: "('h, 'k) gotham \<Rightarrow> relay \<times> instant \<times> instant \<Rightarrow> 'h \<Rightarrow> bool" where
  "ready G = (\<lambda>(r, t1, t2) h.
     fst (rl_check_at (PACKET_SIZE G) t1 (r_rate_limiter r)) = Allow \<and>
     fst (check_and_insert_at (header_gamma G h) t2 (r_replay_cache r)) = Fresh \<and>
     (header_version G h = VERSION_LEGACY G \<longrightarrow> r_accept_header_v2 r))"

fun route_ready :: "('h, 'k) gotham \<Rightarrow> (relay \<times> instant \<times> instant) list \<Rightarrow> 'h \<Rightarrow> bool" where
  "route_ready G [] h = True"
| "route_ready G (s # rs) h =
     (ready G s h \<and>
      (case derive_hop_subkeys G (x25519 G (r_identity_sk (fst s)) (header_alpha G h)) of
         None \<Rightarrow> False
       | Some k \<Rightarrow>
           (case unwrap_header G h k of
              Inl _ \<Rightarrow> False
            | Inr (rec, h') \<Rightarrow> route_ready G rs h')))"

text \<open>The outcomes of a delivery: each relay forwards to the next hop of the path, the last delivers.\<close>

definition directed_to :: "relay_descriptor \<Rightarrow> process_outcome \<Rightarrow> bool" where
  "directed_to d out =
     (case out of
        Forward (ip, port) node_id delay via next_packet \<Rightarrow>
          rd_kem_pubkey_bytes d = Some node_id \<and> delay \<le> MAX_HOP_DELAY \<and> via = rd_rendezvous d \<and>
          (via \<or> rd_ipv4_octets d = Some ip \<and> rd_port d = Some port)
      | _ \<Rightarrow> False)"

fun delivered :: "relay_descriptor list \<Rightarrow> bytes \<Rightarrow> process_outcome option list \<Rightarrow> bool" where
  "delivered [d] body [Some (DeliverLocal delay b)] = (b = body \<and> delay \<le> MAX_HOP_DELAY)"
| "delivered (d # nxt # hops) body (Some out # outs) = (directed_to nxt out \<and> delivered (nxt # hops) body outs)"
| "delivered _ _ _ = False"

text \<open>The records of a path: each names the next hop and carries a delay that is not zero.\<close>

definition next_hop :: "relay_descriptor list \<Rightarrow> relay_descriptor option" where
  "next_hop hops = (case hops of [] \<Rightarrow> None | nxt # _ \<Rightarrow> Some nxt)"

fun records_ok :: "relay_descriptor list \<Rightarrow> hop_record list \<Rightarrow> bool" where
  "records_ok [] [] = True"
| "records_ok (d # hops) (rec # recs) =
     (hr_delay_micros rec \<noteq> 0 \<and> record_for (next_hop hops) = Inr (rec\<lparr>hr_delay_micros := 0\<rparr>) \<and> records_ok hops recs)"
| "records_ok _ _ = False"

lemma record_for_delay0: "record_for nxt = Inr rec \<Longrightarrow> rec\<lparr>hr_delay_micros := 0\<rparr> = rec"
  by (auto simp: record_for_def default_record_def Let_def split: option.splits if_splits)

lemma sender_delay_nonzero:
  assumes "sender_hop_delay_micros gen ln_f sched rng = (Some m, rng')"
  shows "m \<noteq> 0"
  using assms by (auto simp: sender_hop_delay_micros_def Let_def max_def split: prod.splits option.splits if_splits)

lemma build_records_ok:
  "build_records gen ln_f sched hops rng = (Sent recs, rng') \<Longrightarrow> records_ok hops recs"
proof (induction hops arbitrary: rng recs)
  case (Cons d hops)
  then show ?case
    by (auto simp: next_hop_def split: sum.splits prod.splits option.splits sent.splits
        dest!: sender_delay_nonzero simp: record_for_delay0)
qed simp

lemma records_ok_length: "records_ok hops recs \<Longrightarrow> length recs = length hops"
  by (induction hops recs rule: records_ok.induct) auto

text \<open>One relay that is ready handles a packet addressed to it.\<close>

lemma hop_step:
  assumes G: "gotham_ok G" and rdy: "ready G (r, t1, t2) h"
    and h: "header_decode G (header_encode G h) = Some h"
      "derive_hop_subkeys G (x25519 G (r_identity_sk r) (header_alpha G h)) = Some k"
      "unwrap_header G h k = Inr (rec, h')"
    and body: "length body = PACKET_SIZE G - HEADER_LEN G" and rec: "hr_delay_micros rec \<noteq> 0"
  obtains d r' where "d \<le> MAX_HOP_DELAY" "r_identity_sk r' = r_identity_sk r"
    "process G gen ln_f t1 t2 (header_encode G h @ body) r rng =
       (route G r' rec h' d (lioness_decrypt G (k_payload G k) body), r', rng)"
proof -
  let ?p = "header_encode G h @ body"
  have len: "length ?p = PACKET_SIZE G" "length (header_encode G h) = HEADER_LEN G"
    using G body by (simp_all add: gotham_ok_def)
  obtain rl where rl: "rl_check_at (PACKET_SIZE G) t1 (r_rate_limiter r) = (Allow, rl)"
    using rdy by (cases "rl_check_at (PACKET_SIZE G) t1 (r_rate_limiter r)") (auto simp: ready_def)
  let ?r = "counted G h (r\<lparr>r_rate_limiter := rl\<rparr>)"
  obtain c where c: "check_and_insert_at (header_gamma G h) t2 (r_replay_cache r) = (Fresh, c)"
    using rdy by (cases "check_and_insert_at (header_gamma G h) t2 (r_replay_cache r)") (auto simp: ready_def)
  have a: "authentic G (r_identity_sk r) (r_accept_header_v2 r) ?p = Some (h, k, rec, h')"
    using h rdy len by (auto simp: authentic_def ready_def)
  have d: "hop_delay gen ln_f r' rec rng = (Some (min (from_micros (unat (hr_delay_micros rec))) MAX_HOP_DELAY), rng)"
    for r' using rec by (simp add: hop_delay_def)
  have "process_authentic G gen ln_f t2 ?p h k (rec, h') ?r rng =
      (route G (?r\<lparr>r_replay_cache := c\<rparr>) rec h' (min (from_micros (unat (hr_delay_micros rec))) MAX_HOP_DELAY)
         (lioness_decrypt G (k_payload G k) body), ?r\<lparr>r_replay_cache := c\<rparr>, rng)"
    using len c d by (simp add: process_authentic_def slice_from_def Let_def)
  moreover have "process G gen ln_f t1 t2 ?p r rng = process_authentic G gen ln_f t2 ?p h k (rec, h') ?r rng"
    by (cases rule: process_cases [OF G, of ?p gen ln_f t1 t2 r rng, case_names size rate reject authentic])
      (use len rl a in auto)
  ultimately show thesis by (intro that) auto
qed

text \<open>What the record of a hop says about the next one.\<close>

lemma record_last: "record_for None = Inr rec \<Longrightarrow> hr_is_last_hop rec"
  by (auto simp: record_for_def)

lemma record_next:
  assumes "record_for (Some d) = Inr rec"
  shows "\<not> hr_is_last_hop rec \<and> rd_kem_pubkey_bytes d = Some (hr_next_node_id rec) \<and>
    hr_is_via_rendezvous rec = rd_rendezvous d \<and>
    (rd_rendezvous d \<or> rd_ipv4_octets d = Some (hr_next_ipv4 rec) \<and> rd_port d = Some (hr_next_port rec))"
  using assms by (auto simp: record_for_def default_record_def Let_def split: option.splits if_splits)

definition serves :: "('h, 'k) gotham \<Rightarrow> relay_descriptor \<Rightarrow> relay \<times> instant \<times> instant \<Rightarrow> bool" where
  "serves G d s \<longleftrightarrow> rd_kem_pubkey_bytes d = Some (identity_public_key G (fst s))"

lemma length_layers:
  assumes "sphinx_ok G C"
  shows "length (foldr (\<lambda>sub p. lioness_encrypt C (k_payload G sub) p) keys body) = length body"
  using assms by (induction keys) (auto simp: sphinx_ok_def)

text \<open>What a relay does with a record that names another relay.\<close>

lemma route_forward:
  assumes "gotham_ok G" "record_for (next_hop (nxt # hops)) = Inr (rec\<lparr>hr_delay_micros := 0\<rparr>)"
    and "rd_kem_pubkey_bytes nxt \<noteq> Some (identity_public_key G r)" "length payload = PACKET_SIZE G - HEADER_LEN G" "t \<le> MAX_HOP_DELAY"
  shows "route G r rec h t payload = Some (Forward (hr_next_ipv4 rec, hr_next_port rec) (hr_next_node_id rec) t
      (hr_is_via_rendezvous rec) (header_encode G h @ payload))"
    and "directed_to nxt (Forward (hr_next_ipv4 rec, hr_next_port rec) (hr_next_node_id rec) t
      (hr_is_via_rendezvous rec) (header_encode G h @ payload))"
proof -
  have n: "\<not> hr_is_last_hop rec" "rd_kem_pubkey_bytes nxt = Some (hr_next_node_id rec)"
    "hr_is_via_rendezvous rec = rd_rendezvous nxt"
    "rd_rendezvous nxt \<or> rd_ipv4_octets nxt = Some (hr_next_ipv4 rec) \<and> rd_port nxt = Some (hr_next_port rec)"
    using assms(2) record_next [of nxt "rec\<lparr>hr_delay_micros := 0\<rparr>"] by (auto simp: next_hop_def)
  have "fill_packet (PACKET_SIZE G) (HEADER_LEN G) (header_encode G h) payload = Some (header_encode G h @ payload)"
    using assms(1,4) by (simp add: fill_packet_def gotham_ok_def)
  then show "route G r rec h t payload = Some (Forward (hr_next_ipv4 rec, hr_next_port rec) (hr_next_node_id rec) t
      (hr_is_via_rendezvous rec) (header_encode G h @ payload))" using n assms(3) by (simp add: route_def)
  show "directed_to nxt (Forward (hr_next_ipv4 rec, hr_next_port rec) (hr_next_node_id rec) t
      (hr_is_via_rendezvous rec) (header_encode G h @ payload))"
    using n assms(5) by (simp add: directed_to_def)
qed

lemma travel_delivers:
  assumes G: "gotham_ok G" and S: "sphinx_ok G C"
  shows "peels G (map (\<lambda>s. r_identity_sk (fst s)) rs) keys recs h \<Longrightarrow> records_ok hops recs \<Longrightarrow> route_ready G rs h \<Longrightarrow>
    list_all2 (serves G) hops rs \<Longrightarrow> distinct (map rd_kem_pubkey_bytes hops) \<Longrightarrow> hops \<noteq> [] \<Longrightarrow>
    length body = MAX_PAYLOAD_SIZE G \<Longrightarrow>
    delivered hops body (travel G gen ln_f rs
      (header_encode G h @ foldr (\<lambda>sub p. lioness_encrypt C (k_payload G sub) p) keys body) rng)"
proof (induction hops arbitrary: rs keys recs h rng)
  case (Cons d hops)
  from Cons.prems(4) obtain s rs' where s: "rs = s # rs'" "serves G d s" "list_all2 (serves G) hops rs'"
    by (auto simp: list_all2_Cons1)
  obtain r t1 t2 where "s = (r, t1, t2)" by (cases s)
  with s have rs: "rs = (r, t1, t2) # rs'"
    and own: "rd_kem_pubkey_bytes d = Some (identity_public_key G r)" "list_all2 (serves G) hops rs'"
    by (simp_all add: serves_def [of G d])
  from Cons.prems(1,2) rs obtain k keys' rec recs' where kr: "keys = k # keys'" "recs = rec # recs'"
    by (cases keys; cases recs) auto
  let ?enc = "\<lambda>ks. foldr (\<lambda>sub p. lioness_encrypt C (k_payload G sub) p) ks body"
  from Cons.prems(1) rs kr obtain h' where h: "header_decode G (header_encode G h) = Some h"
      "derive_hop_subkeys G (x25519 G (r_identity_sk r) (header_alpha G h)) = Some k"
      "unwrap_header G h k = Inr (rec, h')" and p': "peels G (map (\<lambda>s. r_identity_sk (fst s)) rs') keys' recs' h'"
    by (auto split: sum.splits)
  have rec: "hr_delay_micros rec \<noteq> 0" "record_for (next_hop hops) = Inr (rec\<lparr>hr_delay_micros := 0\<rparr>)"
    "records_ok hops recs'" using Cons.prems(2) kr by auto
  have rdy: "ready G (r, t1, t2) h" "route_ready G rs' h'" using Cons.prems(3) rs h by auto
  have len: "length (?enc ks) = PACKET_SIZE G - HEADER_LEN G" for ks
    using length_layers [OF S] Cons.prems(7) by (simp add: MAX_PAYLOAD_SIZE_def)
  obtain t r' where t: "t \<le> MAX_HOP_DELAY" "r_identity_sk r' = r_identity_sk r"
    "process G gen ln_f t1 t2 (header_encode G h @ ?enc keys) r rng =
       (route G r' rec h' t (lioness_decrypt G (k_payload G k) (?enc keys)), r', rng)"
    using hop_step [OF G rdy(1) h len rec(1)] by metis
  have dec: "lioness_decrypt G (k_payload G k) (?enc keys) = ?enc keys'"
    using S kr by (simp add: sphinx_ok_def)
  show ?case
  proof (cases hops)
    case Nil
    with rec(2) have "hr_is_last_hop rec" using record_last by (fastforce simp: next_hop_def)
    moreover have "keys' = []" using p' own(2) Nil rec(3)
      by (cases keys'; cases recs') auto
    ultimately show ?thesis using Nil rs t dec by (simp add: route_def)
  next
    case (Cons nxt hops')
    have "rd_kem_pubkey_bytes nxt \<noteq> Some (identity_public_key G r')"
      using Cons.prems(5) Cons own(1) t(2) by (auto simp: identity_public_key_def)
    note f = route_forward [OF G rec(2) [unfolded Cons] this len t(1)]
    have "delivered hops body (travel G gen ln_f rs' (header_encode G h' @ ?enc keys') rng)"
      using Cons.IH [OF p' rec(3) rdy(2) own(2)] Cons.prems(5,7) Cons by simp
    then show ?thesis using Cons rs t dec f by simp
  qed
qed simp

lemma build_packet_Sent:
  assumes "build_packet G C gen ln_f c hops payload rng = (Sent packet, rng')"
  obtains pks alphas keys recs trailer h g1 g2 g3 where
    "those (map rd_kem_pubkey_bytes hops) = Some pks"
    "derive_route_secrets C rng pks = (Some (alphas, keys), g1)"
    "build_records gen ln_f (ps_new (gc_mean_hop_delay_micros c)) hops g1 = (Sent recs, g2)"
    "wrap_header C g3 (MODE_BALANCED C) alphas keys recs trailer = (Some h, rng')"
    "packet = header_encode G h @ onion_payload G C keys payload"
    "length (header_encode G h) = HEADER_LEN G" "HEADER_LEN G + length payload \<le> PACKET_SIZE G"
  using assms
  by (auto simp: build_packet_def split: option.splits prod.splits sent.splits if_splits)

lemma those_Some: "those xs = Some ys \<longleftrightarrow> xs = map Some ys"
proof (induction xs arbitrary: ys)
  case (Cons x xs)
  then show ?case by (cases x; cases ys) auto
qed auto

lemma serves_keys: "list_all2 (serves G) hops rs \<Longrightarrow>
    map rd_kem_pubkey_bytes hops = map Some (map (public_key G) (map (\<lambda>s. r_identity_sk (fst s)) rs))"
  by (induction rule: list_all2_induct) (auto simp: serves_def identity_public_key_def)

lemma length_onion:
  assumes "sphinx_ok G C" "HEADER_LEN G + length payload \<le> PACKET_SIZE G"
  shows "length (onion_payload G C keys payload) = MAX_PAYLOAD_SIZE G"
  using length_layers [OF assms(1)] assms(2) by (simp add: onion_payload_def MAX_PAYLOAD_SIZE_def)

text \<open>What a packet's body opens to at its last hop.\<close>

definition padded :: "('h, 'k) gotham \<Rightarrow> bytes \<Rightarrow> bytes" where
  "padded G payload = payload @ replicate (MAX_PAYLOAD_SIZE G - length payload) 0"

text \<open>A packet the client built, before it travels: its header peels along the keys of the relays that serve the path.\<close>

lemma built_packet:
  assumes "sphinx_ok G C" "hops \<noteq> []" "build_packet G C gen ln_f c hops payload rng = (Sent packet, rng')"
    and relays: "list_all2 (serves G) hops rs"
  obtains h keys recs where "peels G (map (\<lambda>s. r_identity_sk (fst s)) rs) keys recs h" "records_ok hops recs"
    "header_decode G (take (HEADER_LEN G) packet) = Some h" "packet = header_encode G h @ onion_payload G C keys payload"
    "length (padded G payload) = MAX_PAYLOAD_SIZE G"
proof -
  from build_packet_Sent [OF assms(3)] obtain pks alphas keys recs trailer h g1 g2 g3 where
    b: "those (map rd_kem_pubkey_bytes hops) = Some pks"
    "derive_route_secrets C rng pks = (Some (alphas, keys), g1)"
    "build_records gen ln_f (ps_new (gc_mean_hop_delay_micros c)) hops g1 = (Sent recs, g2)"
    "wrap_header C g3 (MODE_BALANCED C) alphas keys recs trailer = (Some h, rng')"
    "packet = header_encode G h @ onion_payload G C keys payload"
    "length (header_encode G h) = HEADER_LEN G" "HEADER_LEN G + length payload \<le> PACKET_SIZE G"
    by metis
  let ?sks = "map (\<lambda>s. r_identity_sk (fst s)) rs"
  have recs: "records_ok hops recs" by (rule build_records_ok [OF b(3)])
  have "map Some pks = map Some (map (public_key G) ?sks)"
    using b(1) serves_keys [OF relays] by (simp add: those_Some)
  then have pks: "pks = map (public_key G) ?sks" by (rule map_injective) simp
  have "length recs = length ?sks"
    using records_ok_length [OF recs] list_all2_lengthD [OF relays] by simp
  then have peel: "peels G ?sks keys recs h"
    using assms(1) b(2,4) unfolding sphinx_ok_def pks by blast
  have "?sks \<noteq> []" using assms(2) relays by (cases rs) auto
  with peel have "header_decode G (header_encode G h) = Some h"
    by (cases ?sks; cases keys; cases recs) auto
  with that [OF peel recs] b(5-7) show thesis by (simp add: padded_def MAX_PAYLOAD_SIZE_def)
qed

lemma built_packet_travels:
  assumes "gotham_ok G" "sphinx_ok G C" "hops \<noteq> []" "distinct (map rd_kem_pubkey_bytes hops)" "list_all2 (serves G) hops rs"
    and "peels G (map (\<lambda>s. r_identity_sk (fst s)) rs) keys recs h" "records_ok hops recs" "route_ready G rs h"
    and "length (padded G payload) = MAX_PAYLOAD_SIZE G"
  shows "delivered hops (padded G payload) (travel G gen ln_f rs (header_encode G h @ onion_payload G C keys payload) rng)"
  using travel_delivers [OF assms(1,2,6,7) _ assms(5,4,3), of "padded G payload"] assms(8,9)
  by (simp add: onion_payload_def padded_def MAX_PAYLOAD_SIZE_def)

text \<open>C6. Onion delivery. A packet the client builds for a path of distinct relays, handed from relay
  to relay, is forwarded at each hop to exactly the next hop of the path, after a delay of at most
  thirty seconds, and at the last hop it is delivered as the payload the client was given, padded
  with zeros. This needs each relay's limiter to admit the packet and its cache not to hold its tag,
  and it rests on the packet crate's promise that wrapped headers unwrap along their route.\<close>

theorem onion_delivers:
  assumes "gotham_ok G" "sphinx_ok G C" "hops \<noteq> []" "distinct (map rd_kem_pubkey_bytes hops)"
    and sent: "build_packet G C gen ln_f c hops payload rng = (Sent packet, rng')"
    and relays: "list_all2 (serves G) hops rs"
    and h: "header_decode G (take (HEADER_LEN G) packet) = Some h" "route_ready G rs h"
  shows "delivered hops (padded G payload) (travel G gen' ln_f' rs packet rng2)"
proof -
  obtain h' keys recs where p: "peels G (map (\<lambda>s. r_identity_sk (fst s)) rs) keys recs h'" "records_ok hops recs"
    "header_decode G (take (HEADER_LEN G) packet) = Some h'" "packet = header_encode G h' @ onion_payload G C keys payload"
    "length (padded G payload) = MAX_PAYLOAD_SIZE G" by (rule built_packet [OF assms(2,3) sent relays])
  from h(1) p(3) have "h = h'" by simp
  with built_packet_travels [OF assms(1-4) relays p(1,2) _ p(5)] h(2) show ?thesis by (simp add: p(4))
qed

text \<open>
  The packets that clients and relays put on the wire; the packets a relay is given may be anything.
\<close>

inductive emitted :: "('h, 'k) gotham \<Rightarrow> ('h, 'k, 'g) sender_crypto \<Rightarrow> ('g \<Rightarrow> f64 \<times> 'g) \<Rightarrow> (f64 \<Rightarrow> f64) \<Rightarrow> bytes \<Rightarrow> bool"
  for G C gen ln_f where
  built: "build_packet G C gen ln_f c hops payload rng = (Sent packet, rng') \<Longrightarrow> emitted G C gen ln_f packet"
| forwarded: "process G gen ln_f t1 t2 p r rng = (Some (Forward a n d v packet), r', rng') \<Longrightarrow>
    emitted G C gen ln_f packet"

text \<open>C23. Every packet looks alike. A packet that a client sends, and a packet that a relay forwards, has
  exactly \<open>PACKET_SIZE\<close> bytes, whatever the payload, the path, the hop and the packet it came from.\<close>

theorem packets_uniform:
  assumes "gotham_ok G" "sphinx_ok G C" "emitted G C gen ln_f packet"
  shows "length packet = PACKET_SIZE G"
  using assms(3)
proof cases
  case (built c hops payload rng rng')
  from build_packet_Sent [OF this] obtain h keys where
    "packet = header_encode G h @ onion_payload G C keys payload"
    "length (header_encode G h) = HEADER_LEN G" "HEADER_LEN G + length payload \<le> PACKET_SIZE G"
    by metis
  then show ?thesis using length_onion [OF assms(2)] by (simp add: MAX_PAYLOAD_SIZE_def)
next
  case (forwarded t1 t2 p r rng a n d v r' rng')
  show ?thesis
    by (cases rule: process_cases [OF assms(1), of p gen ln_f t1 t2 r rng, case_names size rate reject authentic])
      (use forwarded in \<open>auto simp: rejects_def process_authentic_def Let_def route_def fill_packet_def
        split: prod.splits replay_check.splits option.splits if_splits\<close>)
qed

text \<open>A toy packet format with three hops, for concrete runs: a header counts the hops behind it.\<close>

definition toy_hop :: "nat \<Rightarrow> relay_descriptor" where
  "toy_hop i =
     \<lparr>rd_kem_pubkey_bytes = Some [of_nat i], rd_rendezvous = False, rd_ipv4_octets = Some [10, 0, 0, of_nat i],
      rd_port = Some 4433, rd_socket_addr = Some ([10, 0, 0, of_nat i], 4433)\<rparr>"

definition toy_hops :: "relay_descriptor list" where
  "toy_hops = [toy_hop 1, toy_hop 2, toy_hop 3]"

definition toy_hop_record :: "nat \<Rightarrow> hop_record" where
  "toy_hop_record i =
     \<lparr>hr_delay_micros = 1000000, hr_next_ipv4 = (if i < 2 then [10, 0, 0, of_nat i + 2] else [0, 0, 0, 0]),
      hr_next_port = (if i < 2 then 4433 else 0),
      hr_next_node_id = (if i < 2 then [of_nat i + 2] else replicate 32 0),
      hr_is_last_hop = (i = 2), hr_is_via_rendezvous = False\<rparr>"

definition toy_onion :: "(nat, bytes) gotham" where
  "toy_onion =
     \<lparr>PACKET_SIZE = 4, HEADER_LEN = 1, VERSION_LEGACY = 2,
      header_decode = (\<lambda>bs. case bs of [b] \<Rightarrow> Some (unat b) | _ \<Rightarrow> None),
      header_encode = (\<lambda>h. [of_nat h]), header_version = (\<lambda>_. 3),
      header_alpha = (\<lambda>h. [of_nat h]), header_gamma = (\<lambda>h. [of_nat h]),
      x25519 = (\<lambda>sk a. sk @ a), public_key = (\<lambda>sk. sk),
      derive_hop_subkeys = Some,
      unwrap_header = (\<lambda>h k. if h < 3 then Inr (toy_hop_record h, h + 1) else Inl GBadMac),
      k_payload = (\<lambda>k. k), lioness_decrypt = (\<lambda>k p. map (\<lambda>b. b - hd k) p)\<rparr>"

definition toy_sender :: "(nat, bytes, unit) sender_crypto" where
  "toy_sender =
     \<lparr>pick_path = (\<lambda>g rs gs n. (if n \<le> length rs then Some (take n rs) else None, g)),
      pick_to_exit = (\<lambda>g rs gs n ex. (if n \<le> length rs + 1 then Some (take (n - 1) rs @ [ex]) else None, g)),
      derive_route_secrets = (\<lambda>g pks. (if length pks = 3
        then Some ([], map2 (\<lambda>pk i. pk @ [i]) pks [0, 1, 2]) else None, g)),
      fill_bytes = (\<lambda>g n. (replicate n 7, g)),
      wrap_header = (\<lambda>g m as ks recs tr. (if recs = map toy_hop_record [0, 1, 2] then Some 0 else None, g)),
      lioness_encrypt = (\<lambda>k p. map (\<lambda>b. b + hd k) p),
      seal = (\<lambda>g pk spk body. (Some (pk @ spk @ body), g)),
      TRAILER_LEN = 2, MODE_LOW_LATENCY = 1, MODE_BALANCED = 2, MODE_PARANOID = 3\<rparr>"

lemma toy_onion_ok: "gotham_ok toy_onion"
  by (simp add: gotham_ok_def toy_onion_def)

lemma toy_sphinx_ok: "sphinx_ok toy_onion toy_sender"
proof -
  have peel: "peels toy_onion sks keys recs h"
    if "derive_route_secrets toy_sender g1 (map (public_key toy_onion) sks) = (Some (alphas, keys), g2)"
      "length recs = length sks" "wrap_header toy_sender g3 md alphas keys recs tr = (Some h, g4)"
    for sks recs g1 g2 g3 g4 alphas keys md tr h
  proof -
    have "length sks = 3" "recs = map toy_hop_record [0, 1, 2]" "h = 0"
      "keys = map2 (\<lambda>pk i. pk @ [i]) sks [0, 1, 2]"
      using that by (auto simp: toy_sender_def toy_onion_def split: if_splits)
    moreover from this obtain a b c where "sks = [a, b, c]"
      by (auto simp: numeral_3_eq_3 length_Suc_conv)
    moreover have "toy_hop_record (Suc (Suc 0)) = toy_hop_record 2" by (simp only: numeral_2_eq_2)
    ultimately show ?thesis by (simp add: toy_onion_def)
  qed
  have "lioness_decrypt toy_onion k (lioness_encrypt toy_sender k p) = p"
    "length (lioness_encrypt toy_sender k p) = length p" for k p
    by (simp_all add: toy_onion_def toy_sender_def comp_def)
  with peel show ?thesis unfolding sphinx_ok_def by blast
qed

definition half_gen :: "unit \<Rightarrow> f64 \<times> unit" where
  "half_gen g = (Fin (1 / 2), g)"

definition toy_client :: gotham_client where
  "toy_client = \<lparr>gc_mean_hop_delay_micros = SENDER_MEAN_DELAY_MICROS, gc_entry_guards = []\<rparr>"

definition toy_ln :: "f64 \<Rightarrow> f64" where
  "toy_ln x = Fin (- 2)"

lemma toy_delay: "sender_hop_delay_micros half_gen toy_ln (ps_new SENDER_MEAN_DELAY_MICROS) g = (Some 1000000, g)"
proof -
  have e: "f_of_rat 1 = Fin 1" "f_of_rat 2 = Fin 2" "f_of_rat 50 = Fin 50" "f_of_rat 500000 = Fin 500000"
    "f_of_rat 50000000 = Fin 50000000"
    using f_of_nat_exact [of 1] f_of_nat_exact [of 2] f_of_nat_exact [of 50] f_of_nat_exact [of 500000]
      f_of_nat_exact [of 50000000] by (simp_all add: f_of_nat_def)
  have "round_half_even (1000000000 :: rat) = 1000000000"
    using rhe_of_int [of 1000000000] by simp
  with e show ?thesis
    by (simp add: sender_hop_delay_micros_def next_delay_def ps_new_def SENDER_MEAN_DELAY_MICROS_def f_of_nat_def
        f_eq_def half_gen_def toy_ln_def f_clamp_def f_le_def from_secs_f64_def as_micros_def max_def word_le_nat_alt)
qed

definition toy_relays :: "(relay \<times> instant \<times> instant) list" where
  "toy_relays = map (\<lambda>i. (relay_new [of_nat i] 3 60 0 0 0, 5, 6)) [1, 2, 3]"

lemma toy_packet:
  "build_packet toy_onion toy_sender half_gen toy_ln toy_client toy_hops [9, 8] () = (Sent [0, 15, 14, 6], ())"
proof -
  have "build_records half_gen toy_ln (ps_new SENDER_MEAN_DELAY_MICROS) toy_hops () =
      (Sent (map toy_hop_record [0, 1, 2]), ())"
    by (simp add: toy_hops_def toy_delay record_for_def toy_hop_def toy_hop_record_def default_record_def)
  then show ?thesis
    by (simp add: build_packet_def toy_client_def toy_onion_def toy_sender_def onion_payload_def MAX_PAYLOAD_SIZE_def)
      (simp add: toy_hops_def toy_hop_def onion_payload_def MAX_PAYLOAD_SIZE_def)
qed

lemma toy_route_ready: "route_ready toy_onion toy_relays 0"
  by (simp add: toy_relays_def ready_def toy_onion_def relay_new_def rl_unlimited_def rl_new_def f_max_def
      rl_check_at_def quota_guard_def rc_new_def check_and_insert_at_def rc_eval)

theorem onion_delivers_witness:
  "delivered toy_hops [9, 8, 0] (travel toy_onion half_gen toy_ln toy_relays [0, 15, 14, 6] ())"
proof -
  have "list_all2 (serves toy_onion) toy_hops toy_relays"
    by (simp add: toy_hops_def toy_hop_def toy_relays_def serves_def identity_public_key_def toy_onion_def relay_new_def)
  moreover have "distinct (map rd_kem_pubkey_bytes toy_hops)" "toy_hops \<noteq> []"
    by (simp_all add: toy_hops_def toy_hop_def)
  moreover have "header_decode toy_onion (take (HEADER_LEN toy_onion) [0, 15, 14, 6]) = Some 0"
    by (simp add: toy_onion_def)
  moreover have "padded toy_onion [9, 8] = [9, 8, 0]"
    by (simp add: padded_def MAX_PAYLOAD_SIZE_def toy_onion_def)
  ultimately show ?thesis
    using onion_delivers [OF toy_onion_ok toy_sphinx_ok _ _ toy_packet _ _ toy_route_ready] by metis
qed

theorem packets_uniform_witness: "length [0, 15, 14, 6 :: byte] = PACKET_SIZE toy_onion"
  by (rule packets_uniform [OF toy_onion_ok toy_sphinx_ok emitted.built [OF toy_packet]])

text \<open>The promise of the sealing scheme: what is sealed for a public key opens under its secret key.\<close>

definition seal_opens :: "('h, 'k, 'g) sender_crypto \<Rightarrow> ('m, 'a) mailbox_api \<Rightarrow> bytes \<Rightarrow> bytes \<Rightarrow> bool" where
  "seal_opens C M pk sk \<longleftrightarrow>
     (\<forall>g sender_pk body env g'. seal C g pk sender_pk body = (Some env, g') \<longrightarrow> unseal M sk env = Some (sender_pk, body))"

lemma unsealing_frame:
  assumes "length env < 2 ^ 32"
  shows "unsealing_handler M sk (frame_envelope env @ zs) = unseal M sk env"
  using assms by (simp add: unsealing_handler_def frame_envelope_def be32.enc_length be32.dec_enc unat_of_nat)

text \<open>Sealed messages arrive. What the client frames for a recipient, padded with zeros as it arrives at
  the last hop, is exactly opened by the recipient's handler: the length prefix
  cuts the padding off and the sender's key and the body come out. The prefix has 32 bits, so this needs a
  payload size below 4 GiB.\<close>

lemma sealed_roundtrip:
  assumes "seal_opens C M recipient_pk recipient_sk" "MAX_PAYLOAD_SIZE G < 2 ^ 32"
    and "seal_and_frame G C recipient_pk sender_pk body rng = (Sent framed, rng')"
  shows "unsealing_handler M recipient_sk (padded G framed) = Some (sender_pk, body) \<and>
    length framed \<le> MAX_PAYLOAD_SIZE G"
proof -
  obtain env where env: "seal C rng recipient_pk sender_pk body = (Some env, rng')" "framed = frame_envelope env"
    "length (frame_envelope env) \<le> MAX_PAYLOAD_SIZE G"
    using assms(3) by (auto simp: seal_and_frame_def split: prod.splits option.splits if_splits)
  then have "unseal M recipient_sk env = Some (sender_pk, body)"
    using assms(1) unfolding seal_opens_def by blast
  moreover have "length env < 2 ^ 32" using env(3) assms(2) by (simp add: frame_envelope_def)
  ultimately show ?thesis using env by (simp add: padded_def unsealing_frame)
qed

end
