(* ===== verification/Pool.thy ===== *)
theory Pool
  imports Hash_Map Handshake
begin

section \<open>The connection pool\<close>

text \<open>
  \<^verbatim>\<open>crypto-gotham-relay/src/pool.rs\<close>: the table of open connections to next hops, keyed by address and
  public key. The table holds shared references, so a connection is an index into the store of
  connections; a connection that left the table can still be in use. A call of \<^verbatim>\<open>send\<close> takes the
  lock of the table several times; what other calls do in between is the argument \<open>others\<close>, and
  the iteration order of the table is the argument \<open>ord\<close>. Connecting and opening a stream is the
  argument \<open>dial\<close>; the Noise handshake on the stream is that of \<open>Handshake\<close>.
\<close>

definition DEFAULT_MAX_SIZE :: nat where
  "DEFAULT_MAX_SIZE = 128"

definition DEFAULT_IDLE_TTL :: duration where
  "DEFAULT_IDLE_TTL = from_secs 300"

type_synonym pool_key = "bytes \<times> bytes"

text \<open>\<open>pc_peer\<close> records the key a connection was dialled for; the code does not store it.\<close>

record 'n pooled_connection =
  pc_link :: "'n link"
  pc_last_used :: instant
  pc_peer :: pool_key

record 'n connection_pool =
  cp_my_sk :: bytes
  cp_pool :: "(pool_key, nat) hmap"
  cp_max_size :: nat
  cp_conns :: "nat \<Rightarrow> 'n pooled_connection"
  cp_next :: nat

definition pool_new :: "(nat \<Rightarrow> 'n pooled_connection) \<Rightarrow> bytes \<Rightarrow> 'n connection_pool" where
  "pool_new conns my_sk = \<lparr>cp_my_sk = my_sk, cp_pool = [], cp_max_size = DEFAULT_MAX_SIZE, cp_conns = conns, cp_next = 0\<rparr>"

definition with_max_size :: "nat \<Rightarrow> 'n connection_pool \<Rightarrow> 'n connection_pool" where
  "with_max_size max_size p = p\<lparr>cp_max_size := max max_size 1\<rparr>"

definition pool_len :: "'n connection_pool \<Rightarrow> nat" where
  "pool_len p = hm_len (cp_pool p)"

definition pool_is_empty :: "'n connection_pool \<Rightarrow> bool" where
  "pool_is_empty p = (cp_pool p = [])"

definition send_packet :: "'n noise \<Rightarrow> nat \<Rightarrow> instant \<Rightarrow> bytes \<Rightarrow> 'n pooled_connection
    \<Rightarrow> unit res \<times> 'n pooled_connection" where
  "send_packet N packet_size now packet c =
     (case write_noise_frame N packet_size packet (pc_link c) of
        (Ok _, l) \<Rightarrow> (Ok (), c\<lparr>pc_link := l, pc_last_used := now\<rparr>)
      | (Err e, l) \<Rightarrow> (Err e, c\<lparr>pc_link := l\<rparr>)
      | (Blocked, l) \<Rightarrow> (Blocked, c\<lparr>pc_link := l\<rparr>))"

definition send_on :: "'n noise \<Rightarrow> nat \<Rightarrow> instant \<Rightarrow> bytes \<Rightarrow> nat \<Rightarrow> 'n connection_pool
    \<Rightarrow> unit res \<times> 'n connection_pool" where
  "send_on N packet_size now packet i p =
     (case send_packet N packet_size now packet (cp_conns p i) of
        (r, c) \<Rightarrow> (r, p\<lparr>cp_conns := (cp_conns p)(i := c)\<rparr>))"

text \<open>The scan of \<^verbatim>\<open>evict_oldest_locked\<close>.\<close>

fun oldest_scan :: "(nat \<Rightarrow> instant) \<Rightarrow> (pool_key \<times> nat) list \<Rightarrow> (pool_key \<times> instant) option
    \<Rightarrow> (pool_key \<times> instant) option" where
  "oldest_scan last_used [] oldest = oldest"
| "oldest_scan last_used ((k, i) # rest) oldest =
     oldest_scan last_used rest
       (case oldest of
          None \<Rightarrow> Some (k, last_used i)
        | Some (k0, prev_ts) \<Rightarrow> if last_used i < prev_ts then Some (k, last_used i) else Some (k0, prev_ts))"

definition evict_oldest :: "((pool_key, nat) hmap \<Rightarrow> (pool_key \<times> nat) list) \<Rightarrow> 'n connection_pool \<Rightarrow> 'n connection_pool" where
  "evict_oldest ord p =
     (case oldest_scan (\<lambda>i. pc_last_used (cp_conns p i)) (ord (cp_pool p)) None of
        None \<Rightarrow> p
      | Some (k, _) \<Rightarrow> p\<lparr>cp_pool := hm_remove k (cp_pool p)\<rparr>)"

text \<open>The last critical section: make room and insert.\<close>

definition pool_insert :: "((pool_key, nat) hmap \<Rightarrow> (pool_key \<times> nat) list) \<Rightarrow> pool_key \<Rightarrow> nat
    \<Rightarrow> 'n connection_pool \<Rightarrow> 'n connection_pool" where
  "pool_insert ord key i p =
     (let p1 = (if hm_len (cp_pool p) \<ge> cp_max_size p then evict_oldest ord p else p) in
      p1\<lparr>cp_pool := hm_insert key i (cp_pool p1)\<rparr>)"

definition open_new :: "('h, 'n) handshake \<Rightarrow> transport_error + 'x link \<Rightarrow> pool_key \<Rightarrow> instant \<Rightarrow> 'n connection_pool
    \<Rightarrow> nat res \<times> 'n connection_pool" where
  "open_new H dialled key now p =
     (case dialled of
        Inl e \<Rightarrow> (Err e, p)
      | Inr s \<Rightarrow>
          (case noise_initiator_handshake H (cp_my_sk p) (snd key) s of
             (Err e, _) \<Rightarrow> (Err e, p)
           | (Blocked, _) \<Rightarrow> (Blocked, p)
           | (Ok n, s1) \<Rightarrow>
               (Ok (cp_next p),
                p\<lparr>cp_conns := (cp_conns p)(cp_next p := \<lparr>pc_link = attach n s1, pc_last_used = now, pc_peer = key\<rparr>),
                  cp_next := Suc (cp_next p)\<rparr>)))"

definition dial_and_send :: "('h, 'n) handshake \<Rightarrow> 'n noise \<Rightarrow> nat \<Rightarrow> ((pool_key, nat) hmap \<Rightarrow> (pool_key \<times> nat) list)
    \<Rightarrow> (nat \<Rightarrow> 'n connection_pool \<Rightarrow> 'n connection_pool) \<Rightarrow> (pool_key \<Rightarrow> transport_error + 'x link)
    \<Rightarrow> instant \<Rightarrow> instant \<Rightarrow> pool_key \<Rightarrow> bytes \<Rightarrow> 'n connection_pool \<Rightarrow> unit res \<times> 'n connection_pool" where
  "dial_and_send H N packet_size ord others dial t_open t_sent key packet p =
     (case open_new H (dial key) key t_open p of
        (Err e, p1) \<Rightarrow> (Err e, p1)
      | (Blocked, p1) \<Rightarrow> (Blocked, p1)
      | (Ok i, p1) \<Rightarrow>
          (case send_on N packet_size t_sent packet i p1 of
             (Ok _, p2) \<Rightarrow> (Ok (), pool_insert ord key i (others 2 p2))
           | (Err e, p2) \<Rightarrow> (Err e, p2)
           | (Blocked, p2) \<Rightarrow> (Blocked, p2)))"

definition pool_send :: "('h, 'n) handshake \<Rightarrow> 'n noise \<Rightarrow> nat \<Rightarrow> ((pool_key, nat) hmap \<Rightarrow> (pool_key \<times> nat) list)
    \<Rightarrow> (nat \<Rightarrow> 'n connection_pool \<Rightarrow> 'n connection_pool) \<Rightarrow> (pool_key \<Rightarrow> transport_error + 'x link)
    \<Rightarrow> instant \<Rightarrow> instant \<Rightarrow> instant \<Rightarrow> pool_key \<Rightarrow> bytes \<Rightarrow> 'n connection_pool
    \<Rightarrow> unit res \<times> 'n connection_pool" where
  "pool_send H N packet_size ord others dial t_cached t_open t_sent key packet p =
     (case hm_get (cp_pool p) key of
        Some i \<Rightarrow>
          (case send_on N packet_size t_cached packet i (others 0 p) of
             (Ok _, p1) \<Rightarrow> (Ok (), p1)
           | (Blocked, p1) \<Rightarrow> (Blocked, p1)
           | (Err _, p1) \<Rightarrow>
               let p2 = others 1 p1;
                   p3 = p2\<lparr>cp_pool := hm_remove key (cp_pool p2)\<rparr> in
               dial_and_send H N packet_size ord others dial t_open t_sent key packet p3)
      | None \<Rightarrow> dial_and_send H N packet_size ord others dial t_open t_sent key packet (others 0 p))"

subsection \<open>The oldest entry\<close>

lemma oldest_scan_spec:
  "oldest_scan f kis acc = Some (k, ts) \<Longrightarrow>
   (acc = Some (k, ts) \<or> (\<exists>i. (k, i) \<in> set kis \<and> ts = f i)) \<and>
   (\<forall>k' i. (k', i) \<in> set kis \<longrightarrow> ts \<le> f i) \<and> (\<forall>k0 t0. acc = Some (k0, t0) \<longrightarrow> ts \<le> t0)"
proof (induction f kis acc arbitrary: rule: oldest_scan.induct)
  case (2 f k1 i rest acc)
  then show ?case by (cases acc) (force split: if_splits)+
qed simp

lemma oldest_scan_None: "oldest_scan f kis acc = None \<longleftrightarrow> kis = [] \<and> acc = None"
  by (induction f kis acc rule: oldest_scan.induct) (auto split: option.splits if_splits)

subsection \<open>The invariant\<close>

definition pool_inv :: "'n connection_pool \<Rightarrow> bool" where
  "pool_inv p \<longleftrightarrow>
     hm_wf (cp_pool p) \<and> 1 \<le> cp_max_size p \<and> hm_len (cp_pool p) \<le> cp_max_size p \<and>
     (\<forall>k i. hm_get (cp_pool p) k = Some i \<longrightarrow> i < cp_next p \<and> pc_peer (cp_conns p i) = k)"

lemma pool_invD:
  "pool_inv p \<Longrightarrow> hm_get (cp_pool p) k = Some i \<Longrightarrow> i < cp_next p \<and> pc_peer (cp_conns p i) = k"
  unfolding pool_inv_def by blast

text \<open>
  What every call guarantees to the calls it interleaves with, and relies on from them: the
  invariant is kept, the bound stays, connections are only added and keep the peer they have.
\<close>

definition pool_guar :: "'n connection_pool \<Rightarrow> 'n connection_pool \<Rightarrow> bool" where
  "pool_guar p p' \<longleftrightarrow>
     (pool_inv p \<longrightarrow>
        pool_inv p' \<and> cp_max_size p' = cp_max_size p \<and> cp_next p \<le> cp_next p' \<and>
        (\<forall>i<cp_next p. pc_peer (cp_conns p' i) = pc_peer (cp_conns p i)))"

lemma pool_guar_refl: "pool_guar p p"
  by (simp add: pool_guar_def)

lemma pool_guar_trans: "pool_guar p q \<Longrightarrow> pool_guar q r \<Longrightarrow> pool_guar p r"
  by (auto simp: pool_guar_def)

lemma send_packet_peer: "pc_peer (snd (send_packet N n t packet c)) = pc_peer c"
  by (auto simp: send_packet_def split: prod.splits res.splits)

lemma send_on_fields:
  assumes "send_on N n t packet i p = (r, p')"
  shows "cp_pool p' = cp_pool p \<and> cp_max_size p' = cp_max_size p \<and> cp_next p' = cp_next p \<and>
    (\<forall>j. pc_peer (cp_conns p' j) = pc_peer (cp_conns p j)) \<and> (\<forall>j. j \<noteq> i \<longrightarrow> cp_conns p' j = cp_conns p j)"
  using assms send_packet_peer [of N n t packet "cp_conns p i"]
  by (auto simp: send_on_def split: prod.splits)

lemma send_on_guar: "send_on N n t packet i p = (r, p') \<Longrightarrow> pool_guar p p'"
  using send_on_fields [of N n t packet i p r p'] by (simp add: pool_guar_def pool_inv_def)

lemma remove_inv:
  assumes "pool_inv p"
  shows "pool_inv (p\<lparr>cp_pool := hm_remove key (cp_pool p)\<rparr>)"
  using assms hm.size_remove_le [of "cp_pool p" key]
  by (auto simp: pool_inv_def hm.wf_remove hm.lookup_remove split: if_splits)

lemma remove_guar: "pool_guar p (p\<lparr>cp_pool := hm_remove key (cp_pool p)\<rparr>)"
  by (simp add: pool_guar_def remove_inv)

text \<open>Eviction removes an entry that was used least recently.\<close>

lemma evict_oldest_cases:
  assumes "iterates ord" "hm_wf (cp_pool p)" "cp_pool p \<noteq> []"
  obtains k i where "evict_oldest ord p = p\<lparr>cp_pool := hm_remove k (cp_pool p)\<rparr>"
    "hm_get (cp_pool p) k = Some i"
    "\<And>k' i'. hm_get (cp_pool p) k' = Some i' \<Longrightarrow> pc_last_used (cp_conns p i) \<le> pc_last_used (cp_conns p i')"
proof -
  let ?f = "\<lambda>i. pc_last_used (cp_conns p i)"
  have set: "set (ord (cp_pool p)) = set (cp_pool p)" using assms(1) by (simp add: iterates_def)
  have get: "hm_get (cp_pool p) k = Some i \<longleftrightarrow> (k, i) \<in> set (cp_pool p)" for k i
    using assms(2) by (simp add: hm_get_def hm_wf_def)
  have "ord (cp_pool p) \<noteq> []" using assms(3) set by (metis set_empty)
  then obtain k ts where k: "oldest_scan ?f (ord (cp_pool p)) None = Some (k, ts)"
    using oldest_scan_None [of ?f "ord (cp_pool p)" None] by fastforce
  from oldest_scan_spec [OF k] obtain i where "(k, i) \<in> set (cp_pool p)" "ts = ?f i"
    "\<forall>k' i'. (k', i') \<in> set (cp_pool p) \<longrightarrow> ts \<le> ?f i'" using set by auto
  then show thesis by (intro that [of k i]) (auto simp: evict_oldest_def k get)
qed

lemma pool_insert_inv:
  assumes "iterates ord" "pool_inv p" "i < cp_next p" "pc_peer (cp_conns p i) = key"
  shows "pool_inv (pool_insert ord key i p)"
proof -
  let ?m = "cp_pool p" and ?full = "hm_len (cp_pool p) \<ge> cp_max_size p"
  have wf: "hm_wf ?m" and one: "1 \<le> cp_max_size p" and le: "hm_len ?m \<le> cp_max_size p"
    using assms(2) by (simp_all add: pool_inv_def)
  have ne: "?m \<noteq> []" if ?full using that one by auto
  obtain victim w where m': "cp_pool (if ?full then evict_oldest ord p else p) = (if ?full then hm_remove victim ?m else ?m)"
    and v: "?full \<Longrightarrow> hm_get ?m victim = Some w"
  proof (cases ?full)
    case True
    obtain k j where e: "evict_oldest ord p = p\<lparr>cp_pool := hm_remove k ?m\<rparr>" "hm_get ?m k = Some j"
      using evict_oldest_cases [OF assms(1) wf ne [OF True]] .
    show thesis by (rule that [of k j]) (simp_all add: e)
  next
    case False
    with that show thesis by simp
  qed
  define p1 where "p1 = (if ?full then evict_oldest ord p else p)"
  have p1: "cp_max_size p1 = cp_max_size p" "cp_next p1 = cp_next p" "cp_conns p1 = cp_conns p"
    by (auto simp: p1_def evict_oldest_def split: option.splits)
  note m1 = m' [folded p1_def]
  have wf1: "hm_wf (cp_pool p1)" using wf by (simp add: m1 hm.wf_remove)
  have len: "hm_len (hm_insert key i (cp_pool p1)) \<le> cp_max_size p"
    using v by (intro hm.evict_insert_bound [OF wf le one _ m1]) blast
  have old: "hm_get (cp_pool p1) k = Some j \<Longrightarrow> hm_get ?m k = Some j" for k j
    using wf by (simp add: m1 hm.lookup_remove split: if_splits)
  have ins: "pool_insert ord key i p = p1\<lparr>cp_pool := hm_insert key i (cp_pool p1)\<rparr>"
    by (simp add: pool_insert_def p1_def Let_def)
  have "j < cp_next p \<and> pc_peer (cp_conns p j) = k" if "hm_get (hm_insert key i (cp_pool p1)) k = Some j" for k j
    using that assms(3,4) old [of k j] pool_invD [OF assms(2), of k j] wf1
    by (cases "k = key") (simp_all add: hm.lookup_insert)
  with wf1 len one p1 show ?thesis by (simp add: ins pool_inv_def hm.wf_insert)
qed

lemma pool_insert_fields:
  "cp_max_size (pool_insert ord key i p) = cp_max_size p" "cp_next (pool_insert ord key i p) = cp_next p"
  "cp_conns (pool_insert ord key i p) = cp_conns p"
  by (auto simp: pool_insert_def evict_oldest_def Let_def split: option.splits)

subsection \<open>Interleaved sends\<close>

lemma open_new_guar: "open_new H d key t p = (r, p') \<Longrightarrow> pool_guar p p'"
  by (fastforce simp: pool_guar_def pool_inv_def open_new_def split: sum.splits prod.splits res.splits)

lemma open_new_ok:
  assumes "open_new H d key t p = (Ok i, p')"
  shows "i = cp_next p" "i < cp_next p'" "pc_peer (cp_conns p' i) = key" "j < cp_next p \<Longrightarrow> cp_conns p' j = cp_conns p j"
  using assms by (auto simp: open_new_def split: sum.splits prod.splits res.splits)

lemma open_new_fail: "open_new H d key t p = (r, p') \<Longrightarrow> \<forall>i. r \<noteq> Ok i \<Longrightarrow> p' = p"
  by (auto simp: open_new_def split: sum.splits prod.splits res.splits)

lemma dial_and_send_guar:
  assumes "iterates ord" "\<And>j p. pool_guar p (others j p)"
    and "dial_and_send H N n ord others dial t1 t2 key packet p = (r, p')"
  shows "pool_guar p p'"
proof (cases "\<exists>i. fst (open_new H (dial key) key t1 p) = Ok i")
  case False
  obtain x p1 where o1: "open_new H (dial key) key t1 p = (x, p1)" by fastforce
  with False assms(3) have "p' = p1" by (cases x) (simp_all add: dial_and_send_def)
  with open_new_guar [OF o1] show ?thesis by simp
next
  case True
  then obtain i p1 where o1: "open_new H (dial key) key t1 p = (Ok i, p1)" by (metis prod.collapse)
  obtain q p2 where s: "send_on N n t2 packet i p1 = (q, p2)" by fastforce
  have g: "pool_guar p p2" using pool_guar_trans [OF open_new_guar [OF o1] send_on_guar [OF s]] .
  show ?thesis
  proof (cases q)
    case (Ok x)
    let ?p3 = "others 2 p2"
    have p': "p' = pool_insert ord key i ?p3" using assms(3) o1 s Ok by (simp add: dial_and_send_def)
    have new: "i < cp_next p2" "pc_peer (cp_conns p2 i) = key"
      using open_new_ok [OF o1] send_on_fields [OF s] by simp_all
    have "pool_guar ?p3 p'" if "pool_inv p"
    proof -
      have "pool_inv p2" using g that by (simp add: pool_guar_def)
      then have "pool_inv ?p3" "i < cp_next ?p3" "pc_peer (cp_conns ?p3 i) = key"
        using assms(2) [of p2 2] new by (auto simp: pool_guar_def)
      then show ?thesis
        using pool_insert_inv [OF assms(1)] by (simp add: p' pool_guar_def pool_insert_fields)
    qed
    with pool_guar_trans [OF g assms(2) [of p2 2]] show ?thesis
      using pool_guar_trans [of p ?p3 p'] by (auto simp: pool_guar_def)
  qed (use assms(3) o1 s g in \<open>simp_all add: dial_and_send_def\<close>)
qed

lemma pool_send_guar:
  assumes "iterates ord" "\<And>j p. pool_guar p (others j p)"
    and "pool_send H N n ord others dial t0 t1 t2 key packet p = (r, p')"
  shows "pool_guar p p'"
proof (cases "hm_get (cp_pool p) key")
  case None
  then have "dial_and_send H N n ord others dial t1 t2 key packet (others 0 p) = (r, p')"
    using assms(3) by (simp add: pool_send_def)
  from pool_guar_trans [OF assms(2) dial_and_send_guar [OF assms(1,2) this]] show ?thesis .
next
  case (Some i)
  obtain q p1 where s: "send_on N n t0 packet i (others 0 p) = (q, p1)" by fastforce
  have g1: "pool_guar p p1" using pool_guar_trans [OF assms(2) send_on_guar [OF s]] .
  show ?thesis
  proof (cases q)
    case (Err e)
    let ?p2 = "others 1 p1"
    let ?p3 = "?p2\<lparr>cp_pool := hm_remove key (cp_pool ?p2)\<rparr>"
    have "dial_and_send H N n ord others dial t1 t2 key packet ?p3 = (r, p')"
      using assms(3) Some s Err by (simp add: pool_send_def Let_def)
    from dial_and_send_guar [OF assms(1,2) this] have "pool_guar ?p3 p'" .
    with pool_guar_trans [OF pool_guar_trans [OF g1 assms(2) [of p1 1]] remove_guar]
    show ?thesis by (rule pool_guar_trans)
  qed (use assms(3) Some s g1 in \<open>simp_all add: pool_send_def\<close>)
qed

text \<open>Every pooled connection leads to the key it is filed under.\<close>

definition well_filed :: "'n connection_pool \<Rightarrow> bool" where
  "well_filed p = list_all (\<lambda>(k, i). pc_peer (cp_conns p i) = k) (cp_pool p)"

lemma pool_inv_well_filed:
  assumes "pool_inv p"
  shows "well_filed p"
proof -
  have "pc_peer (cp_conns p i) = k" if "(k, i) \<in> set (cp_pool p)" for k i
  proof -
    have "hm_get (cp_pool p) k = Some i" using assms that by (simp add: pool_inv_def hm_get_def hm_wf_def)
    from pool_invD [OF assms this] show ?thesis by simp
  qed
  then show ?thesis unfolding well_filed_def list_all_iff by blast
qed

text \<open>C30. The pool stays within its bound under any interleaving: if whatever the other tasks do
  between the critical sections of a call keeps the pool's guarantee, so does the call itself; so
  any number of concurrent sends, with failures, evictions and races on the same next hop, never
  hold more than the maximum of connections, and every pooled connection leads to the key it is
  filed under.\<close>

theorem pool_bounded:
  assumes "iterates ord" "\<forall>j q. pool_guar q (others j q)" "pool_inv p"
    and "pool_send H N n ord others dial t0 t1 t2 key packet p = (r, p')"
  shows "pool_guar p p' \<and> pool_len p' \<le> cp_max_size p \<and> well_filed p'"
proof -
  have g: "pool_guar p p'" using pool_send_guar [OF assms(1) _ assms(4)] assms(2) by blast
  with assms(3) have inv: "pool_inv p'" and "cp_max_size p' = cp_max_size p" by (simp_all add: pool_guar_def)
  then have "pool_len p' \<le> cp_max_size p" by (simp add: pool_inv_def pool_len_def)
  with g pool_inv_well_filed [OF inv] show ?thesis by blast
qed

definition toy_dialled :: "unit link" where
  "toy_dialled = toy_stream\<lparr>lk_in := hs_frame [1]\<rparr>"

definition toy_link :: "nat link" where
  "toy_link = \<lparr>lk_noise = 0, lk_in = [], lk_end = Finished, lk_out = [], lk_writes = None\<rparr>"

definition toy_pool :: "nat connection_pool" where
  "toy_pool =
     \<lparr>cp_my_sk = [1], cp_pool = [(([1], [7]), 0)], cp_max_size = 1,
      cp_conns = (\<lambda>_. \<lparr>pc_link = toy_link, pc_last_used = 3, pc_peer = ([1], [7])\<rparr>), cp_next = 1\<rparr>"

lemma toy_pool_inv: "pool_inv toy_pool"
  by (auto simp: pool_inv_def toy_pool_def hm_exec split: if_splits)

theorem pool_bounded_witness:
  "pool_guar toy_pool (snd (pool_send toy_handshake toy_noise 2 rev (\<lambda>_ q. q) (\<lambda>_. Inr toy_dialled) 5 6 7 ([2], [8]) [1, 1] toy_pool)) \<and>
   pool_len (snd (pool_send toy_handshake toy_noise 2 rev (\<lambda>_ q. q) (\<lambda>_. Inr toy_dialled) 5 6 7 ([2], [8]) [1, 1] toy_pool)) \<le> cp_max_size toy_pool \<and>
   well_filed (snd (pool_send toy_handshake toy_noise 2 rev (\<lambda>_ q. q) (\<lambda>_. Inr toy_dialled) 5 6 7 ([2], [8]) [1, 1] toy_pool))"
  by (rule pool_bounded [where ord = rev and others = "\<lambda>_ q. q"])
    (simp_all add: iterates_def pool_guar_refl toy_pool_inv, rule surjective_pairing)

lemma dial_addressed:
  assumes d: "dial_and_send H N n ord (\<lambda>_ q. q) dial t1 t2 key packet q = (r, q')"
    and q: "pool_inv q" "j < cp_next q"
  shows "cp_conns q' j = cp_conns q j \<and>
    (r = Ok () \<longrightarrow> (\<exists>i. hm_get (cp_pool q') key = Some i \<and> pc_peer (cp_conns q' i) = key \<and>
       pc_last_used (cp_conns q' i) = t2))"
proof (cases "\<exists>i. fst (open_new H (dial key) key t1 q) = Ok i")
  case True
  then obtain i q1 where o1: "open_new H (dial key) key t1 q = (Ok i, q1)" by (metis prod.collapse)
  obtain x q2 where s: "send_on N n t2 packet i q1 = (x, q2)" by fastforce
  have i: "i = cp_next q" "cp_conns q1 j = cp_conns q j" "pc_peer (cp_conns q1 i) = key"
    using open_new_ok [OF o1] q by simp_all
  have j: "cp_conns q2 j = cp_conns q j" using send_on_fields [OF s] i q by auto
  have peer: "pc_peer (cp_conns q2 i) = key" using send_on_fields [OF s] i by simp
  show ?thesis
  proof (cases x)
    case (Ok y)
    have "pc_last_used (cp_conns q2 i) = t2"
      using s Ok by (auto simp: send_on_def send_packet_def split: prod.splits res.splits)
    moreover have "pool_inv q2"
      using pool_guar_trans [OF open_new_guar [OF o1] send_on_guar [OF s]] q by (simp add: pool_guar_def)
    then have "hm_get (cp_pool (pool_insert ord key i q2)) key = Some i"
      by (auto simp: pool_insert_def Let_def evict_oldest_def pool_inv_def hm.lookup_insert hm.wf_remove
          split: option.splits)
    ultimately show ?thesis
      using d o1 s Ok j peer by (auto simp: dial_and_send_def pool_insert_fields)
  qed (use d o1 s j in \<open>auto simp: dial_and_send_def\<close>)
next
  case False
  obtain x q1 where o1: "open_new H (dial key) key t1 q = (x, q1)" by fastforce
  with False d open_new_fail [OF o1] show ?thesis by (cases x) (auto simp: dial_and_send_def)
qed


lemma toy_dialled_handshake:
  "noise_initiator_handshake toy_handshake sk pk toy_dialled = (Ok 0, toy_stream\<lparr>lk_out := hs_frame [0] @ hs_frame [2]\<rparr>)"
proof -
  have "read_handshake_msg (toy_stream\<lparr>lk_in := hs_frame [1], lk_out := hs_frame [0]\<rparr>) = (Ok [1], toy_stream\<lparr>lk_out := hs_frame [0]\<rparr>)"
    using read_handshake_ok [of "[1]" "toy_stream\<lparr>lk_in := hs_frame [1], lk_out := hs_frame [0]\<rparr>" "[]"]
    by (simp add: MAX_HANDSHAKE_MSG_def toy_stream_def)
  then show ?thesis
    by (simp add: noise_initiator_handshake_def noise_initiator_handshake_bound_def hs_run toy_handshake_def write_handshake_ok
        MAX_HANDSHAKE_MSG_def toy_dialled_def toy_stream_def)
qed


end
