(* ===== verification/Text_Std.thy ===== *)
theory Text_Std
  imports Prelude
begin

section \<open>Text\<close>

text \<open>
  The string operations of the standard library that the enrolment client and the command line use. A
  string is its UTF-8 encoding, one character per byte, as \<^verbatim>\<open>str\<close> stores it.
\<close>

definition ascii :: "string \<Rightarrow> bytes" where
  "ascii s = map of_char s"

definition text_of :: "bytes \<Rightarrow> string" where
  "text_of bs = map (\<lambda>b. char_of (unat b)) bs"

lemma text_of_append [simp]: "text_of (a @ b) = text_of a @ text_of b"
  by (simp add: text_of_def)

lemma unat_of_char [simp]: "unat (of_char c :: byte) = (of_char c :: nat)"
proof -
  have "(of_char c :: nat) < 256" by (cases c) (simp add: of_char_def)
  then have "unat (of_nat (of_char c) :: byte) = (of_char c :: nat)" by (simp add: unat_of_nat)
  then show ?thesis by (simp add: of_nat_of_char)
qed

lemma text_of_ascii [simp]: "text_of (ascii s) = s"
  by (simp add: text_of_def ascii_def map_idI)

text \<open>The encodings of the characters with the Unicode property \<^verbatim>\<open>White_Space\<close>, which \<^verbatim>\<open>trim\<close> removes.\<close>

definition white_space :: "nat list list" where
  "white_space =
     [[9], [10], [11], [12], [13], [32], [194, 133], [194, 160], [225, 154, 128],
      [226, 128, 128], [226, 128, 129], [226, 128, 130], [226, 128, 131], [226, 128, 132], [226, 128, 133],
      [226, 128, 134], [226, 128, 135], [226, 128, 136], [226, 128, 137], [226, 128, 138], [226, 128, 168],
      [226, 128, 169], [226, 128, 175], [226, 129, 159], [227, 128, 128]]"

function strip :: "nat list list \<Rightarrow> string \<Rightarrow> string" where
  "strip ws s =
     (case find (\<lambda>w. w \<noteq> [] \<and> map of_char (take (length w) s) = w) ws of
        None \<Rightarrow> s
      | Some w \<Rightarrow> strip ws (drop (length w) s))"
  by auto
termination
proof (relation "measure (\<lambda>(ws, s). length s)")
  fix ws s w
  assume "find (\<lambda>w. w \<noteq> [] \<and> map of_char (take (length w) s) = w) ws = Some w"
  then have w: "w \<noteq> [] \<and> map of_char (take (length w) s) = w" by (auto simp: find_Some_iff)
  then have "s \<noteq> []" by auto
  with w show "((ws, drop (length w) s), (ws, s)) \<in> measure (\<lambda>(ws, s). length s)"
    by (cases w) (simp_all add: Suc_diff_le)
qed simp

declare strip.simps [simp del]

definition trim :: "string \<Rightarrow> string" where
  "trim s = rev (strip (map rev white_space) (rev (strip white_space s)))"

text \<open>\<^verbatim>\<open>str::from_utf8\<close> accepts exactly the well-formed encodings: no overlong form, no surrogate, nothing above U+10FFFF.\<close>

definition continuation :: "nat \<Rightarrow> bool" where
  "continuation b = (128 \<le> b \<and> b \<le> 191)"

fun is_utf8 :: "nat list \<Rightarrow> bool" where
  "is_utf8 [] = True"
| "is_utf8 (a # bs) =
     (if a < 128 then is_utf8 bs
      else if 194 \<le> a \<and> a \<le> 223 then
        (case bs of b # bs' \<Rightarrow> continuation b \<and> is_utf8 bs' | _ \<Rightarrow> False)
      else if 224 \<le> a \<and> a \<le> 239 then
        (case bs of
           b # c # bs' \<Rightarrow>
             continuation b \<and> continuation c \<and> (a = 224 \<longrightarrow> 160 \<le> b) \<and> (a = 237 \<longrightarrow> b \<le> 159) \<and> is_utf8 bs'
         | _ \<Rightarrow> False)
      else if 240 \<le> a \<and> a \<le> 244 then
        (case bs of
           b # c # d # bs' \<Rightarrow>
             continuation b \<and> continuation c \<and> continuation d \<and> (a = 240 \<longrightarrow> 144 \<le> b) \<and> (a = 244 \<longrightarrow> b \<le> 143) \<and>
             is_utf8 bs'
         | _ \<Rightarrow> False)
      else False)"

lemma ascii_is_utf8: "list_all (\<lambda>b. b < 128) bs \<Longrightarrow> is_utf8 bs"
  by (induction bs) auto

text \<open>\<^verbatim>\<open>trim_end_matches\<close> for one character.\<close>

definition trim_end_matches :: "char \<Rightarrow> string \<Rightarrow> string" where
  "trim_end_matches c s = rev (dropWhile (\<lambda>x. x = c) (rev s))"

definition ascii_lower :: "char \<Rightarrow> char" where
  "ascii_lower c = (let n = (of_char c :: nat) in if 65 \<le> n \<and> n \<le> 90 then char_of (n + 32) else c)"

definition to_ascii_lowercase :: "string \<Rightarrow> string" where
  "to_ascii_lowercase s = map ascii_lower s"

fun contains :: "string \<Rightarrow> string \<Rightarrow> bool" where
  "contains pat [] = (pat = [])"
| "contains pat (c # cs) = (take (length pat) (c # cs) = pat \<or> contains pat cs)"

text \<open>\<^verbatim>\<open>split_once\<close> for one character: the text before and after its first occurrence.\<close>

fun split_once :: "char \<Rightarrow> string \<Rightarrow> (string \<times> string) option" where
  "split_once sep [] = None"
| "split_once sep (c # cs) =
     (if c = sep then Some ([], cs) else map_option (\<lambda>(a, b). (c # a, b)) (split_once sep cs))"

definition is_ascii_hexdigit :: "byte \<Rightarrow> bool" where
  "is_ascii_hexdigit b =
     (48 \<le> unat b \<and> unat b \<le> 57 \<or> 65 \<le> unat b \<and> unat b \<le> 70 \<or> 97 \<le> unat b \<and> unat b \<le> 102)"

text \<open>\<^verbatim>\<open>u8::is_ascii_whitespace\<close> does not count the vertical tab.\<close>

definition is_ascii_whitespace :: "byte \<Rightarrow> bool" where
  "is_ascii_whitespace b = (unat b \<in> {9, 10, 12, 13, 32})"

lemma contains_iff: "contains pat s \<longleftrightarrow> (\<exists>a b. s = a @ pat @ b)"
proof (induction s)
  case (Cons c cs)
  have pre: "take (length pat) (c # cs) = pat \<longleftrightarrow> (\<exists>b. c # cs = pat @ b)"
    by (metis append_eq_conv_conj append_take_drop_id)
  show ?case
  proof
    assume "contains pat (c # cs)"
    then consider b where "c # cs = pat @ b" | a b where "cs = a @ pat @ b" using Cons pre by auto
    then show "\<exists>a b. c # cs = a @ pat @ b" by cases (metis append_Nil, metis append_Cons)
  next
    assume "\<exists>a b. c # cs = a @ pat @ b"
    then obtain a b where ab: "c # cs = a @ pat @ b" by blast
    show "contains pat (c # cs)"
    proof (cases a)
      case Nil
      with ab have "\<exists>b. c # cs = pat @ b" by auto
      then show ?thesis unfolding contains.simps pre by (rule disjI1)
    next
      case (Cons x a')
      with ab have "cs = a' @ pat @ b" by simp
      then show ?thesis using Cons.IH by auto
    qed
  qed
qed simp

lemma split_once_Some: "split_once sep s = Some (a, b) \<Longrightarrow> s = a @ sep # b \<and> sep \<notin> set a"
  by (induction s arbitrary: a) (auto split: if_splits)

text \<open>Trimming a text of ASCII characters that are not space gives it back, also after a final newline.\<close>

definition solid :: "char \<Rightarrow> bool" where
  "solid c = ((of_char c :: nat) < 128 \<and> (of_char c :: nat) \<notin> {9, 10, 11, 12, 13, 32})"

lemma strip_stop:
  assumes "list_all (\<lambda>w. w = [] \<or> \<not> (hd w < 128 \<and> hd w \<notin> {9, 10, 11, 12, 13, 32})) ws" "s = [] \<or> solid (hd s)"
  shows "strip ws s = s"
proof -
  have "find (\<lambda>w. w \<noteq> [] \<and> map of_char (take (length w) s) = w) ws = None"
  proof -
    have "\<not> (w \<noteq> [] \<and> map of_char (take (length w) s) = w)" if "w \<in> set ws" for w
    proof
      assume w: "w \<noteq> [] \<and> map of_char (take (length w) s) = w"
      then obtain x w' where xw: "w = x # w'" by (cases w) auto
      with w obtain c s' where s: "s = c # s'" "of_char c = x" by (cases s) auto
      with assms that xw show False by (auto simp: solid_def list_all_iff)
    qed
    then show ?thesis by (auto simp: find_None_iff)
  qed
  then show ?thesis by (simp add: strip.simps)
qed

lemma trim_solid:
  assumes "list_all solid s"
  shows "trim s = s" "trim (s @ [CHR 0x0A]) = s"
proof -
  have last: "rev s = [] \<or> solid (hd (rev s))"
    using assms hd_in_set [of "rev s"] by (auto simp: list_all_iff)
  have bwd: "strip (map rev white_space) (rev s) = rev s"
    by (rule strip_stop [OF _ last]) (simp add: white_space_def)
  have newline: "strip (map rev white_space) (CHR 0x0A # t) = strip (map rev white_space) t" for t
    by (subst strip.simps) (simp add: white_space_def)
  have fwd: "strip white_space (s @ t) = s @ t" if "s \<noteq> []" for t
    using that assms by (intro strip_stop) (auto simp: white_space_def list_all_iff)
  have none: "strip white_space [] = []" "strip white_space [CHR 0x0A] = []"
    by (simp_all add: strip.simps white_space_def)
  show "trim s = s" using fwd [of "[]"] bwd none by (cases "s = []") (simp_all add: trim_def)
  show "trim (s @ [CHR 0x0A]) = s"
    using fwd [of "[CHR 0x0A]"] bwd newline none by (cases "s = []") (simp_all add: trim_def)
qed

end
