(* ===== verification/Listener.thy ===== *)
theory Listener
  imports Client Pool Text_Std
begin

section \<open>Connections, tasks and the listener\<close>

text \<open>
  \<^verbatim>\<open>crypto-gotham-relay/src/transport.rs\<close>, from \<^verbatim>\<open>per_source_limiter\<close> to the accept loop: the loop that
  serves a mixnet connection, the tasks it spawns, the inbound loop of a relay behind a rendezvous
  point, the periodic save of the replay cache, and the listener that admits connections and
  dispatches them by their negotiated protocol.

  The state the connections share is the record \<open>server\<close>. A connection takes the locks one after the
  other; what other connections do to the shared state in between is the argument \<open>others\<close>.
\<close>

subsection \<open>Tasks\<close>

text \<open>What a handled packet leaves to be done after its delay.\<close>

datatype task =
    DeliverTask duration bytes
  | PushTask duration bytes bytes
  | SendTask duration socket_addr_v4 bytes bytes

definition spawn_outcome :: "process_outcome \<Rightarrow> task list" where
  "spawn_outcome outcome =
     (case outcome of
        Drop _ \<Rightarrow> []
      | DeliverLocal delay payload \<Rightarrow> [DeliverTask delay payload]
      | Forward next_addr next_node_id delay via_rendezvous packet \<Rightarrow>
          if via_rendezvous then [PushTask delay next_node_id packet]
          else [SendTask delay next_addr next_node_id packet])"

definition addr_bytes :: "socket_addr_v4 \<Rightarrow> bytes" where
  "addr_bytes a = fst a @ u16_to_be_bytes (snd a)"

text \<open>
  The body of a spawned task once its delay is over, on the outside world \<open>'e\<close>: the delivery handler,
  the rendezvous table's \<^verbatim>\<open>push\<close>, or the pool. Results are only logged.
\<close>

definition run_task :: "(bytes \<Rightarrow> 'e \<Rightarrow> 'e) option \<Rightarrow> (bytes \<Rightarrow> bytes \<Rightarrow> 'e \<Rightarrow> 'e)
    \<Rightarrow> (pool_key \<Rightarrow> bytes \<Rightarrow> 'n connection_pool \<Rightarrow> unit res \<times> 'n connection_pool)
    \<Rightarrow> task \<Rightarrow> 'e \<times> 'n connection_pool \<Rightarrow> 'e \<times> 'n connection_pool" where
  "run_task delivery push send t w =
     (case t of
        DeliverTask _ payload \<Rightarrow>
          (case delivery of None \<Rightarrow> w | Some handler \<Rightarrow> (handler payload (fst w), snd w))
      | PushTask _ node_id packet \<Rightarrow> (push node_id packet (fst w), snd w)
      | SendTask _ addr node_id packet \<Rightarrow> (fst w, snd (send (addr_bytes addr, node_id) packet (snd w))))"

subsection \<open>The shared state\<close>

record ('m, 'r, 't, 'g) server =
  sv_relay :: relay
  sv_sources :: "bytes per_source_limiter"
  sv_rng :: 'g
  sv_tasks :: "task list"
  sv_mailbox :: "'m option"
  sv_roster :: "'r option"
  sv_rendezvous :: 't

definition PER_SOURCE_MAX_PPS :: f64 where
  "PER_SOURCE_MAX_PPS = Fin 200"

definition PER_SOURCE_MAX_TRACKED :: nat where
  "PER_SOURCE_MAX_TRACKED = 4096"

definition initial_sources :: "bytes per_source_limiter" where
  "initial_sources = psl_new PER_SOURCE_MAX_PPS 0 PER_SOURCE_MAX_TRACKED"

subsection \<open>A mixnet connection\<close>

text \<open>
  One iteration after the packet is read. \<open>ticks i\<close> are the readings of the clock: two for a new
  bucket, one for the check of the source, two inside the handler. A panic is \<open>None\<close>; it unwinds
  the connection's task and leaves the locks usable.
\<close>

record tick =
  tk_new1 :: instant
  tk_new2 :: instant
  tk_check :: instant
  tk_rate :: instant
  tk_replay :: instant

type_synonym table_order = "(bytes, rate_limiter \<times> instant) hmap \<Rightarrow> (bytes \<times> rate_limiter \<times> instant) list"

definition process_shared :: "('h, 'k) gotham \<Rightarrow> ('g \<Rightarrow> f64 \<times> 'g) \<Rightarrow> (f64 \<Rightarrow> f64) \<Rightarrow> instant \<Rightarrow> instant
    \<Rightarrow> bytes \<Rightarrow> ('m, 'r, 't, 'g) server \<Rightarrow> unit option \<times> ('m, 'r, 't, 'g) server" where
  "process_shared G gen ln_f t_rate t_replay packet w =
     (case process G gen ln_f t_rate t_replay packet (sv_relay w) (sv_rng w) of
        (None, r, rng) \<Rightarrow> (None, w\<lparr>sv_relay := r, sv_rng := rng\<rparr>)
      | (Some outcome, r, rng) \<Rightarrow>
          (Some (), w\<lparr>sv_relay := r, sv_rng := rng, sv_tasks := sv_tasks w @ spawn_outcome outcome\<rparr>))"

definition handle_packet :: "('h, 'k) gotham \<Rightarrow> ('g \<Rightarrow> f64 \<times> 'g) \<Rightarrow> (f64 \<Rightarrow> f64) \<Rightarrow> table_order \<Rightarrow> bytes \<Rightarrow> tick
    \<Rightarrow> (('m, 'r, 't, 'g) server \<Rightarrow> ('m, 'r, 't, 'g) server) \<Rightarrow> bytes \<Rightarrow> ('m, 'r, 't, 'g) server
    \<Rightarrow> unit option \<times> ('m, 'r, 't, 'g) server" where
  "handle_packet G gen ln_f ord src_ip tk between packet w =
     (case psl_check_at ord (tk_new1 tk) (tk_new2 tk) src_ip (length packet) (tk_check tk) (sv_sources w) of
        (decision, psl) \<Rightarrow>
          let w1 = w\<lparr>sv_sources := psl\<rparr> in
          if \<not> is_allowed decision then (Some (), w1)
          else process_shared G gen ln_f (tk_rate tk) (tk_replay tk) packet (between w1))"

lemma read_frame_less: "read_noise_frame N n s = (Ok p, s') \<Longrightarrow> length (lk_in s') < length (lk_in s)"
  by (auto simp: read_noise_frame_def link_simps FRAME_LEN_def NOISE_TAG_LEN_def split: prod.splits res.splits option.splits
      dest!: read_exact_Ok)

function serve_packets :: "('h, 'k) gotham \<Rightarrow> ('g \<Rightarrow> f64 \<times> 'g) \<Rightarrow> (f64 \<Rightarrow> f64) \<Rightarrow> 'n noise \<Rightarrow> table_order \<Rightarrow> bytes
    \<Rightarrow> (nat \<Rightarrow> tick) \<Rightarrow> (nat \<Rightarrow> ('m, 'r, 't, 'g) server \<Rightarrow> ('m, 'r, 't, 'g) server) \<Rightarrow> nat \<Rightarrow> ('m, 'r, 't, 'g) server
    \<Rightarrow> 'n link \<Rightarrow> unit res option \<times> ('m, 'r, 't, 'g) server" where
  "serve_packets G gen ln_f N ord src_ip ticks others i w s =
     (case read_noise_frame N (PACKET_SIZE G) s of
        (Err TRead, s1) \<Rightarrow> (Some (Ok ()), w)
      | (Err (TIo _), s1) \<Rightarrow> (Some (Ok ()), w)
      | (Err e, s1) \<Rightarrow> (Some (Err e), w)
      | (Blocked, s1) \<Rightarrow> (Some Blocked, w)
      | (Ok packet, s1) \<Rightarrow>
          (case handle_packet G gen ln_f ord src_ip (ticks i) (others (2 * i + 1)) packet (others (2 * i) w) of
             (None, w1) \<Rightarrow> (None, w1)
           | (Some _, w1) \<Rightarrow> serve_packets G gen ln_f N ord src_ip ticks others (Suc i) w1 s1))"
  by pat_completeness auto
termination
  by (relation "measure (\<lambda>(G, gen, l, N, ord, src, tk, ot, i, w, s). length (lk_in s))")
    (auto dest!: read_frame_less [OF sym])

declare serve_packets.simps [simp del]

definition serve_connection :: "('hs, 'n) handshake \<Rightarrow> ('h, 'k) gotham \<Rightarrow> ('g \<Rightarrow> f64 \<times> 'g) \<Rightarrow> (f64 \<Rightarrow> f64) \<Rightarrow> 'n noise
    \<Rightarrow> table_order \<Rightarrow> bytes \<Rightarrow> (nat \<Rightarrow> tick) \<Rightarrow> (nat \<Rightarrow> ('m, 'r, 't, 'g) server \<Rightarrow> ('m, 'r, 't, 'g) server) \<Rightarrow> bytes
    \<Rightarrow> transport_error + 'x link \<Rightarrow> ('m, 'r, 't, 'g) server \<Rightarrow> unit res option \<times> ('m, 'r, 't, 'g) server" where
  "serve_connection H G gen ln_f N ord src_ip ticks others static_sk accepted w =
     (case accepted of
        Inl e \<Rightarrow> (Some (Err e), w)
      | Inr s \<Rightarrow>
          (case noise_responder_handshake H static_sk s of
             (Err e, _) \<Rightarrow> (Some (Err e), w)
           | (Blocked, _) \<Rightarrow> (Some Blocked, w)
           | (Ok n, s1) \<Rightarrow> serve_packets G gen ln_f N ord src_ip ticks others 0 w (attach n s1)))"

subsection \<open>A relay behind a rendezvous point\<close>

text \<open>\<^verbatim>\<open>run_rendezvous_inbound\<close> on the packets its channel yields until it closes.\<close>

fun run_rendezvous_inbound :: "('h, 'k) gotham \<Rightarrow> ('g \<Rightarrow> f64 \<times> 'g) \<Rightarrow> (f64 \<Rightarrow> f64) \<Rightarrow> (nat \<Rightarrow> tick)
    \<Rightarrow> (nat \<Rightarrow> ('m, 'r, 't, 'g) server \<Rightarrow> ('m, 'r, 't, 'g) server) \<Rightarrow> nat \<Rightarrow> bytes list \<Rightarrow> ('m, 'r, 't, 'g) server
    \<Rightarrow> unit option \<times> ('m, 'r, 't, 'g) server" where
  "run_rendezvous_inbound G gen ln_f ticks others i [] w = (Some (), w)"
| "run_rendezvous_inbound G gen ln_f ticks others i (packet # packets) w =
     (case process_shared G gen ln_f (tk_rate (ticks i)) (tk_replay (ticks i)) packet (others i w) of
        (None, w1) \<Rightarrow> (None, w1)
      | (Some _, w1) \<Rightarrow> run_rendezvous_inbound G gen ln_f ticks others (Suc i) packets w1)"

subsection \<open>Saving the replay cache\<close>

text \<open>
  \<^verbatim>\<open>spawn_replay_persistence\<close>: at every tick the relay as it is then, the clocks, and how the write goes. A
  blocking task that panics is the same as a write that fails before its first call.
\<close>

fun persist_ticks :: "(relay \<times> instant \<times> u64 \<times> write_fate) list \<Rightarrow> fs \<Rightarrow> fs" where
  "persist_ticks [] files = files"
| "persist_ticks ((r, now, unix, fate) # ticks) files =
     (case encode_replay now unix r of
        None \<Rightarrow> files
      | Some (buf, p) \<Rightarrow> persist_ticks ticks (snd (write_encoded fate buf p files)))"

definition spawn_replay_persistence :: "relay \<Rightarrow> (relay \<times> instant \<times> u64 \<times> write_fate) list \<Rightarrow> fs \<Rightarrow> fs" where
  "spawn_replay_persistence r0 ticks files = (if \<not> persists_replay r0 then files else persist_ticks ticks files)"

definition run_rendezvous_relay_shared :: "transport_error + unit \<Rightarrow> ('h, 'k) gotham \<Rightarrow> ('g \<Rightarrow> f64 \<times> 'g)
    \<Rightarrow> (f64 \<Rightarrow> f64) \<Rightarrow> (nat \<Rightarrow> tick) \<Rightarrow> (nat \<Rightarrow> ('m, 'r, 't, 'g) server \<Rightarrow> ('m, 'r, 't, 'g) server) \<Rightarrow> bytes list
    \<Rightarrow> (relay \<times> instant \<times> u64 \<times> write_fate) list \<Rightarrow> ('m, 'r, 't, 'g) server \<Rightarrow> fs
    \<Rightarrow> unit res option \<times> ('m, 'r, 't, 'g) server \<times> fs" where
  "run_rendezvous_relay_shared client G gen ln_f ticks others packets saves w files =
     (case client of
        Inl e \<Rightarrow> (Some (Err e), w, files)
      | Inr _ \<Rightarrow>
          (case run_rendezvous_inbound G gen ln_f ticks others 0 packets w of
             (r, w1) \<Rightarrow>
               (map_option (\<lambda>_. Ok ()) r, w1, spawn_replay_persistence (sv_relay w) saves files)))"

definition run_rendezvous_relay :: "transport_error + unit \<Rightarrow> ('h, 'k) gotham \<Rightarrow> ('g \<Rightarrow> f64 \<times> 'g)
    \<Rightarrow> (f64 \<Rightarrow> f64) \<Rightarrow> (nat \<Rightarrow> tick) \<Rightarrow> (nat \<Rightarrow> ('m, 'r, 't, 'g) server \<Rightarrow> ('m, 'r, 't, 'g) server) \<Rightarrow> bytes list
    \<Rightarrow> (relay \<times> instant \<times> u64 \<times> write_fate) list \<Rightarrow> ('m, 'r, 't, 'g) server \<Rightarrow> fs
    \<Rightarrow> unit res option \<times> ('m, 'r, 't, 'g) server \<times> fs" where
  "run_rendezvous_relay client G gen ln_f ticks others packets saves w files =
     run_rendezvous_relay_shared client G gen ln_f ticks others packets saves w files"

subsection \<open>Protocols and dispatch\<close>

definition MIXNET_ALPN :: bytes where
  "MIXNET_ALPN = ascii ''gotham/1''"

definition MAILBOX_ALPN :: bytes where
  "MAILBOX_ALPN = ascii ''gotham-mbx/1''"

definition GOSSIP_ALPN :: bytes where
  "GOSSIP_ALPN = ascii ''gotham-dir/1''"

definition RENDEZVOUS_ALPN :: bytes where
  "RENDEZVOUS_ALPN = ascii ''gotham-rdv/1''"

definition RENDEZVOUS_QUERY_ALPN :: bytes where
  "RENDEZVOUS_QUERY_ALPN = ascii ''gotham-rdvq/1''"

text \<open>\<^verbatim>\<open>negotiated_alpn\<close>: the handshake data may be missing, of another type, or without a protocol.\<close>

definition negotiated_alpn :: "bytes option option option \<Rightarrow> bytes option" where
  "negotiated_alpn handshake_data =
     (case handshake_data of
        None \<Rightarrow> None
      | Some None \<Rightarrow> None
      | Some (Some protocol) \<Rightarrow> protocol)"

text \<open>The configuration the accept loop was started with, and one established connection.\<close>

record config =
  cf_static_sk :: bytes
  cf_authority_pop_pk :: "bytes option"
  cf_allow_unauth_fetch :: bool

record 'x incoming =
  in_handshake_data :: "bytes option option option"
  in_src_ip :: bytes
  in_accepted :: "transport_error + 'x link"

datatype conn_result = Closed string | Served "unit res option"

text \<open>
  What the code calls in other modules or crates, gathered: Noise, handshakes, packets, mailbox,
  rosters, the hosting of a tunnel (\<^verbatim>\<open>serve_rendezvous_connection\<close>) and the lookup in its table.
\<close>

record ('hs, 'n, 'h, 'k, 'm, 'a, 'r, 't, 'x) backends =
  be_handshake :: "('hs, 'n) handshake"
  be_noise :: "'n noise"
  be_gotham :: "('h, 'k) gotham"
  be_mailbox :: "('m, 'a) mailbox_api"
  be_max_mailbox_frame :: nat
  be_roster :: "'r roster_api"
  be_host_tunnel :: "bytes \<Rightarrow> transport_error + 'x link \<Rightarrow> 't \<Rightarrow> unit res \<times> 't"
  be_hosts :: "'t \<Rightarrow> bytes \<Rightarrow> bool"

text \<open>What happens around one connection: the clocks, and the other connections between its steps.\<close>

record ('m, 'r, 't, 'g) surroundings =
  su_ticks :: "nat \<Rightarrow> tick"
  su_unix :: "nat \<Rightarrow> u64"
  su_order :: table_order
  su_server :: "nat \<Rightarrow> ('m, 'r, 't, 'g) server \<Rightarrow> ('m, 'r, 't, 'g) server"
  su_mailbox :: "nat \<Rightarrow> 'm \<Rightarrow> 'm"
  su_roster :: "nat \<Rightarrow> 'r \<Rightarrow> 'r"

definition dispatch :: "('hs, 'n, 'h, 'k, 'm, 'a, 'r, 't, 'x) backends \<Rightarrow> ('g \<Rightarrow> f64 \<times> 'g) \<Rightarrow> (f64 \<Rightarrow> f64)
    \<Rightarrow> ('m, 'r, 't, 'g) surroundings \<Rightarrow> config \<Rightarrow> 'x incoming \<Rightarrow> ('m, 'r, 't, 'g) server
    \<Rightarrow> conn_result \<times> ('m, 'r, 't, 'g) server" where
  "dispatch B gen ln_f S cf conn w =
     (let alpn = negotiated_alpn (in_handshake_data conn); sk = cf_static_sk cf; acc = in_accepted conn in
      if alpn = Some MAILBOX_ALPN then
        (case sv_mailbox w of
           Some mb \<Rightarrow>
             (case serve_mailbox_connection (be_handshake B) (be_mailbox B) (be_noise B) (be_max_mailbox_frame B) sk
                (cf_allow_unauth_fetch cf) (su_unix S) (su_mailbox S) mb acc of
                (r, mb') \<Rightarrow> (Served (Some r), w\<lparr>sv_mailbox := Some mb'\<rparr>))
         | None \<Rightarrow> (Closed ''no mailbox here'', w))
      else if alpn = Some GOSSIP_ALPN then
        (case sv_roster w of
           Some roster \<Rightarrow>
             (case serve_gossip_connection (be_handshake B) (be_roster B) (be_noise B) (be_max_mailbox_frame B) sk
                (su_unix S) (su_roster S) roster acc of
                (r, roster') \<Rightarrow> (Served (Some r), w\<lparr>sv_roster := Some roster'\<rparr>))
         | None \<Rightarrow> (Closed ''no gossip here'', w))
      else if alpn = Some RENDEZVOUS_ALPN then
        (case be_host_tunnel B sk acc (sv_rendezvous w) of
           (r, t) \<Rightarrow> (Served (Some r), w\<lparr>sv_rendezvous := t\<rparr>))
      else if alpn = Some RENDEZVOUS_QUERY_ALPN then
        (Served (Some (fst (serve_rendezvous_query (be_handshake B) (be_noise B) sk (cf_authority_pop_pk cf)
           (be_hosts B (sv_rendezvous w)) acc))), w)
      else
        (case serve_connection (be_handshake B) (be_gotham B) gen ln_f (be_noise B) (su_order S) (in_src_ip conn)
           (su_ticks S) (su_server S) sk acc w of
           (r, w') \<Rightarrow> (Served r, w')))"

text \<open>The task of an accepted connection; a connection that fails to come up is dropped.\<close>

definition serve_incoming :: "('hs, 'n, 'h, 'k, 'm, 'a, 'r, 't, 'x) backends \<Rightarrow> ('g \<Rightarrow> f64 \<times> 'g) \<Rightarrow> (f64 \<Rightarrow> f64)
    \<Rightarrow> ('m, 'r, 't, 'g) surroundings \<Rightarrow> config \<Rightarrow> transport_error + 'x incoming \<Rightarrow> ('m, 'r, 't, 'g) server
    \<Rightarrow> conn_result option \<times> ('m, 'r, 't, 'g) server" where
  "serve_incoming B gen ln_f S cf connecting w =
     (case connecting of
        Inl e \<Rightarrow> (None, w)
      | Inr conn \<Rightarrow> (case dispatch B gen ln_f S cf conn w of (r, w') \<Rightarrow> (Some r, w')))"

subsection \<open>The accept loop\<close>

text \<open>
  The semaphore of the accept loop. A connection attempt takes a permit or is shed; the permit lives
  in the connection's task and comes back when the task ends, however it ends.
\<close>

record listener =
  li_permits :: nat
  li_next :: nat
  li_inflight :: "nat list"
  li_shed :: nat

datatype listener_event = Arrive | Finish nat

definition MAX_INFLIGHT_CONNS :: nat where
  "MAX_INFLIGHT_CONNS = 1024"

definition listener_new :: listener where
  "listener_new = \<lparr>li_permits = MAX_INFLIGHT_CONNS, li_next = 0, li_inflight = [], li_shed = 0\<rparr>"

definition on_arrive :: "listener \<Rightarrow> listener" where
  "on_arrive li =
     (if li_permits li = 0 then li\<lparr>li_shed := Suc (li_shed li)\<rparr>
      else li\<lparr>li_permits := li_permits li - 1, li_next := Suc (li_next li), li_inflight := li_next li # li_inflight li\<rparr>)"

definition on_finish :: "nat \<Rightarrow> listener \<Rightarrow> listener" where
  "on_finish i li =
     (if i \<in> set (li_inflight li)
      then li\<lparr>li_permits := Suc (li_permits li), li_inflight := remove1 i (li_inflight li)\<rparr>
      else li)"

fun accept_loop :: "listener_event list \<Rightarrow> listener \<Rightarrow> listener" where
  "accept_loop [] li = li"
| "accept_loop (Arrive # evs) li = accept_loop evs (on_arrive li)"
| "accept_loop (Finish i # evs) li = accept_loop evs (on_finish i li)"

subsection \<open>Starting the listener\<close>

text \<open>
  The public entry points. \<open>client\<close> and \<open>server\<close> are what building the two QUIC endpoints gave; \<open>rng\<close> and
  \<open>tunnels\<close> are the generator and the empty rendezvous table. Fetching without a proof is off until it is switched on.
\<close>

definition set_allow_unauthenticated_mailbox_fetch :: "bool \<Rightarrow> config \<Rightarrow> config" where
  "set_allow_unauthenticated_mailbox_fetch yes cf = cf\<lparr>cf_allow_unauth_fetch := yes\<rparr>"

definition allow_unauthenticated_mailbox_fetch :: "config \<Rightarrow> bool" where
  "allow_unauthenticated_mailbox_fetch cf = cf_allow_unauth_fetch cf"

type_synonym ('m, 'r, 't, 'g) started = "transport_error + listener \<times> config \<times> ('m, 'r, 't, 'g) server"

definition serve_endpoint_with_services_shared :: "'g \<Rightarrow> 't \<Rightarrow> transport_error + unit \<Rightarrow> bytes \<Rightarrow> relay \<Rightarrow> 'm option
    \<Rightarrow> 'r option \<Rightarrow> bytes option \<Rightarrow> ('m, 'r, 't, 'g) started" where
  "serve_endpoint_with_services_shared rng tunnels client static_sk relay mailbox gossip authority_pop_pk =
     (case client of
        Inl e \<Rightarrow> Inl e
      | Inr _ \<Rightarrow>
          Inr (listener_new,
            \<lparr>cf_static_sk = static_sk, cf_authority_pop_pk = authority_pop_pk, cf_allow_unauth_fetch = False\<rparr>,
            \<lparr>sv_relay = relay, sv_sources = initial_sources, sv_rng = rng, sv_tasks = [], sv_mailbox = mailbox,
             sv_roster = gossip, sv_rendezvous = tunnels\<rparr>))"

definition serve_endpoint_with_services :: "'g \<Rightarrow> 't \<Rightarrow> transport_error + unit \<Rightarrow> bytes \<Rightarrow> relay \<Rightarrow> 'm option
    \<Rightarrow> 'r option \<Rightarrow> bytes option \<Rightarrow> ('m, 'r, 't, 'g) started" where
  "serve_endpoint_with_services rng tunnels client static_sk relay mailbox gossip authority_pop_pk =
     serve_endpoint_with_services_shared rng tunnels client static_sk relay mailbox gossip authority_pop_pk"

definition serve_endpoint_with_mailbox :: "'g \<Rightarrow> 't \<Rightarrow> transport_error + unit \<Rightarrow> bytes \<Rightarrow> relay \<Rightarrow> 'm option
    \<Rightarrow> ('m, 'r, 't, 'g) started" where
  "serve_endpoint_with_mailbox rng tunnels client static_sk relay mailbox =
     serve_endpoint_with_services rng tunnels client static_sk relay mailbox None None"

definition serve_endpoint :: "'g \<Rightarrow> 't \<Rightarrow> transport_error + unit \<Rightarrow> bytes \<Rightarrow> relay \<Rightarrow> ('m, 'r, 't, 'g) started" where
  "serve_endpoint rng tunnels client static_sk relay =
     serve_endpoint_with_services rng tunnels client static_sk relay None None None"

definition run_relay_listener_with_services_shared :: "'g \<Rightarrow> 't \<Rightarrow> transport_error + unit \<Rightarrow> transport_error + unit
    \<Rightarrow> bytes \<Rightarrow> relay \<Rightarrow> 'm option \<Rightarrow> 'r option \<Rightarrow> bytes option \<Rightarrow> ('m, 'r, 't, 'g) started" where
  "run_relay_listener_with_services_shared rng tunnels server client static_sk relay mailbox gossip authority_pop_pk =
     (case server of
        Inl e \<Rightarrow> Inl e
      | Inr _ \<Rightarrow>
          serve_endpoint_with_services_shared rng tunnels client static_sk relay mailbox gossip authority_pop_pk)"

definition run_relay_listener_with_services :: "'g \<Rightarrow> 't \<Rightarrow> transport_error + unit \<Rightarrow> transport_error + unit
    \<Rightarrow> bytes \<Rightarrow> relay \<Rightarrow> 'm option \<Rightarrow> 'r option \<Rightarrow> bytes option \<Rightarrow> ('m, 'r, 't, 'g) started" where
  "run_relay_listener_with_services rng tunnels server client static_sk relay mailbox gossip authority_pop_pk =
     run_relay_listener_with_services_shared rng tunnels server client static_sk relay mailbox gossip authority_pop_pk"

definition run_relay_listener_with_mailbox :: "'g \<Rightarrow> 't \<Rightarrow> transport_error + unit \<Rightarrow> transport_error + unit
    \<Rightarrow> bytes \<Rightarrow> relay \<Rightarrow> 'm option \<Rightarrow> ('m, 'r, 't, 'g) started" where
  "run_relay_listener_with_mailbox rng tunnels server client static_sk relay mailbox =
     run_relay_listener_with_services rng tunnels server client static_sk relay mailbox None None"

definition run_relay_listener :: "'g \<Rightarrow> 't \<Rightarrow> transport_error + unit \<Rightarrow> transport_error + unit \<Rightarrow> bytes \<Rightarrow> relay
    \<Rightarrow> ('m, 'r, 't, 'g) started" where
  "run_relay_listener rng tunnels server client static_sk relay =
     run_relay_listener_with_mailbox rng tunnels server client static_sk relay None"

subsection \<open>No packet crashes a connection\<close>

definition task_ok :: "('h, 'k) gotham \<Rightarrow> duration \<Rightarrow> task \<Rightarrow> bool" where
  "task_ok G max_delay t =
     (case t of
        DeliverTask d payload \<Rightarrow> d \<le> max_delay \<and> length payload = PACKET_SIZE G - HEADER_LEN G
      | PushTask d _ packet \<Rightarrow> d \<le> max_delay \<and> length packet = PACKET_SIZE G
      | SendTask d _ _ packet \<Rightarrow> d \<le> max_delay \<and> length packet = PACKET_SIZE G)"

definition server_ok :: "('h, 'k) gotham \<Rightarrow> u64 \<Rightarrow> ('m, 'r, 't, 'g) server \<Rightarrow> bool" where
  "server_ok G mean w \<longleftrightarrow>
     r_scheduler (sv_relay w) = ps_new mean \<and> psl_inv (sv_sources w) \<and>
     list_all (task_ok G (max MAX_HOP_DELAY (100 * from_micros (unat mean)))) (sv_tasks w)"

lemma spawn_ok: "outcome_ok G r mx (Some out) \<Longrightarrow> list_all (task_ok G mx) (spawn_outcome out)"
  by (cases out) (auto simp: outcome_ok_def spawn_outcome_def task_ok_def)

lemma process_shared_safe:
  assumes "gotham_ok G" "unit_samples gen" "ln_is_number ln_f" "unat mean \<le> 2 ^ 33" "server_ok G mean w"
    and "process_shared G gen ln_f t1 t2 packet w = (r, w')"
  shows "r \<noteq> None \<and> server_ok G mean w'"
proof -
  have sch: "r_scheduler (sv_relay w) = ps_new mean" using assms(5) by (simp add: server_ok_def)
  obtain o1 r1 rng1 where p: "process G gen ln_f t1 t2 packet (sv_relay w) (sv_rng w) = (o1, r1, rng1)"
    by (metis prod_cases3)
  from process_total [OF assms(1-3) sch assms(4), of t1 t2 packet "sv_rng w"] p
  have ok: "outcome_ok G (sv_relay w) (max MAX_HOP_DELAY (100 * from_micros (unat mean))) o1" by simp
  then obtain out where o1: "o1 = Some out" by (cases o1) (auto simp: outcome_ok_def)
  have "r_scheduler r1 = ps_new mean" using process_config [OF assms(1) p] sch by simp
  with p o1 ok assms(5,6) show ?thesis
    by (auto simp: process_shared_def server_ok_def spawn_ok)
qed

lemma handle_packet_safe:
  assumes "gotham_ok G" "unit_samples gen" "ln_is_number ln_f" "unat mean \<le> 2 ^ 33" "iterates ord"
    and between: "\<And>w. server_ok G mean w \<Longrightarrow> server_ok G mean (between w)"
    and ok: "server_ok G mean w"
    and run: "handle_packet G gen ln_f ord src tk between packet w = (r, w')"
  shows "r \<noteq> None \<and> server_ok G mean w'"
proof -
  obtain d psl where c: "psl_check_at ord (tk_new1 tk) (tk_new2 tk) src (length packet) (tk_check tk) (sv_sources w) = (d, psl)"
    by fastforce
  have "psl_inv psl"
    using psl_inv_check [OF assms(5), of "sv_sources w" "tk_new1 tk" "tk_new2 tk" src "length packet" "tk_check tk"] ok c
    by (simp add: server_ok_def)
  with ok have ok1: "server_ok G mean (w\<lparr>sv_sources := psl\<rparr>)" by (simp add: server_ok_def)
  show ?thesis
  proof (cases "is_allowed d")
    case True
    with run c have "process_shared G gen ln_f (tk_rate tk) (tk_replay tk) packet (between (w\<lparr>sv_sources := psl\<rparr>)) = (r, w')"
      by (simp add: handle_packet_def)
    from process_shared_safe [OF assms(1-4) between [OF ok1] this] show ?thesis .
  next
    case False
    with run c ok1 show ?thesis by (auto simp: handle_packet_def)
  qed
qed

lemma serve_packets_safe:
  assumes "gotham_ok G" "unit_samples gen" "ln_is_number ln_f" "unat mean \<le> 2 ^ 33" "iterates ord"
    and "\<And>i w. server_ok G mean w \<Longrightarrow> server_ok G mean (others i w)"
  shows "server_ok G mean w \<Longrightarrow> serve_packets G gen ln_f N ord src ticks others i w s = (r, w') \<Longrightarrow>
    r \<noteq> None \<and> server_ok G mean w'"
proof (induction "length (lk_in s)" arbitrary: i w s rule: less_induct)
  case less
  obtain q s1 where rd: "read_noise_frame N (PACKET_SIZE G) s = (q, s1)" by fastforce
  show ?case
  proof (cases q)
    case (Ok packet)
    obtain x w1 where h: "handle_packet G gen ln_f ord src (ticks i) (others (2 * i + 1)) packet (others (2 * i) w) = (x, w1)"
      by fastforce
    from handle_packet_safe [OF assms(1-5) assms(6) assms(6) [OF less.prems(1)] h]
    have x: "x \<noteq> None" "server_ok G mean w1" by simp_all
    then have "serve_packets G gen ln_f N ord src ticks others (Suc i) w1 s1 = (r, w')"
      using less.prems(2) rd Ok h by (subst (asm) serve_packets.simps) auto
    from less.hyps [OF _ x(2) this] show ?thesis using read_frame_less rd Ok by blast
  qed (use less.prems rd in \<open>subst (asm) serve_packets.simps, auto split: transport_error.splits\<close>)+
qed

text \<open>C9. No peer can crash a connection or corrupt the shared state: whatever bytes arrive, and whatever
  other connections do in between as long as they keep the same invariant, serving a mixnet connection never
  panics, and it leaves the table of sources within its bound and every spawned task with a bounded
  delay and a full-size packet.\<close>

theorem serve_connection_safe:
  assumes "gotham_ok G" "unit_samples gen" "ln_is_number ln_f" "unat mean \<le> 2 ^ 33" "iterates ord"
    and "\<forall>i w. server_ok G mean w \<longrightarrow> server_ok G mean (others i w)" "server_ok G mean w"
  shows "fst (serve_connection H G gen ln_f N ord src ticks others sk accepted w) \<noteq> None \<and>
    server_ok G mean (snd (serve_connection H G gen ln_f N ord src ticks others sk accepted w))"
proof (cases accepted)
  case (Inr s)
  obtain q s1 where hs: "noise_responder_handshake H sk s = (q, s1)" by fastforce
  show ?thesis
  proof (cases q)
    case (Ok n)
    obtain r w' where "serve_packets G gen ln_f N ord src ticks others 0 w (attach n s1) = (r, w')" by fastforce
    with serve_packets_safe [OF assms(1-5) _ assms(7) this] assms(6) show ?thesis
      using Inr hs Ok by (simp add: serve_connection_def)
  qed (use Inr hs assms(7) in \<open>simp_all add: serve_connection_def\<close>)
qed (use assms(7) in \<open>simp add: serve_connection_def\<close>)

definition toy_server :: "(unit, unit, unit, unit) server" where
  "toy_server =
     \<lparr>sv_relay = toy_relay, sv_sources = initial_sources, sv_rng = (), sv_tasks = [], sv_mailbox = None,
      sv_roster = None, sv_rendezvous = ()\<rparr>"

lemma toy_server_ok: "server_ok toy_gotham 0 toy_server"
  by (simp add: server_ok_def toy_server_def toy_relay_def relay_new_def initial_sources_def psl_new_inv)

lemma iterates_id: "iterates (\<lambda>xs. xs)"
  by (simp add: iterates_def)

definition toy_tick :: "nat \<Rightarrow> tick" where
  "toy_tick i =
     \<lparr>tk_new1 = int i, tk_new2 = int i, tk_check = int i, tk_rate = int i, tk_replay = int i\<rparr>"

theorem serve_connection_safe_witness:
  "fst (serve_connection toy_handshake toy_gotham (\<lambda>g. (Fin (1 / 2), g)) (\<lambda>u. f_sub u (Fin 1)) toy_noise (\<lambda>xs. xs) [10, 0, 0, 1]
      toy_tick (\<lambda>_ w. w) [1] (Inr (toy_stream\<lparr>lk_in := hs_frame [0] @ hs_frame [2] @ replicate 40 7\<rparr>)) toy_server) \<noteq> None \<and>
   server_ok toy_gotham 0 (snd (serve_connection toy_handshake toy_gotham (\<lambda>g. (Fin (1 / 2), g)) (\<lambda>u. f_sub u (Fin 1)) toy_noise
      (\<lambda>xs. xs) [10, 0, 0, 1] toy_tick (\<lambda>_ w. w) [1]
      (Inr (toy_stream\<lparr>lk_in := hs_frame [0] @ hs_frame [2] @ replicate 40 7\<rparr>)) toy_server))"
  by (rule serve_connection_safe [OF toy_gotham_ok _ _ _ iterates_id _ toy_server_ok])
    (auto simp: unit_samples_def ln_is_number_def f_sub_def intro: exI [of _ "1 / 2"])

subsection \<open>The semaphore\<close>

definition listener_inv :: "listener \<Rightarrow> bool" where
  "listener_inv li \<longleftrightarrow>
     li_permits li + length (li_inflight li) = MAX_INFLIGHT_CONNS \<and> distinct (li_inflight li) \<and>
     (\<forall>i\<in>set (li_inflight li). i < li_next li)"

lemma on_arrive_inv: "listener_inv li \<Longrightarrow> listener_inv (on_arrive li)"
  by (auto simp: listener_inv_def on_arrive_def)

lemma on_finish_inv:
  assumes "listener_inv li"
  shows "listener_inv (on_finish i li)"
proof (cases "i \<in> set (li_inflight li)")
  case True
  then have "length (li_inflight li) = Suc (length (remove1 i (li_inflight li)))"
    using length_pos_if_in_set [OF True] by (simp add: length_remove1)
  with True assms show ?thesis by (auto simp: listener_inv_def on_finish_def)
qed (use assms in \<open>simp add: on_finish_def\<close>)

lemma accept_loop_inv: "listener_inv li \<Longrightarrow> listener_inv (accept_loop evs li)"
  by (induction evs li rule: accept_loop.induct) (simp_all add: on_arrive_inv on_finish_inv)

lemma listener_new_inv: "listener_inv listener_new"
  by (simp add: listener_inv_def listener_new_def)

lemma accept_loop_counts:
  "li_next (accept_loop evs li) + li_shed (accept_loop evs li) =
   li_next li + li_shed li + length (filter (\<lambda>e. e = Arrive) evs)"
  by (induction evs li rule: accept_loop.induct) (auto simp: on_arrive_def on_finish_def)

text \<open>The listener's semaphore: over any history of arriving and finishing connections at most 1024 are in
  flight, a permit is never lost or made up, every attempt is either admitted or shed, and an attempt is
  shed exactly when 1024 connections are in flight.\<close>

lemma listener_bounded:
  "let li = accept_loop evs listener_new in
   length (li_inflight li) \<le> 1024 \<and> li_permits li + length (li_inflight li) = 1024 \<and>
   li_next li + li_shed li = length (filter (\<lambda>e. e = Arrive) evs) \<and>
   (li_shed (on_arrive li) = Suc (li_shed li)) = (length (li_inflight li) = 1024)"
proof -
  define li where "li = accept_loop evs listener_new"
  have "listener_inv li" unfolding li_def by (rule accept_loop_inv [OF listener_new_inv])
  then have p: "li_permits li + length (li_inflight li) = 1024"
    by (simp add: listener_inv_def MAX_INFLIGHT_CONNS_def)
  moreover have "li_next li + li_shed li = length (filter (\<lambda>e. e = Arrive) evs)"
    using accept_loop_counts [of evs listener_new] by (simp add: li_def listener_new_def)
  moreover have "(li_shed (on_arrive li) = Suc (li_shed li)) = (length (li_inflight li) = 1024)"
    using p by (auto simp: on_arrive_def)
  ultimately show ?thesis unfolding li_def [symmetric] Let_def by simp
qed

subsection \<open>Services do not touch each other\<close>

text \<open>The part of the shared state that a protocol must leave alone.\<close>

definition same_mixnet :: "('m, 'r, 't, 'g) server \<Rightarrow> ('m, 'r, 't, 'g) server \<Rightarrow> bool" where
  "same_mixnet w w' \<longleftrightarrow>
     sv_relay w' = sv_relay w \<and> sv_sources w' = sv_sources w \<and> sv_rng w' = sv_rng w \<and> sv_tasks w' = sv_tasks w"

definition same_services :: "('m, 'r, 't, 'g) server \<Rightarrow> ('m, 'r, 't, 'g) server \<Rightarrow> bool" where
  "same_services w w' \<longleftrightarrow>
     sv_mailbox w' = sv_mailbox w \<and> sv_roster w' = sv_roster w \<and> sv_rendezvous w' = sv_rendezvous w"

definition confined :: "bytes option \<Rightarrow> ('m, 'r, 't, 'g) server \<Rightarrow> ('m, 'r, 't, 'g) server \<Rightarrow> bool" where
  "confined alpn w w' =
     (if alpn = Some MAILBOX_ALPN then
        same_mixnet w w' \<and> sv_roster w' = sv_roster w \<and> sv_rendezvous w' = sv_rendezvous w
      else if alpn = Some GOSSIP_ALPN then
        same_mixnet w w' \<and> sv_mailbox w' = sv_mailbox w \<and> sv_rendezvous w' = sv_rendezvous w
      else if alpn = Some RENDEZVOUS_ALPN then
        same_mixnet w w' \<and> sv_mailbox w' = sv_mailbox w \<and> sv_roster w' = sv_roster w
      else if alpn = Some RENDEZVOUS_QUERY_ALPN then w' = w
      else same_services w w')"

lemma handle_packet_services:
  assumes "\<And>w. same_services w (between w)"
  shows "same_services w (snd (handle_packet G gen ln_f ord src tk between packet w))"
  using assms [of "w\<lparr>sv_sources := psl\<rparr>" for psl]
  by (auto simp: handle_packet_def process_shared_def same_services_def Let_def split: prod.splits option.splits)

definition packet_turn :: "('h, 'k) gotham \<Rightarrow> ('g \<Rightarrow> f64 \<times> 'g) \<Rightarrow> (f64 \<Rightarrow> f64) \<Rightarrow> table_order \<Rightarrow> bytes \<Rightarrow> (nat \<Rightarrow> tick)
    \<Rightarrow> (nat \<Rightarrow> ('m, 'r, 't, 'g) server \<Rightarrow> ('m, 'r, 't, 'g) server) \<Rightarrow> nat \<Rightarrow> bytes \<Rightarrow> ('m, 'r, 't, 'g) server
    \<Rightarrow> ('m, 'r, 't, 'g) server" where
  "packet_turn G gen ln_f ord src ticks others i packet w =
     snd (handle_packet G gen ln_f ord src (ticks i) (others (2 * i + 1)) packet (others (2 * i) w))"

interpretation pk: request_loop "serve_packets G gen ln_f N ord src ticks others" snd "packet_turn G gen ln_f ord src ticks others"
  "\<lambda>s. length (lk_in s)" "\<lambda>_. True"
  for G :: "('h, 'k) gotham" and gen :: "'g \<Rightarrow> f64 \<times> 'g" and ln_f and N :: "'n noise" and ord src ticks
    and others :: "nat \<Rightarrow> ('m, 'r, 't, 'g) server \<Rightarrow> ('m, 'r, 't, 'g) server"
proof
  fix i and w :: "('m, 'r, 't, 'g) server" and s
  let ?loop = "serve_packets G gen ln_f N ord src ticks others" and ?turn = "packet_turn G gen ln_f ord src ticks others"
  obtain q s1 where rd: "read_noise_frame N (PACKET_SIZE G) s = (q, s1)" by fastforce
  show "snd (?loop i w s) = w \<or> (True \<and> (\<exists>packet. snd (?loop i w s) = ?turn i packet w \<or>
      (\<exists>s'. length (lk_in s') < length (lk_in s) \<and> ?loop i w s = ?loop (Suc i) (?turn i packet w) s')))"
  proof (cases q)
    case (Ok packet)
    obtain x w1 where h: "handle_packet G gen ln_f ord src (ticks i) (others (2 * i + 1)) packet (others (2 * i) w) = (x, w1)"
      by fastforce
    then have "?turn i packet w = w1" by (simp add: packet_turn_def)
    moreover have "?loop i w s = (case x of None \<Rightarrow> (None, w1) | Some _ \<Rightarrow> ?loop (Suc i) w1 s1)"
      by (subst serve_packets.simps) (simp only: rd Ok h prod.case res.case)
    then have "snd (?loop i w s) = w1 \<or> ?loop i w s = ?loop (Suc i) w1 s1" by (cases x) simp_all
    moreover have "length (lk_in s1) < length (lk_in s)" using read_frame_less rd Ok by blast
    ultimately show ?thesis by metis
  qed (subst serve_packets.simps, use rd in \<open>simp split: transport_error.splits\<close>)+
qed

lemma serve_packets_services:
  assumes "\<And>i w. same_services w (others i w)"
  shows "same_services w (snd (serve_packets G gen ln_f N ord src ticks others i w s))"
proof (rule pk.keeps [where P = "same_services w"])
  fix i packet v
  assume "same_services w v"
  with handle_packet_services [where between = "others (2 * i + 1)", OF assms, of "others (2 * i) v" G gen ln_f ord src "ticks i" packet]
    assms [of v "2 * i"]
  show "same_services w (packet_turn G gen ln_f ord src ticks others i packet v)" by (simp add: packet_turn_def same_services_def)
qed (simp add: same_services_def)

lemma serve_connection_services:
  assumes "\<And>i w. same_services w (others i w)"
  shows "same_services w (snd (serve_connection H G gen ln_f N ord src ticks others sk accepted w))"
  using serve_packets_services [OF assms]
  by (auto simp: serve_connection_def split: sum.splits prod.splits res.splits) (simp_all add: same_services_def)


definition toy_backends :: "(nat, nat, bytes, unit, (bytes \<times> bytes) list, byte, byte list, bytes list, unit) backends" where
  "toy_backends =
     \<lparr>be_handshake = toy_handshake, be_noise = toy_noise, be_gotham = toy_gotham, be_mailbox = toy_mailbox,
      be_max_mailbox_frame = 100, be_roster = toy_roster, be_host_tunnel = (\<lambda>sk acc t. (Ok (), [9] # t)),
      be_hosts = (\<lambda>t pk. pk \<in> set t)\<rparr>"

definition toy_surroundings :: "((bytes \<times> bytes) list, byte list, bytes list, unit) surroundings" where
  "toy_surroundings =
     \<lparr>su_ticks = toy_tick, su_unix = (\<lambda>_. 0), su_order = (\<lambda>xs. xs), su_server = (\<lambda>_ w. w), su_mailbox = (\<lambda>_ mb. mb),
      su_roster = (\<lambda>_ r. r)\<rparr>"

definition toy_full_server :: "((bytes \<times> bytes) list, byte list, bytes list, unit) server" where
  "toy_full_server =
     \<lparr>sv_relay = toy_relay, sv_sources = initial_sources, sv_rng = (), sv_tasks = [], sv_mailbox = Some [([5], [77])],
      sv_roster = Some [2], sv_rendezvous = []\<rparr>"


subsection \<open>Recovery after a crash\<close>

text \<open>The contents of the replay file after a run of saves: those of the last save that succeeded.\<close>

definition save_of :: "relay \<times> instant \<times> u64 \<times> write_fate \<Rightarrow> write_fate \<times> bytes" where
  "save_of tk = (case tk of (r, now, unix, fate) \<Rightarrow> (fate, encode now unix (r_replay_cache r)))"

lemma persist_ticks_saves:
  "\<forall>tk\<in>set ticks. r_replay_path (fst tk) = Some p \<Longrightarrow>
   persist_ticks ticks files = fold (\<lambda>(fate, buf). \<lambda>files. snd (write_encoded fate buf p files)) (map save_of ticks) files"
  by (induction ticks files rule: persist_ticks.induct) (simp_all add: encode_replay_def save_of_def)

lemma process_replayed:
  assumes "gotham_ok G" "length packet = PACKET_SIZE G" "fst (rl_check_at (length packet) t1 (r_rate_limiter r)) = Allow"
    and "authentic G (r_identity_sk r) (r_accept_header_v2 r) packet = Some (h, k, u)"
    and "fst (check_and_insert_at (header_gamma G h) t2 (r_replay_cache r)) = Replay"
  shows "fst (process G gen ln_f t1 t2 packet r rng) = Some (Drop ReplayDrop)"
proof (cases rule: process_cases [OF assms(1), of packet gen ln_f t1 t2 r rng, case_names size rate reject authentic])
  case (authentic h' k' u' rl)
  with assms(4) have h: "h' = h" "k' = k" "u' = u" by auto
  show ?thesis
    using authentic(4) process_authentic_replay [where gen = gen and ln_f = ln_f and packet = packet and k = k and u = u and rng = rng
        and G = G and h = h and t = t2 and r = "counted G h (r\<lparr>r_rate_limiter := rl\<rparr>)"] assms(5)
    by (simp add: h)
qed (use assms in auto)

lemma unlimited_allows: "fst (rl_check_at n t (rl_unlimited t1 t2)) = Allow"
  by (simp add: rl_unlimited_def rl_new_def rl_check_at_def quota_guard_def f_max_def Let_def)

text \<open>C5. A crash does not reopen the replay window. The relay saves its cache at every tick; some saves fail
  in any way at all. Whenever the process dies, the relay started next from the file drops every packet whose tag was in
  the cache at the last save that succeeded and whose time to live, counted with the wall clock over
  the time the relay was down, is not over.\<close>

theorem crash_recovery:
  assumes "gotham_ok G" "length packet = PACKET_SIZE G" "pext p \<noteq> Some ''tmp''"
    and paths: "\<forall>tk\<in>set (before @ (r, now, unix, Write_ok) # failed). r_replay_path (fst tk) = Some p"
    and failed: "\<forall>tk\<in>set failed. snd (snd (snd tk)) \<noteq> Write_ok"
    and cache: "rc_inv (r_replay_cache r)" "list_all key_ok (rc_queue (r_replay_cache r))"
      "(header_gamma G h, ts) \<in> set (rc_queue (r_replay_cache r))" "length (rc_queue (r_replay_cache r)) \<le> n"
      "duration_since now ts \<le> rc_ttl (r_replay_cache r)"
    and time: "D = from_secs (unat unix' - (unat unix - as_secs (duration_since now ts)))"
      "D \<le> rc_ttl (r_replay_cache r)" "t \<le> now' + int (rc_ttl (r_replay_cache r) - D)"
    and auth: "authentic G sk True packet = Some (h, k, u)"
  shows "\<exists>bs. persist_ticks (before @ (r, now, unix, Write_ok) # failed) files p = Some (bs, owner_only) \<and>
    fst (process G gen ln_f t0 t packet (with_replay_persistence lo (Inr bs) now' unix' p
      (relay_new sk n (rc_ttl (r_replay_cache r)) mean a b)) rng) = Some (Drop ReplayDrop)"
proof -
  let ?c = "r_replay_cache r" and ?bs = "encode now unix (r_replay_cache r)"
  have "persist_ticks (before @ (r, now, unix, Write_ok) # failed) files p = Some (?bs, owner_only)"
    unfolding persist_ticks_saves [OF paths]
    using rf.last_save_survives [OF assms(3), of "map save_of before" "(Write_ok, ?bs)" "map save_of failed"] failed
    by (simp add: save_of_def list_all_iff case_prod_unfold)
  moreover obtain res c' where l: "load lo (Inr ?bs) now' unix' (rc_new n (rc_ttl ?c)) = (res, c')" by fastforce
  let ?r = "with_replay_persistence lo (Inr ?bs) now' unix' p (relay_new sk n (rc_ttl ?c) mean a b)"
  have r: "r_replay_cache ?r = c'" "r_identity_sk ?r = sk" "r_accept_header_v2 ?r"
    "r_rate_limiter ?r = rl_unlimited a b"
    using l by (simp_all add: with_replay_persistence_def relay_new_def)
  have "fst (check_and_insert_at (header_gamma G h) t c') = Replay"
    using restart_keeps_protection [OF cache(1,2,3,5,4) time l] by simp
  then have "fst (process G gen ln_f t0 t packet ?r rng) = Some (Drop ReplayDrop)"
    using auth by (intro process_replayed [OF assms(1,2)]) (simp_all add: r unlimited_allows)
  ultimately show ?thesis by blast
qed

theorem crash_recovery_witness:
  "\<exists>bs. persist_ticks [(toy_relay\<lparr>r_replay_path := Some \<lparr>pdir = ''s'', pstem = ''r'', pext = None\<rparr>,
        r_replay_cache := \<lparr>rc_map = [([4, 0] @ replicate 14 0, 0)], rc_queue = [([4, 0] @ replicate 14 0, 0)],
          rc_ttl = 60000000000, rc_max_size = 2\<rparr>\<rparr>, 10000000000, 1000, Write_ok)] (\<lambda>_. None)
      \<lparr>pdir = ''s'', pstem = ''r'', pext = None\<rparr> = Some (bs, owner_only) \<and>
    fst (process (toy_gotham\<lparr>header_gamma := \<lambda>h. h @ replicate 14 0\<rparr>) (\<lambda>g. (Fin 0, g)) (\<lambda>u. u) 0 40000000000 [4, 0, 1, 2]
      (with_replay_persistence 0 (Inr bs) 15000000000 1020 \<lparr>pdir = ''s'', pstem = ''r'', pext = None\<rparr>
        (relay_new [1] 1 60000000000 0 0 0)) ()) = Some (Drop ReplayDrop)"
proof -
  let ?G = "toy_gotham\<lparr>header_gamma := \<lambda>h. h @ replicate 14 0\<rparr>"
  let ?p = "\<lparr>pdir = ''s'', pstem = ''r'', pext = None\<rparr>"
  let ?c = "\<lparr>rc_map = [([4, 0] @ replicate 14 0, 0)], rc_queue = [([4, 0] @ replicate 14 0, 0)],
    rc_ttl = 60000000000, rc_max_size = 2\<rparr>"
  let ?r = "toy_relay\<lparr>r_replay_path := Some ?p, r_replay_cache := ?c\<rparr>"
  have "gotham_ok ?G" using toy_gotham_ok by (simp add: gotham_ok_def)
  moreover have "authentic ?G [1] True [4, 0, 1, 2] = Some ([4, 0], (), toy_record [4, 0], [4, 0])"
    by (simp add: authentic_def toy_gotham_def)
  ultimately show ?thesis
    using crash_recovery [where G = ?G and packet = "[4, 0, 1, 2]" and p = ?p and before = "[]" and failed = "[]" and r = ?r
        and now = 10000000000 and unix = 1000 and h = "[4, 0]" and ts = 0 and n = 1 and unix' = 1020 and t = 40000000000
        and now' = 15000000000 and sk = "[1]" and k = "()" and u = "(toy_record [4, 0], [4, 0])" and files = "\<lambda>_. None"
        and gen = "\<lambda>g. (Fin 0, g)" and ln_f = "\<lambda>u. u" and ?t0.0 = 0 and lo = 0 and mean = 0 and a = 0 and b = 0 and rng = "()"]
    by (simp add: toy_gotham_def rc_inv_def hm_exec fun_eq_iff key_ok_def time_simps duration_since_def)
qed

end
