(* ===== verification/Net_Addr.thy ===== *)
theory Net_Addr
  imports Text_Std
begin

section \<open>Addresses as text\<close>

text \<open>
  The parsers of the standard library for IP and socket addresses, which the command line uses: a parser takes
  the remaining text and returns a value and the text after it, or \<open>None\<close> and consumes nothing.
\<close>

datatype ip_addr = V4 "byte list" | V6 "u16 list"

type_synonym socket_addr = "ip_addr \<times> u16"

definition to_digit :: "nat \<Rightarrow> char \<Rightarrow> nat option" where
  "to_digit radix c =
     (let n = (of_char c :: nat);
          d = (if 48 \<le> n \<and> n \<le> 57 then Some (n - 48)
               else if 97 \<le> n \<and> n \<le> 122 then Some (n - 87)
               else if 65 \<le> n \<and> n \<le> 90 then Some (n - 55) else None) in
      case d of None \<Rightarrow> None | Some v \<Rightarrow> if v < radix then Some v else None)"

definition digits_value :: "nat \<Rightarrow> string \<Rightarrow> nat" where
  "digits_value radix ds = foldl (\<lambda>a c. a * radix + (case to_digit radix c of None \<Rightarrow> 0 | Some d \<Rightarrow> d)) 0 ds"

text \<open>
  The longest run of digits. It must not be empty, not longer than \<open>max_digits\<close>, have no leading zero unless
  allowed, and its value must fit the type, which has \<open>bound\<close> values.
\<close>

definition read_number :: "nat \<Rightarrow> nat option \<Rightarrow> bool \<Rightarrow> nat \<Rightarrow> string \<Rightarrow> (nat \<times> string) option" where
  "read_number radix max_digits allow_zero_prefix bound s =
     (let ds = takeWhile (\<lambda>c. to_digit radix c \<noteq> None) s; v = digits_value radix ds in
      if ds = [] \<or> (case max_digits of None \<Rightarrow> False | Some m \<Rightarrow> length ds > m) \<or>
         \<not> allow_zero_prefix \<and> hd ds = CHR ''0'' \<and> length ds > 1 \<or> v \<ge> bound
      then None else Some (v, drop (length ds) s))"

definition read_given_char :: "char \<Rightarrow> string \<Rightarrow> string option" where
  "read_given_char c s = (case s of [] \<Rightarrow> None | x # xs \<Rightarrow> if x = c then Some xs else None)"

definition read_separator :: "char \<Rightarrow> nat \<Rightarrow> (string \<Rightarrow> ('a \<times> string) option) \<Rightarrow> string \<Rightarrow> ('a \<times> string) option" where
  "read_separator sep i inner s =
     (if i > 0 then Option.bind (read_given_char sep s) inner else inner s)"

fun read_octets :: "nat \<Rightarrow> nat \<Rightarrow> string \<Rightarrow> (byte list \<times> string) option" where
  "read_octets i 0 s = Some ([], s)"
| "read_octets i (Suc n) s =
     (case read_separator (CHR ''.'') i (read_number 10 (Some 3) False 256) s of
        None \<Rightarrow> None
      | Some (v, s1) \<Rightarrow>
          (case read_octets (Suc i) n s1 of
             None \<Rightarrow> None
           | Some (vs, s2) \<Rightarrow> Some (of_nat v # vs, s2)))"

definition read_ipv4_addr :: "string \<Rightarrow> (byte list \<times> string) option" where
  "read_ipv4_addr s = read_octets 0 4 s"

text \<open>\<^verbatim>\<open>read_groups\<close>: up to \<open>limit\<close> groups of an IPv6 address, the last two possibly as an IPv4 address.\<close>

definition group_of :: "byte \<Rightarrow> byte \<Rightarrow> u16" where
  "group_of a b = of_nat (unat a * 256 + unat b)"

fun read_groups :: "nat \<Rightarrow> nat \<Rightarrow> string \<Rightarrow> (u16 list \<times> bool) \<times> string" where
  "read_groups i 0 s = (([], False), s)"
| "read_groups i (Suc n) s =
     (case (if n > 0 then read_separator (CHR '':'') i read_ipv4_addr s else None) of
        Some ([a, b, c, d], s1) \<Rightarrow> (([group_of a b, group_of c d], True), s1)
      | _ \<Rightarrow>
          (case read_separator (CHR '':'') i (read_number 16 (Some 4) True (2 ^ 16)) s of
             None \<Rightarrow> (([], False), s)
           | Some (g, s1) \<Rightarrow>
               (case read_groups (Suc i) n s1 of ((gs, v4), s2) \<Rightarrow> ((of_nat g # gs, v4), s2))))"

definition read_ipv6_addr :: "string \<Rightarrow> (u16 list \<times> string) option" where
  "read_ipv6_addr s =
     (case read_groups 0 8 s of
        ((head, head_ipv4), s1) \<Rightarrow>
          if length head = 8 then Some (head, s1)
          else if head_ipv4 then None
          else
            (case Option.bind (read_given_char (CHR '':'') s1) (read_given_char (CHR '':'')) of
               None \<Rightarrow> None
             | Some s2 \<Rightarrow>
                 (case read_groups 0 (8 - (length head + 1)) s2 of
                    ((tail, _), s3) \<Rightarrow>
                      Some (head @ replicate (8 - length head - length tail) 0 @ tail, s3))))"

definition read_ip_addr :: "string \<Rightarrow> (ip_addr \<times> string) option" where
  "read_ip_addr s =
     (case read_ipv4_addr s of
        Some (a, s1) \<Rightarrow> Some (V4 a, s1)
      | None \<Rightarrow> map_option (\<lambda>(a, s1). (V6 a, s1)) (read_ipv6_addr s))"

definition read_port :: "string \<Rightarrow> (u16 \<times> string) option" where
  "read_port s =
     Option.bind (read_given_char (CHR '':'') s) (\<lambda>s1.
       map_option (\<lambda>(v, s2). (of_nat v, s2)) (read_number 10 None True (2 ^ 16) s1))"

definition read_socket_addr_v4 :: "string \<Rightarrow> (socket_addr \<times> string) option" where
  "read_socket_addr_v4 s =
     Option.bind (read_ipv4_addr s) (\<lambda>(a, s1).
       map_option (\<lambda>(p, s2). ((V4 a, p), s2)) (read_port s1))"

text \<open>A scope identifier is read and dropped from the model, which has no use for it.\<close>

definition skip_scope_id :: "string \<Rightarrow> string" where
  "skip_scope_id s =
     (case Option.bind (read_given_char (CHR ''%'') s) (read_number 10 None True (2 ^ 32)) of
        None \<Rightarrow> s
      | Some (_, s1) \<Rightarrow> s1)"

definition read_socket_addr_v6 :: "string \<Rightarrow> (socket_addr \<times> string) option" where
  "read_socket_addr_v6 s =
     Option.bind (read_given_char (CHR ''['') s) (\<lambda>s0.
     Option.bind (read_ipv6_addr s0) (\<lambda>(a, s1).
     Option.bind (read_given_char (CHR '']'') (skip_scope_id s1)) (\<lambda>s2.
       map_option (\<lambda>(p, s3). ((V6 a, p), s3)) (read_port s2))))"

text \<open>The whole text must be consumed.\<close>

definition parse_whole :: "(string \<Rightarrow> ('a \<times> string) option) \<Rightarrow> string \<Rightarrow> 'a option" where
  "parse_whole p s = (case p s of Some (a, []) \<Rightarrow> Some a | _ \<Rightarrow> None)"

definition parse_ip_addr :: "string \<Rightarrow> ip_addr option" where
  "parse_ip_addr s = parse_whole read_ip_addr s"

definition parse_socket_addr :: "string \<Rightarrow> socket_addr option" where
  "parse_socket_addr s =
     parse_whole (\<lambda>t. case read_socket_addr_v4 t of Some r \<Rightarrow> Some r | None \<Rightarrow> read_socket_addr_v6 t) s"

lemmas read_octets_numeral = read_octets.simps(2) [of _ "pred_numeral k" for k, folded numeral_eq_Suc]
  and read_groups_numeral = read_groups.simps(2) [of _ "pred_numeral k" for k, folded numeral_eq_Suc]

lemmas addr_simps = parse_ip_addr_def parse_socket_addr_def parse_whole_def read_ip_addr_def read_ipv4_addr_def read_ipv6_addr_def
  read_separator_def read_given_char_def read_number_def digits_value_def to_digit_def group_of_def
  read_octets_numeral read_groups_numeral

lemma parse_examples:
  "parse_ip_addr ''203.0.113.7'' = Some (V4 [203, 0, 113, 7])"
  "parse_ip_addr ''::'' = Some (V6 [0, 0, 0, 0, 0, 0, 0, 0])"
  "parse_ip_addr ''2001:db8::1'' = Some (V6 [8193, 3512, 0, 0, 0, 0, 0, 1])"
  "parse_ip_addr ''::ffff:1.2.3.4'' = Some (V6 [0, 0, 0, 0, 0, 65535, 258, 772])"
  "parse_ip_addr ''relay.example.com'' = None" "parse_ip_addr [] = None" "parse_ip_addr ''01.2.3.4'' = None"
  by (simp_all add: addr_simps) (simp_all add: eval_nat_numeral)

subsection \<open>What a parser consumes\<close>

definition numeric_char :: "char \<Rightarrow> bool" where
  "numeric_char c \<longleftrightarrow> to_digit 16 c \<noteq> None \<or> c \<in> {CHR ''.'', CHR '':''}"

definition numeric_prefix :: "string \<Rightarrow> string \<Rightarrow> bool" where
  "numeric_prefix s r \<longleftrightarrow> (\<exists>w. s = w @ r \<and> list_all numeric_char w)"

lemma numeric_prefix_refl: "numeric_prefix s s"
  by (simp add: numeric_prefix_def)

lemma numeric_prefix_trans: "numeric_prefix s t \<Longrightarrow> numeric_prefix t r \<Longrightarrow> numeric_prefix s r"
  unfolding numeric_prefix_def by (metis append_assoc list_all_append)

lemma to_digit_mono: "to_digit r c \<noteq> None \<Longrightarrow> r \<le> r' \<Longrightarrow> to_digit r' c \<noteq> None"
  by (auto simp: to_digit_def Let_def split: option.splits if_splits)

lemma read_number_prefix:
  assumes "read_number radix m z b s = Some (v, r)" "radix \<le> 16"
  shows "numeric_prefix s r"
proof -
  let ?ds = "takeWhile (\<lambda>c. to_digit radix c \<noteq> None) s"
  have "r = drop (length ?ds) s" using assms(1) by (auto simp: read_number_def Let_def split: if_splits)
  then have "s = ?ds @ r" by (metis takeWhile_dropWhile_id dropWhile_eq_drop)
  moreover have "list_all numeric_char ?ds"
    using to_digit_mono [OF _ assms(2)] by (auto simp: list_all_iff numeric_char_def dest: set_takeWhileD)
  ultimately show ?thesis unfolding numeric_prefix_def by blast
qed

lemma read_given_char_prefix: "read_given_char c s = Some r \<Longrightarrow> c \<in> {CHR ''.'', CHR '':''} \<Longrightarrow> numeric_prefix s r"
  by (auto simp: read_given_char_def numeric_prefix_def numeric_char_def split: list.splits if_splits)

lemma read_separator_prefix:
  assumes "read_separator sep i inner s = Some (v, r)" "sep \<in> {CHR ''.'', CHR '':''}"
    and "\<And>s v r. inner s = Some (v, r) \<Longrightarrow> numeric_prefix s r"
  shows "numeric_prefix s r"
  using assms(1,3) read_given_char_prefix [OF _ assms(2)]
  by (auto simp: read_separator_def bind_eq_Some_conv split: if_splits) (blast intro: numeric_prefix_trans)

lemma read_octets_prefix: "read_octets i n s = Some (vs, r) \<Longrightarrow> numeric_prefix s r"
proof (induction i n s arbitrary: vs rule: read_octets.induct)
  case (2 i n s)
  then obtain v s1 vs' where s1: "read_separator (CHR ''.'') i (read_number 10 (Some 3) False 256) s = Some (v, s1)"
    and "read_octets (Suc i) n s1 = Some (vs', r)" by (auto split: option.splits)
  with 2 have "numeric_prefix s1 r" by auto
  moreover have "numeric_prefix s s1"
    using read_separator_prefix [OF s1] read_number_prefix [of 10 "Some 3" False 256] by auto
  ultimately show ?case by (rule numeric_prefix_trans [rotated])
qed (simp add: numeric_prefix_refl)

lemma read_groups_prefix: "read_groups i n s = (gs, r) \<Longrightarrow> numeric_prefix s r"
proof (induction i n s arbitrary: gs rule: read_groups.induct)
  case (2 i n s)
  let ?v4 = "if n > 0 then read_separator (CHR '':'') i read_ipv4_addr s else None"
  have v4: "numeric_prefix s s1" if "?v4 = Some (x, s1)" for x s1
  proof (rule read_separator_prefix)
    show "read_separator (CHR '':'') i read_ipv4_addr s = Some (x, s1)" using that by (simp split: if_splits)
  qed (auto simp: read_ipv4_addr_def dest: read_octets_prefix)
  have num: "numeric_prefix s s1" if "read_separator (CHR '':'') i (read_number 16 (Some 4) True (2 ^ 16)) s = Some (x, s1)" for x s1
    by (rule read_separator_prefix [OF that]) (auto intro: read_number_prefix)
  show ?case
    using 2 v4 num
    by (auto split: option.splits prod.splits list.splits if_splits intro: numeric_prefix_trans simp: numeric_prefix_refl)
qed (simp add: numeric_prefix_refl)

lemma read_ipv6_prefix:
  assumes "read_ipv6_addr s = Some (a, r)"
  shows "numeric_prefix s r"
proof -
  obtain hd v4 s1 where h: "read_groups 0 8 s = ((hd, v4), s1)" by (metis surj_pair)
  have p1: "numeric_prefix s s1" using read_groups_prefix [OF h] .
  show ?thesis
  proof (cases "length hd = 8")
    case True
    with assms h p1 show ?thesis by (simp add: read_ipv6_addr_def)
  next
    case False
    with assms h obtain sa s2 tl v where
      "read_given_char (CHR '':'') s1 = Some sa" "read_given_char (CHR '':'') sa = Some s2"
      "read_groups 0 (8 - (length hd + 1)) s2 = ((tl, v), r)"
      by (auto simp: read_ipv6_addr_def bind_eq_Some_conv split: if_splits option.splits prod.splits)
    then have "numeric_prefix s1 sa" "numeric_prefix sa s2" "numeric_prefix s2 r"
      using read_given_char_prefix read_groups_prefix by blast+
    with p1 show ?thesis by (blast intro: numeric_prefix_trans)
  qed
qed

lemma parse_ip_numeric:
  assumes "parse_ip_addr s = Some a"
  shows "list_all numeric_char s"
proof -
  have r: "read_ip_addr s = Some (a, [])"
    using assms by (auto simp: parse_ip_addr_def parse_whole_def split: option.splits list.splits prod.splits)
  have "numeric_prefix s []"
  proof (cases "read_ipv4_addr s")
    case (Some x)
    with r obtain v where "read_octets 0 4 s = Some (v, [])"
      by (auto simp: read_ip_addr_def read_ipv4_addr_def split: prod.splits)
    then show ?thesis by (rule read_octets_prefix)
  next
    case None
    with r obtain v where "read_ipv6_addr s = Some (v, [])" by (auto simp: read_ip_addr_def)
    then show ?thesis by (rule read_ipv6_prefix)
  qed
  then show ?thesis by (simp add: numeric_prefix_def)
qed

end
