(* ===== verification/Endpoints.thy ===== *)
theory Endpoints
  imports Listener Net_Addr
begin

section \<open>Endpoints\<close>

text \<open>
  The construction of the QUIC endpoints in \<^verbatim>\<open>transport.rs\<close>: the certificate, the verifier the clients use, and the five
  builders. The certificate generator, TLS and QUIC are other crates: what each of their calls gives is a field of
  \<open>quic\<close>, and the choice of a protocol during a handshake is the argument \<open>negotiate\<close>.
\<close>

datatype signature_scheme =
    RSA_PKCS1_SHA256 | RSA_PKCS1_SHA384 | RSA_PKCS1_SHA512 | ECDSA_NISTP256_SHA256 | ECDSA_NISTP384_SHA384 | ED25519
  | RSA_PSS_SHA256 | RSA_PSS_SHA384 | RSA_PSS_SHA512

record ('key, 'crypto) quic =
  qu_self_signed :: "string list \<Rightarrow> (bytes \<times> 'key) option"
  qu_single_cert :: "bytes list \<Rightarrow> 'key \<Rightarrow> 'crypto option"
  qu_server_suite :: "'crypto \<Rightarrow> bytes list \<Rightarrow> bool"
  qu_client_suite :: "bytes list \<Rightarrow> bool"
  qu_bind :: "socket_addr \<Rightarrow> io_error + unit"
  qu_idle_fits :: "duration \<Rightarrow> bool"

definition make_self_signed_cert :: "('key, 'crypto) quic \<Rightarrow> transport_error + (bytes \<times> 'key)" where
  "make_self_signed_cert Q =
     (case qu_self_signed Q [''gotham-relay.local''] of None \<Rightarrow> Inl TRcgen | Some (cert, key) \<Rightarrow> Inr (cert, key))"

text \<open>\<^verbatim>\<open>SkipServerVerification\<close> accepts every certificate and every signature: peers are authenticated by Noise.\<close>

definition verify_server_cert :: "bytes \<Rightarrow> bytes list \<Rightarrow> string \<Rightarrow> bytes \<Rightarrow> u64 \<Rightarrow> transport_error + unit" where
  "verify_server_cert end_entity intermediates server_name ocsp_response now = Inr ()"

definition verify_tls12_signature :: "bytes \<Rightarrow> bytes \<Rightarrow> bytes \<Rightarrow> transport_error + unit" where
  "verify_tls12_signature msg cert dss = Inr ()"

definition verify_tls13_signature :: "bytes \<Rightarrow> bytes \<Rightarrow> bytes \<Rightarrow> transport_error + unit" where
  "verify_tls13_signature msg cert dss = Inr ()"

definition supported_verify_schemes :: "signature_scheme list" where
  "supported_verify_schemes =
     [RSA_PKCS1_SHA256, RSA_PKCS1_SHA384, RSA_PKCS1_SHA512, ECDSA_NISTP256_SHA256, ECDSA_NISTP384_SHA384, ED25519,
      RSA_PSS_SHA256, RSA_PSS_SHA384, RSA_PSS_SHA512]"

text \<open>What is configured on an endpoint: its protocols in order, and its keep-alive and idle times when they are set.\<close>

record endpoint =
  ep_bind :: socket_addr
  ep_alpn :: "bytes list"
  ep_keep_alive :: "duration option"
  ep_idle :: "duration option"

definition build_server_endpoint :: "('key, 'crypto) quic \<Rightarrow> socket_addr \<Rightarrow> transport_error + endpoint" where
  "build_server_endpoint Q addr =
     (case make_self_signed_cert Q of
        Inl e \<Rightarrow> Inl e
      | Inr (cert, key) \<Rightarrow>
          (case qu_single_cert Q [cert] key of
             None \<Rightarrow> Inl TRustls
           | Some server_crypto \<Rightarrow>
               let alpn = [MIXNET_ALPN, MAILBOX_ALPN, GOSSIP_ALPN, RENDEZVOUS_ALPN, RENDEZVOUS_QUERY_ALPN] in
               if \<not> qu_server_suite Q server_crypto alpn then Inl BadHandshake
               else
                 (case qu_bind Q addr of
                    Inl e \<Rightarrow> Inl (TIo e)
                  | Inr _ \<Rightarrow> Inr \<lparr>ep_bind = addr, ep_alpn = alpn, ep_keep_alive = None, ep_idle = None\<rparr>)))"

text \<open>The common end of the client builders: any free port of any interface.\<close>

definition bind_client :: "('key, 'crypto) quic \<Rightarrow> bytes list \<Rightarrow> duration option \<Rightarrow> duration option \<Rightarrow> transport_error + endpoint" where
  "bind_client Q alpn keep_alive idle =
     (case parse_socket_addr ''0.0.0.0:0'' of
        None \<Rightarrow> Inl (TIo (Io_AddrNotAvailable ''bad client bind addr''))
      | Some addr \<Rightarrow>
          (case qu_bind Q addr of
             Inl e \<Rightarrow> Inl (TIo e)
           | Inr _ \<Rightarrow> Inr \<lparr>ep_bind = addr, ep_alpn = alpn, ep_keep_alive = keep_alive, ep_idle = idle\<rparr>))"

definition build_client_endpoint_alpn :: "('key, 'crypto) quic \<Rightarrow> bytes \<Rightarrow> transport_error + endpoint" where
  "build_client_endpoint_alpn Q alpn =
     (if \<not> qu_client_suite Q [alpn] then Inl BadHandshake else bind_client Q [alpn] None None)"

definition build_client_endpoint :: "('key, 'crypto) quic \<Rightarrow> transport_error + endpoint" where
  "build_client_endpoint Q = build_client_endpoint_alpn Q MIXNET_ALPN"

definition build_mailbox_client_endpoint :: "('key, 'crypto) quic \<Rightarrow> transport_error + endpoint" where
  "build_mailbox_client_endpoint Q = build_client_endpoint_alpn Q MAILBOX_ALPN"

definition build_gossip_client_endpoint :: "('key, 'crypto) quic \<Rightarrow> transport_error + endpoint" where
  "build_gossip_client_endpoint Q = build_client_endpoint_alpn Q GOSSIP_ALPN"

definition build_rendezvous_client_endpoint :: "('key, 'crypto) quic \<Rightarrow> transport_error + endpoint" where
  "build_rendezvous_client_endpoint Q =
     (if \<not> qu_client_suite Q [RENDEZVOUS_ALPN] then Inl BadHandshake
      else if \<not> qu_idle_fits Q (from_secs 60) then Inl BadHandshake
      else bind_client Q [RENDEZVOUS_ALPN] (Some (from_secs 15)) (Some (from_secs 60)))"

subsection \<open>A client reaches the service it was built for\<close>

lemma client_bind_addr: "parse_socket_addr ''0.0.0.0:0'' = Some (V4 [0, 0, 0, 0], 0)"
  by (simp add: addr_simps read_socket_addr_v4_def read_port_def)

lemma client_endpoint_alpn:
  "build_client_endpoint_alpn Q alpn = Inr e \<Longrightarrow> ep_alpn e = [alpn]"
  "build_rendezvous_client_endpoint Q = Inr e \<Longrightarrow> ep_alpn e = [RENDEZVOUS_ALPN]"
  by (auto simp: build_client_endpoint_alpn_def build_rendezvous_client_endpoint_def bind_client_def
      split: if_splits option.splits sum.splits)

lemma server_endpoint_alpn:
  "build_server_endpoint Q addr = Inr e \<Longrightarrow>
   ep_alpn e = [MIXNET_ALPN, MAILBOX_ALPN, GOSSIP_ALPN, RENDEZVOUS_ALPN, RENDEZVOUS_QUERY_ALPN]"
  by (auto simp: build_server_endpoint_def Let_def split: if_splits option.splits sum.splits)

text \<open>
  What TLS promises of the choice: the protocol is one that both sides offer, and there is a choice whenever they
  have one in common.
\<close>

definition alpn_ok :: "(bytes list \<Rightarrow> bytes list \<Rightarrow> bytes option) \<Rightarrow> bool" where
  "alpn_ok negotiate \<longleftrightarrow>
     (\<forall>server client.
        (case negotiate server client of
           None \<Rightarrow> set server \<inter> set client = {}
         | Some p \<Rightarrow> p \<in> set server \<inter> set client))"

lemma negotiate_single:
  assumes "alpn_ok negotiate" "p \<in> set server"
  shows "negotiate server [p] = Some p"
proof -
  from assms(1) have "case negotiate server [p] of None \<Rightarrow> set server \<inter> set [p] = {} | Some q \<Rightarrow> q \<in> set server \<inter> set [p]"
    unfolding alpn_ok_def by blast
  with assms(2) show ?thesis by (auto split: option.splits)
qed

lemma alpn_distinct:
  "distinct [MIXNET_ALPN, MAILBOX_ALPN, GOSSIP_ALPN, RENDEZVOUS_ALPN, RENDEZVOUS_QUERY_ALPN]"
  by (simp add: MIXNET_ALPN_def MAILBOX_ALPN_def GOSSIP_ALPN_def RENDEZVOUS_ALPN_def RENDEZVOUS_QUERY_ALPN_def ascii_def)

text \<open>The four kinds of client, the endpoint each uses, and the service each is meant for.\<close>

datatype client_kind = Packet_client | Mailbox_client | Gossip_client | Tunnel_client

fun endpoint_for :: "('key, 'crypto) quic \<Rightarrow> client_kind \<Rightarrow> transport_error + endpoint" where
  "endpoint_for Q Packet_client = build_client_endpoint Q"
| "endpoint_for Q Mailbox_client = build_mailbox_client_endpoint Q"
| "endpoint_for Q Gossip_client = build_gossip_client_endpoint Q"
| "endpoint_for Q Tunnel_client = build_rendezvous_client_endpoint Q"

fun service_for :: "('hs, 'n, 'h, 'k, 'm, 'a, 'r, 't, 'x) backends \<Rightarrow> ('g \<Rightarrow> f64 \<times> 'g) \<Rightarrow> (f64 \<Rightarrow> f64)
    \<Rightarrow> ('m, 'r, 't, 'g) surroundings \<Rightarrow> config \<Rightarrow> 'x incoming \<Rightarrow> ('m, 'r, 't, 'g) server \<Rightarrow> client_kind
    \<Rightarrow> conn_result \<times> ('m, 'r, 't, 'g) server" where
  "service_for B gen ln_f S cf conn w Packet_client =
     apfst Served (serve_connection (be_handshake B) (be_gotham B) gen ln_f (be_noise B) (su_order S) (in_src_ip conn)
       (su_ticks S) (su_server S) (cf_static_sk cf) (in_accepted conn) w)"
| "service_for B gen ln_f S cf conn w Mailbox_client =
     (case sv_mailbox w of
        None \<Rightarrow> (Closed ''no mailbox here'', w)
      | Some mb \<Rightarrow>
          map_prod (\<lambda>r. Served (Some r)) (\<lambda>mb'. w\<lparr>sv_mailbox := Some mb'\<rparr>)
            (serve_mailbox_connection (be_handshake B) (be_mailbox B) (be_noise B) (be_max_mailbox_frame B) (cf_static_sk cf)
              (allow_unauthenticated_mailbox_fetch cf) (su_unix S) (su_mailbox S) mb (in_accepted conn)))"
| "service_for B gen ln_f S cf conn w Gossip_client =
     (case sv_roster w of
        None \<Rightarrow> (Closed ''no gossip here'', w)
      | Some roster \<Rightarrow>
          map_prod (\<lambda>r. Served (Some r)) (\<lambda>roster'. w\<lparr>sv_roster := Some roster'\<rparr>)
            (serve_gossip_connection (be_handshake B) (be_roster B) (be_noise B) (be_max_mailbox_frame B) (cf_static_sk cf)
              (su_unix S) (su_roster S) roster (in_accepted conn)))"
| "service_for B gen ln_f S cf conn w Tunnel_client =
     map_prod (\<lambda>r. Served (Some r)) (\<lambda>t. w\<lparr>sv_rendezvous := t\<rparr>)
       (be_host_tunnel B (cf_static_sk cf) (in_accepted conn) (sv_rendezvous w))"

lemma endpoint_for_alpn:
  "endpoint_for Q kind = Inr cl \<Longrightarrow>
   ep_alpn cl = [case kind of Packet_client \<Rightarrow> MIXNET_ALPN | Mailbox_client \<Rightarrow> MAILBOX_ALPN | Gossip_client \<Rightarrow> GOSSIP_ALPN
     | Tunnel_client \<Rightarrow> RENDEZVOUS_ALPN]"
  by (cases kind) (auto simp: build_client_endpoint_def build_mailbox_client_endpoint_def build_gossip_client_endpoint_def
      dest: client_endpoint_alpn)


text \<open>A server's preference, as TLS has it, and libraries whose calls all work.\<close>

definition first_common :: "bytes list \<Rightarrow> bytes list \<Rightarrow> bytes option" where
  "first_common server client = find (\<lambda>p. p \<in> set client) server"

lemma first_common_ok: "alpn_ok first_common"
  by (auto simp: alpn_ok_def first_common_def find_None_iff find_Some_iff split: option.splits)

definition toy_quic :: "(unit, unit) quic" where
  "toy_quic =
     \<lparr>qu_self_signed = (\<lambda>names. Some ([1], ())), qu_single_cert = (\<lambda>certs key. Some ()), qu_server_suite = (\<lambda>c a. True),
      qu_client_suite = (\<lambda>a. True), qu_bind = (\<lambda>a. Inr ()), qu_idle_fits = (\<lambda>d. True)\<rparr>"


end
