(* ===== verification/Cover.thy ===== *)
theory Cover
  imports Client
begin

section \<open>Cover traffic\<close>

text \<open>
  \<^verbatim>\<open>crypto-gotham-relay/src/cover_loop.rs\<close>: decoy payloads, the queue of real packets and the loop that
  sends one packet per round, real or decoy. The scheduler that draws the pauses and the intents
  belongs to the packet crate: the intent of a round is an argument, and so are the network of
  the round and the packets that other tasks enqueue meanwhile. The pause has no effect on the state.
\<close>

subsection \<open>Decoys\<close>

definition DUMMY_PAYLOAD_SIZE :: nat where
  "DUMMY_PAYLOAD_SIZE = 32"

definition COVER_BODY_MIN :: nat where
  "COVER_BODY_MIN = 64"

definition COVER_BODY_MAX :: nat where
  "COVER_BODY_MAX = 1024"

definition cover_body_len :: "bytes \<Rightarrow> nat" where
  "cover_body_len pick =
     (let span = COVER_BODY_MAX - COVER_BODY_MIN in
      COVER_BODY_MIN + unat (u16_from_be_bytes pick) mod span)"

text \<open>A random key pair is 32 random bytes; \<open>public_of\<close> gives the public half.\<close>

definition build_cover_payload :: "('h, 'k) gotham \<Rightarrow> ('h, 'k, 'g) sender_crypto \<Rightarrow> (bytes \<Rightarrow> bytes) \<Rightarrow> 'g \<Rightarrow> bytes \<times> 'g" where
  "build_cover_payload G C public_of rng =
     (let (recipient_sk, rng1) = fill_bytes C rng 32;
          (sender_sk, rng2) = fill_bytes C rng1 32;
          (pick, rng3) = fill_bytes C rng2 2;
          (body, rng4) = fill_bytes C rng3 (cover_body_len pick) in
      case seal_and_frame G C (public_of recipient_sk) (public_of sender_sk) body rng4 of
        (Sent framed, rng5) \<Rightarrow> (framed, rng5)
      | (_, rng5) \<Rightarrow> fill_bytes C rng5 DUMMY_PAYLOAD_SIZE)"

subsection \<open>The queue and the handle\<close>

text \<open>A sender's channel for the result is a number; \<open>None\<close> when the sender does not wait.\<close>

record queued_packet =
  qp_payload :: bytes
  qp_hops :: "nat option"
  qp_exit :: "relay_descriptor option"
  qp_done :: "nat option"

type_synonym queued_message = "bytes \<times> nat option \<times> nat option"

definition packet_from_message :: "queued_message \<Rightarrow> queued_packet" where
  "packet_from_message = (\<lambda>(payload, hops, done).
     \<lparr>qp_payload = payload, qp_hops = hops, qp_exit = None, qp_done = done\<rparr>)"

text \<open>The handle holds the sending half of the cancel channel; \<open>snd\<close> says whether the loop was told to stop.\<close>

record cover_loop_handle =
  clh_cancel :: bool

definition handle_drop :: "cover_loop_handle \<times> bool \<Rightarrow> cover_loop_handle \<times> bool" where
  "handle_drop = (\<lambda>(h, cancelled). (h\<lparr>clh_cancel := False\<rparr>, cancelled \<or> clh_cancel h))"

text \<open>\<^verbatim>\<open>stop\<close> takes the sender out, and the handle is dropped at its end.\<close>

definition handle_stop :: "cover_loop_handle \<times> bool \<Rightarrow> cover_loop_handle \<times> bool" where
  "handle_stop = (\<lambda>(h, cancelled). handle_drop (h\<lparr>clh_cancel := False\<rparr>, cancelled \<or> clh_cancel h))"

subsection \<open>The loop\<close>

datatype cover_intent = Real | DropCover | LoopCover

text \<open>
  One round: what the battery provider says, whether the cancel channel fires during the pause, the
  packets enqueued before the queue is inspected and between that and the pop, and the network. The
  scheduler is part of the environment: how a mode is adjusted to the battery, and how intervals and
  intents are drawn in a mode.
\<close>

record cover_round =
  ro_battery :: "byte \<times> bool"
  ro_cancelled :: bool
  ro_before :: "queued_packet list"
  ro_between :: "queued_packet list"
  ro_transmit :: "bytes \<times> u16 \<Rightarrow> bytes \<Rightarrow> bytes \<Rightarrow> bytes \<Rightarrow> unit res"
  ro_os_random :: bytes

datatype cover_event =
    SentReal queued_packet "unit sent"
  | SentDummy bytes "unit sent"
  | NothingSent

definition event_ends :: "cover_event \<Rightarrow> bool" where
  "event_ends ev =
     (case ev of
        SentReal _ r \<Rightarrow> r \<in> {SendPanic, SendBlocked}
      | SentDummy _ r \<Rightarrow> r \<in> {SendPanic, SendBlocked}
      | NothingSent \<Rightarrow> False)"

record ('h, 'k, 'g, 'md) cover_env =
  ce_gotham :: "('h, 'k) gotham"
  ce_crypto :: "('h, 'k, 'g) sender_crypto"
  ce_public_of :: "bytes \<Rightarrow> bytes"
  ce_gen :: "'g \<Rightarrow> f64 \<times> 'g"
  ce_ln :: "f64 \<Rightarrow> f64"
  ce_client :: gotham_client
  ce_relays :: "relay_descriptor list"
  ce_default_hop_count :: nat
  ce_base_mode :: 'md
  ce_battery_adjusted :: "'md \<Rightarrow> byte \<Rightarrow> bool \<Rightarrow> 'md"
  ce_next_interval :: "'md \<Rightarrow> 'g \<Rightarrow> duration \<times> 'g"
  ce_next_intent :: "'md \<Rightarrow> bool \<Rightarrow> 'g \<Rightarrow> cover_intent \<times> 'g"

definition send_real :: "('h, 'k, 'g, 'md) cover_env \<Rightarrow> cover_round \<Rightarrow> queued_packet \<Rightarrow> 'g \<Rightarrow> unit sent \<times> 'g" where
  "send_real E ro qp rng =
     (let n = (case qp_hops qp of None \<Rightarrow> ce_default_hop_count E | Some n \<Rightarrow> n) in
      case qp_exit qp of
        Some e \<Rightarrow> send_to_exit (ce_gotham E) (ce_crypto E) (ce_gen E) (ce_ln E) (ro_transmit ro) (ro_os_random ro)
          (ce_client E) (ce_relays E) n e (qp_payload qp) rng
      | None \<Rightarrow> client_send (ce_gotham E) (ce_crypto E) (ce_gen E) (ce_ln E) (ro_transmit ro) (ro_os_random ro)
          (ce_client E) (ce_relays E) n (qp_payload qp) rng)"

definition send_dummy :: "('h, 'k, 'g, 'md) cover_env \<Rightarrow> cover_round \<Rightarrow> 'g \<Rightarrow> cover_event \<times> 'g" where
  "send_dummy E ro rng =
     (case build_cover_payload (ce_gotham E) (ce_crypto E) (ce_public_of E) rng of
        (dummy, rng1) \<Rightarrow>
          (case client_send (ce_gotham E) (ce_crypto E) (ce_gen E) (ce_ln E) (ro_transmit ro) (ro_os_random ro)
             (ce_client E) (ce_relays E) (ce_default_hop_count E) dummy rng1 of
             (r, rng2) \<Rightarrow> (SentDummy dummy r, rng2)))"

definition cover_mode :: "('h, 'k, 'g, 'md) cover_env \<Rightarrow> cover_round \<Rightarrow> 'md" where
  "cover_mode E ro = ce_battery_adjusted E (ce_base_mode E) (fst (ro_battery ro)) (snd (ro_battery ro))"

text \<open>What follows the pause.\<close>

definition cover_iteration :: "('h, 'k, 'g, 'md) cover_env \<Rightarrow> cover_round \<Rightarrow> queued_packet list \<Rightarrow> 'g
    \<Rightarrow> cover_event \<times> queued_packet list \<times> 'g" where
  "cover_iteration E ro queue0 rng =
     (let queue1 = queue0 @ ro_before ro;
          has_real = (queue1 \<noteq> []);
          (intent, rng0) = ce_next_intent E (cover_mode E ro) has_real rng;
          queue2 = queue1 @ ro_between ro in
      case intent of
        Real \<Rightarrow>
          (case queue2 of
             [] \<Rightarrow> (NothingSent, [], rng0)
           | qp # queue3 \<Rightarrow> (case send_real E ro qp rng0 of (r, rng1) \<Rightarrow> (SentReal qp r, queue3, rng1)))
      | _ \<Rightarrow> (case send_dummy E ro rng0 of (ev, rng1) \<Rightarrow> (ev, queue2, rng1)))"

text \<open>
  The loop over rounds: it ends when it is cancelled, and a send that panics or never returns ends
  it too. The result is the list of events with the pause before each, the queue left behind and the rounds not begun.
\<close>

fun cover_loop :: "('h, 'k, 'g, 'md) cover_env \<Rightarrow> cover_round list \<Rightarrow> queued_packet list \<Rightarrow> 'g
    \<Rightarrow> (duration \<times> cover_event) list \<times> queued_packet list \<times> cover_round list" where
  "cover_loop E [] queue rng = ([], queue, [])"
| "cover_loop E (ro # ros) queue rng =
     (case ce_next_interval E (cover_mode E ro) rng of
        (delay, rng0) \<Rightarrow>
          if ro_cancelled ro then ([], queue, ro # ros)
          else
            case cover_iteration E ro queue rng0 of
              (ev, queue1, rng1) \<Rightarrow>
                if event_ends ev then ([(delay, ev)], queue1, ros)
                else (case cover_loop E ros queue1 rng1 of (evs, queue2, rest) \<Rightarrow> ((delay, ev) # evs, queue2, rest)))"

subsection \<open>Decoys look real\<close>

definition fills :: "('h, 'k, 'g) sender_crypto \<Rightarrow> bool" where
  "fills C \<longleftrightarrow> (\<forall>g n. length (fst (fill_bytes C g n)) = n)"

text \<open>Sealing succeeds and adds a constant number of bytes.\<close>

definition seal_overhead :: "('h, 'k, 'g) sender_crypto \<Rightarrow> nat \<Rightarrow> bool" where
  "seal_overhead C ov \<longleftrightarrow>
     (\<forall>g pk sender_pk body. \<exists>env g'. seal C g pk sender_pk body = (Some env, g') \<and> length env = length body + ov)"

lemma cover_body_len_bounds: "COVER_BODY_MIN \<le> cover_body_len pick \<and> cover_body_len pick < COVER_BODY_MAX"
  by (simp add: cover_body_len_def COVER_BODY_MIN_def COVER_BODY_MAX_def Let_def)



subsection \<open>The rhythm and the queue\<close>

definition real_packets :: "(duration \<times> cover_event) list \<Rightarrow> queued_packet list" where
  "real_packets evs = concat (map (\<lambda>(_, ev). case ev of SentReal qp _ \<Rightarrow> [qp] | _ \<Rightarrow> []) evs)"

definition enqueued :: "cover_round list \<Rightarrow> queued_packet list" where
  "enqueued ros = concat (map (\<lambda>ro. ro_before ro @ ro_between ro) ros)"

definition is_send :: "duration \<times> cover_event \<Rightarrow> bool" where
  "is_send ev \<longleftrightarrow> snd ev \<noteq> NothingSent"

lemma send_dummy_event:
  obtains d r g where "send_dummy E ro rng = (SentDummy d r, g)"
proof -
  obtain d g1 where d: "build_cover_payload (ce_gotham E) (ce_crypto E) (ce_public_of E) rng = (d, g1)" by fastforce
  obtain r g where "client_send (ce_gotham E) (ce_crypto E) (ce_gen E) (ce_ln E) (ro_transmit ro) (ro_os_random ro)
      (ce_client E) (ce_relays E) (ce_default_hop_count E) d g1 = (r, g)" by fastforce
  with d that show thesis by (simp add: send_dummy_def)
qed

text \<open>The two ways a round goes.\<close>

lemma iteration_cases:
  assumes "cover_iteration E ro queue rng = (ev, queue1, rng1)"
  obtains (dummy) d r where "ev = SentDummy d r" "queue1 = queue @ ro_before ro @ ro_between ro"
  | (real_packet) qp r where "ev = SentReal qp r" "qp # queue1 = queue @ ro_before ro @ ro_between ro"
  | (nothing) "ev = NothingSent" "queue1 = []" "queue @ ro_before ro @ ro_between ro = []"
      "fst (ce_next_intent E (cover_mode E ro) False rng) = Real"
proof -
  let ?q = "queue @ ro_before ro @ ro_between ro"
  obtain intent g0 where i: "ce_next_intent E (cover_mode E ro) (queue @ ro_before ro \<noteq> []) rng = (intent, g0)" by fastforce
  obtain d r g where sd: "send_dummy E ro g0 = (SentDummy d r, g)" by (rule send_dummy_event)
  show thesis
  proof (cases "intent = Real \<and> ?q \<noteq> []")
    case True
    then obtain qp q where q: "?q = qp # q" by (cases ?q) auto
    obtain x g1 where "send_real E ro qp g0 = (x, g1)" by fastforce
    with True i q assms show thesis by (intro real_packet [of qp x]) (simp_all add: cover_iteration_def)
  next
    case False
    show thesis
    proof (cases intent)
      case Real
      with False i assms have "ev = NothingSent" "queue1 = []" "?q = []" by (simp_all add: cover_iteration_def)
      moreover have "fst (ce_next_intent E (cover_mode E ro) False rng) = Real" using Real i calculation(3) by simp
      ultimately show thesis by (rule that(3))
    next
      case DropCover
      with sd i assms show thesis by (intro dummy [of d r]) (simp_all add: cover_iteration_def)
    next
      case LoopCover
      with sd i assms show thesis by (intro dummy [of d r]) (simp_all add: cover_iteration_def)
    qed
  qed
qed

text \<open>One round of the loop.\<close>

lemma cover_loop_round:
  assumes "cover_loop E (ro # ros) queue rng = (evs, queue', rest)"
  obtains (cancelled) "evs = []" "queue' = queue" "rest = ro # ros"
  | (last) delay g ev g' where "cover_iteration E ro queue g = (ev, queue', g')" "evs = [(delay, ev)]" "rest = ros"
  | (more) delay g ev queue1 g' evs1 where "cover_iteration E ro queue g = (ev, queue1, g')"
      "cover_loop E ros queue1 g' = (evs1, queue', rest)" "evs = (delay, ev) # evs1"
proof -
  obtain delay g where g: "ce_next_interval E (cover_mode E ro) rng = (delay, g)" by fastforce
  obtain ev queue1 g' where it: "cover_iteration E ro queue g = (ev, queue1, g')" by (metis prod_cases3)
  obtain evs1 queue2 rest1 where l: "cover_loop E ros queue1 g' = (evs1, queue2, rest1)" by (metis prod_cases3)
  show thesis
  proof (cases "ro_cancelled ro")
    case True
    with assms g cancelled show thesis by simp
  next
    case False
    with assms g it l last more show thesis by (cases "event_ends ev") auto
  qed
qed

lemma cover_loop_queue:
  "cover_loop E ros queue rng = (evs, queue', rest) \<Longrightarrow>
   real_packets evs @ queue' = queue @ enqueued (take (length evs) ros) \<and> length evs + length rest = length ros"
proof (induction ros arbitrary: queue rng evs)
  case Nil
  then show ?case by (simp add: real_packets_def enqueued_def)
next
  case (Cons ro ros)
  have one: "real_packets [(delay, ev)] @ queue1 = queue @ ro_before ro @ ro_between ro"
    if "cover_iteration E ro queue g = (ev, queue1, g')" for delay g ev queue1 g'
    using that by (cases rule: iteration_cases) (simp_all add: real_packets_def)
  show ?case using Cons.prems
  proof (cases rule: cover_loop_round)
    case cancelled
    then show ?thesis by (simp add: real_packets_def enqueued_def)
  next
    case (last delay g ev g')
    then show ?thesis using one [OF last(1), of delay] by (simp add: enqueued_def)
  next
    case (more delay g ev queue1 g' evs1)
    have "real_packets evs @ queue' = real_packets [(delay, ev)] @ queue1 @ enqueued (take (length evs1) ros)"
      using Cons.IH [OF more(2)] by (simp add: more(3) real_packets_def)
    also have "\<dots> = queue @ enqueued (take (length evs) (ro # ros))"
      using one [OF more(1), of delay] by (simp add: more(3) enqueued_def flip: append_assoc)
    finally show ?thesis using Cons.IH [OF more(2)] by (simp add: more(3))
  qed
qed

lemma cover_loop_sends:
  assumes "\<forall>mode g. fst (ce_next_intent E mode False g) \<noteq> Real"
  shows "cover_loop E ros queue rng = (evs, queue', rest) \<Longrightarrow> list_all is_send evs"
proof (induction ros arbitrary: queue rng evs)
  case (Cons ro ros)
  have one: "is_send (delay, ev)" if "cover_iteration E ro queue g = (ev, queue1, g')" for delay g ev queue1 g'
    using that by (cases rule: iteration_cases) (use assms in \<open>auto simp: is_send_def\<close>)
  show ?case using Cons.prems by (cases rule: cover_loop_round) (auto dest: one Cons.IH)
qed simp

text \<open>C33. The queue is served in order, once: whatever the intents, the network and the concurrent
  producers do, the real packets sent so far followed by those still queued are exactly
  the packets that were queued at the start followed by those enqueued in the rounds begun, in order. No packet is lost, sent
  twice or overtaken, and every round sends at most one packet.\<close>

theorem cover_queue_fifo:
  "case cover_loop E ros queue rng of
     (evs, queue', rest) \<Rightarrow>
       real_packets evs @ queue' = queue @ enqueued (take (length evs) ros) \<and> length evs + length rest = length ros"
  using cover_loop_queue [of E ros queue rng] by (auto split: prod.splits)

text \<open>The rhythm does not depend on the traffic: when the scheduler asks for a real packet only
  if one is waiting, every round begun sends exactly one packet, whether the queue is empty or full.\<close>

lemma cover_rhythm:
  assumes "\<forall>mode g. fst (ce_next_intent E mode False g) \<noteq> Real" "cover_loop E ros queue rng = (evs, queue', rest)"
  shows "list_all is_send evs \<and> length (filter is_send evs) = length ros - length rest"
proof -
  have "list_all is_send evs" using cover_loop_sends [OF assms] .
  moreover have "filter is_send evs = evs" using calculation by (simp add: list_all_iff)
  moreover have "length evs + length rest = length ros" using cover_loop_queue [OF assms(2)] by simp
  ultimately show ?thesis by simp
qed

lemma stop_cancels: "clh_cancel h \<Longrightarrow> snd (handle_stop (h, c))"
  by (simp add: handle_stop_def handle_drop_def)

end
