(* ===== verification/Enroll.thy ===== *)
theory Enroll
  imports Text_Std
begin

section \<open>Enrolment\<close>

text \<open>
  \<^verbatim>\<open>crypto-gotham-relay/src/enroll_client.rs\<close>: the loop that announces the relay to its directory
  authorities. The enrolment document and its possession proof belong to the packet crate (the
  argument \<open>E\<close>); the HTTP client and the hexadecimal codec are other crates, and what they give
  in each round is an argument. The loop never ends, so it is a function of the rounds so far.
\<close>

subsection \<open>Configuration and documents\<close>

datatype relay_tier = Entry | Mix | Exit

record enroll_config =
  ec_authority_url :: string
  ec_extra_authority_urls :: "string list"
  ec_advertise_addr :: string
  ec_kem_pubkey_hex :: string
  ec_tier :: relay_tier
  ec_token :: "string option"
  ec_country :: "string option"
  ec_operator :: "string option"
  ec_heartbeat :: duration
  ec_rendezvous :: "string option"
  ec_rendezvous_capable :: bool
  ec_mailbox :: bool
  ec_relay_sk :: bytes
  ec_authority_pop_pk :: "bytes option"

record 'e enrollment_api =
  en_new :: "string \<Rightarrow> string \<Rightarrow> relay_tier \<Rightarrow> string option \<Rightarrow> string option \<Rightarrow> u64 \<Rightarrow> 'e"
  en_with_attest_epoch :: "u64 \<Rightarrow> 'e \<Rightarrow> 'e"
  en_with_rendezvous :: "string \<Rightarrow> 'e \<Rightarrow> 'e"
  en_with_rendezvous_capable :: "bool \<Rightarrow> 'e \<Rightarrow> 'e"
  en_with_mailbox :: "bool \<Rightarrow> 'e \<Rightarrow> 'e"
  en_with_pop_proof :: "string \<Rightarrow> 'e \<Rightarrow> 'e"
  en_binding_hash :: "'e \<Rightarrow> bytes"
  en_pop_tag_v2 :: "bytes \<Rightarrow> bytes \<Rightarrow> bytes"
  en_current_attest_epoch :: "u64 \<Rightarrow> u64"
  en_diffie_hellman :: "bytes \<Rightarrow> bytes \<Rightarrow> bytes"
  hex_decode :: "string \<Rightarrow> bytes option"
  hex_encode :: "bytes \<Rightarrow> string"

text \<open>\<^verbatim>\<open>hex::decode(..).ok()\<close> followed by the conversion to 32 bytes.\<close>

definition decode_key :: "(string \<Rightarrow> bytes option) \<Rightarrow> string \<Rightarrow> bytes option" where
  "decode_key decode s =
     (case decode s of
        None \<Rightarrow> None
      | Some bs \<Rightarrow> if length bs = 32 then Some bs else None)"

definition base_enrollment :: "'e enrollment_api \<Rightarrow> enroll_config \<Rightarrow> u64 \<Rightarrow> u64 \<Rightarrow> 'e" where
  "base_enrollment E cfg seq epoch =
     (let advertise = (if ec_rendezvous cfg \<noteq> None then [] else ec_advertise_addr cfg);
          e0 = en_with_attest_epoch E epoch
            (en_new E (ec_kem_pubkey_hex cfg) advertise (ec_tier cfg) (ec_country cfg) (ec_operator cfg) seq);
          e1 = (case ec_rendezvous cfg of None \<Rightarrow> e0 | Some r \<Rightarrow> en_with_rendezvous E r e0);
          e2 = (if ec_rendezvous_capable cfg then en_with_rendezvous_capable E True e1 else e1) in
      if ec_mailbox cfg then en_with_mailbox E True e2 else e2)"

definition attach_pop_proof :: "'e enrollment_api \<Rightarrow> 'e \<Rightarrow> enroll_config \<Rightarrow> bytes \<Rightarrow> 'e" where
  "attach_pop_proof E e cfg pop_pk =
     (if decode_key (hex_decode E) (ec_kem_pubkey_hex cfg) = None then e
      else
        let shared = en_diffie_hellman E (ec_relay_sk cfg) pop_pk;
            tag = en_pop_tag_v2 E shared (en_binding_hash E e) in
        en_with_pop_proof E (hex_encode E tag) e)"

subsection \<open>The network of one round\<close>

text \<open>
  A response to a GET: whether its status is a success, and its body if it could be read. A POST is
  accepted, refused with a body (empty when it could not be read), or fails.
\<close>

datatype http_get = GetFailed | GetOk bool "string option"

datatype http_post = PostAccepted | PostRefused string | PostFailed

record 'e network =
  net_get :: "string \<Rightarrow> http_get"
  net_post :: "string \<Rightarrow> string option \<Rightarrow> 'e \<Rightarrow> http_post"
  net_unix :: u64

definition fetch_authority_pop_pk :: "'e enrollment_api \<Rightarrow> 'e network \<Rightarrow> string \<Rightarrow> bytes option" where
  "fetch_authority_pop_pk E net authority_url =
     (case net_get net (trim_end_matches (CHR ''/'') authority_url @ ''/pop'') of
        GetFailed \<Rightarrow> None
      | GetOk success body \<Rightarrow>
          if \<not> success then None
          else
            (case body of
               None \<Rightarrow> None
             | Some text \<Rightarrow> decode_key (hex_decode E) (trim text)))"

subsection \<open>Targets and the loop\<close>

record authority_target =
  at_base_url :: string
  at_enroll_url :: string
  at_pop_pk :: "bytes option"
  at_pinned :: bool

definition target_for :: "string \<Rightarrow> bytes option \<Rightarrow> authority_target" where
  "target_for url pop_pk =
     (let base = trim_end_matches (CHR ''/'') url in
      \<lparr>at_base_url = base, at_enroll_url = base @ ''/enroll'', at_pop_pk = pop_pk, at_pinned = (pop_pk \<noteq> None)\<rparr>)"

definition initial_targets :: "enroll_config \<Rightarrow> authority_target list" where
  "initial_targets cfg =
     target_for (ec_authority_url cfg) (ec_authority_pop_pk cfg) #
     map (\<lambda>url. target_for url None) (ec_extra_authority_urls cfg)"

text \<open>What one target makes of a round: the key it fetched or kept, the document it posted, and whether it was accepted.\<close>

record 'e post_log =
  pl_url :: string
  pl_key :: "bytes option"
  pl_enrollment :: 'e
  pl_accepted :: bool

definition announce :: "'e enrollment_api \<Rightarrow> enroll_config \<Rightarrow> 'e network \<Rightarrow> 'e \<Rightarrow> authority_target
    \<Rightarrow> 'e post_log \<times> authority_target" where
  "announce E cfg net base t0 =
     (let t = (if at_pop_pk t0 = None then t0\<lparr>at_pop_pk := fetch_authority_pop_pk E net (at_base_url t0)\<rparr> else t0);
          enrollment = (case at_pop_pk t of Some pk \<Rightarrow> attach_pop_proof E base cfg pk | None \<Rightarrow> base);
          log = (\<lambda>ok. \<lparr>pl_url = at_enroll_url t, pl_key = at_pop_pk t, pl_enrollment = enrollment, pl_accepted = ok\<rparr>) in
      case net_post net (at_enroll_url t) (ec_token cfg) enrollment of
        PostAccepted \<Rightarrow> (log True, t)
      | PostRefused body \<Rightarrow>
          (log False, if \<not> at_pinned t \<and> contains ''possession proof'' body then t\<lparr>at_pop_pk := None\<rparr> else t)
      | PostFailed \<Rightarrow> (log False, t))"

fun announce_all :: "'e enrollment_api \<Rightarrow> enroll_config \<Rightarrow> 'e network \<Rightarrow> 'e \<Rightarrow> authority_target list
    \<Rightarrow> 'e post_log list \<times> authority_target list" where
  "announce_all E cfg net base [] = ([], [])"
| "announce_all E cfg net base (t # ts) =
     (case announce E cfg net base t of
        (log, t') \<Rightarrow> (case announce_all E cfg net base ts of (logs, ts') \<Rightarrow> (log # logs, t' # ts')))"

definition FIRST_ENROLL_RETRY :: duration where
  "FIRST_ENROLL_RETRY = from_secs 5"

definition FIRST_ENROLL_RETRY_MAX :: duration where
  "FIRST_ENROLL_RETRY_MAX = from_secs 60"

record enroll_state =
  es_targets :: "authority_target list"
  es_seq :: u64
  es_settled :: bool
  es_retry :: duration

definition enroll_start :: "enroll_config \<Rightarrow> u64 \<Rightarrow> enroll_state" where
  "enroll_start cfg now =
     \<lparr>es_targets = initial_targets cfg, es_seq = now, es_settled = False, es_retry = FIRST_ENROLL_RETRY\<rparr>"

text \<open>One round of the loop and the pause after it.\<close>

definition enroll_round :: "'e enrollment_api \<Rightarrow> enroll_config \<Rightarrow> 'e network \<Rightarrow> enroll_state
    \<Rightarrow> 'e post_log list \<times> duration \<times> enroll_state" where
  "enroll_round E cfg net st =
     (let epoch = en_current_attest_epoch E (net_unix net);
          base = base_enrollment E cfg (es_seq st) epoch in
      case announce_all E cfg net base (es_targets st) of
        (logs, targets) \<Rightarrow>
          let any_ok = list_ex pl_accepted logs;
              st1 = st\<lparr>es_targets := targets, es_seq := sat_add (es_seq st) 1, es_settled := es_settled st \<or> any_ok\<rparr> in
          if es_settled st1 then (logs, ec_heartbeat cfg, st1)
          else (logs, es_retry st, st1\<lparr>es_retry := min (es_retry st * 2) FIRST_ENROLL_RETRY_MAX\<rparr>))"

fun enroll_loop :: "'e enrollment_api \<Rightarrow> enroll_config \<Rightarrow> 'e network list \<Rightarrow> enroll_state
    \<Rightarrow> ('e post_log list \<times> duration) list \<times> enroll_state" where
  "enroll_loop E cfg [] st = ([], st)"
| "enroll_loop E cfg (net # nets) st =
     (case enroll_round E cfg net st of
        (logs, pause, st1) \<Rightarrow>
          (case enroll_loop E cfg nets st1 of (rest, st2) \<Rightarrow> ((logs, pause) # rest, st2)))"

text \<open>The pause of a rendezvous-hosted relay before its first round.\<close>

definition initial_pause :: "enroll_config \<Rightarrow> duration" where
  "initial_pause cfg = (if ec_rendezvous cfg \<noteq> None then from_secs 3 else 0)"

text \<open>The whole task: without an HTTP client it gives up, otherwise it pauses and enters the loop.\<close>

definition run_enrollment_loop :: "'e enrollment_api \<Rightarrow> bool \<Rightarrow> enroll_config \<Rightarrow> u64 \<Rightarrow> 'e network list
    \<Rightarrow> (duration \<times> ('e post_log list \<times> duration) list) option" where
  "run_enrollment_loop E client cfg now nets =
     (if \<not> client then None
      else Some (initial_pause cfg, fst (enroll_loop E cfg nets (enroll_start cfg now))))"

subsection \<open>The tier argument\<close>

definition parse_tier :: "string \<Rightarrow> string + relay_tier" where
  "parse_tier s =
     (let t = to_ascii_lowercase (trim s) in
      if t = ''entry'' then Inr Entry
      else if t = ''mix'' \<or> t = [] then Inr Mix
      else if t = ''exit'' then Inr Exit
      else Inl (''unknown tier `'' @ t @ ''` - use entry|mix|exit''))"

subsection \<open>Every authority gets the same document\<close>

definition posted :: "'e enrollment_api \<Rightarrow> enroll_config \<Rightarrow> 'e \<Rightarrow> 'e post_log \<Rightarrow> bool" where
  "posted E cfg base log \<longleftrightarrow>
     pl_enrollment log = (case pl_key log of None \<Rightarrow> base | Some pk \<Rightarrow> attach_pop_proof E base cfg pk)"

lemma announce_posted: "posted E cfg base (fst (announce E cfg net base t))"
  by (auto simp: announce_def posted_def Let_def split: http_post.splits)

lemma announce_all_posted: "list_all (posted E cfg base) (fst (announce_all E cfg net base ts))"
proof (induction ts)
  case (Cons t ts)
  then show ?case using announce_posted [of E cfg base net t] by (auto split: prod.splits)
qed simp

definition nth_seq :: "u64 \<Rightarrow> nat \<Rightarrow> u64" where
  "nth_seq s i = of_nat (min (unat s + i) (2 ^ 64 - 1))"

lemma nth_seq_0: "nth_seq s 0 = s"
  using unsigned_less [of s, where 'a = nat] by (simp add: nth_seq_def min_def)

lemma nth_seq_Suc: "nth_seq (sat_add s 1) i = nth_seq s (Suc i)"
proof -
  have "unat (sat_add s 1) = min (unat s + 1) (2 ^ 64 - 1)" by (simp add: unat_sat_add)
  then show ?thesis by (simp add: nth_seq_def min_def)
qed

lemma loop_posted:
  assumes "i < length nets"
  shows "i < length (fst (enroll_loop E cfg nets st)) \<and>
    list_all (posted E cfg (base_enrollment E cfg (nth_seq (es_seq st) i) (en_current_attest_epoch E (net_unix (nets ! i)))))
      (fst (fst (enroll_loop E cfg nets st) ! i))"
  using assms
proof (induction nets arbitrary: i st)
  case (Cons net nets)
  obtain logs pause st1 where r: "enroll_round E cfg net st = (logs, pause, st1)" by (metis prod_cases3)
  obtain rest st2 where l: "enroll_loop E cfg nets st1 = (rest, st2)" by fastforce
  have st1: "es_seq st1 = sat_add (es_seq st) 1"
    using r by (auto simp: enroll_round_def Let_def split: prod.splits if_splits)
  show ?case
  proof (cases i)
    case 0
    have "logs = fst (announce_all E cfg net (base_enrollment E cfg (es_seq st) (en_current_attest_epoch E (net_unix net))) (es_targets st))"
      using r by (auto simp: enroll_round_def Let_def split: prod.splits if_splits)
    then show ?thesis using 0 r l announce_all_posted by (simp add: nth_seq_0)
  next
    case (Suc j)
    with Cons.prems have "j < length nets" by simp
    from Cons.IH [OF this, of st1] show ?thesis using Suc r l by (simp add: st1 nth_seq_Suc)
  qed
qed simp


text \<open>An authority network for the examples.\<close>

definition toy_enrollment :: "(u64 \<times> string) enrollment_api" where
  "toy_enrollment =
     \<lparr>en_new = (\<lambda>kem addr tier country operator seq. (seq, [])), en_with_attest_epoch = (\<lambda>ep e. e),
      en_with_rendezvous = (\<lambda>r e. e), en_with_rendezvous_capable = (\<lambda>b e. e), en_with_mailbox = (\<lambda>b e. e),
      en_with_pop_proof = (\<lambda>p e. (fst e, p)), en_binding_hash = (\<lambda>e. [1]), en_pop_tag_v2 = (\<lambda>s h. s @ h),
      en_current_attest_epoch = (\<lambda>t. t), en_diffie_hellman = (\<lambda>sk pk. pk),
      hex_decode = (\<lambda>s. Some (map of_char s)), hex_encode = map (\<lambda>b. char_of (unat b))\<rparr>"

definition toy_enroll_config :: enroll_config where
  "toy_enroll_config =
     \<lparr>ec_authority_url = ''a/'', ec_extra_authority_urls = [''b''], ec_advertise_addr = ''1.2.3.4:1'',
      ec_kem_pubkey_hex = replicate 32 (CHR ''k''), ec_tier = Mix, ec_token = None, ec_country = None, ec_operator = None,
      ec_heartbeat = from_secs 300, ec_rendezvous = None, ec_rendezvous_capable = False, ec_mailbox = False,
      ec_relay_sk = [1], ec_authority_pop_pk = Some [7]\<rparr>"

text \<open>One network refuses every possession proof and serves a key of its own; the other accepts at \<open>b\<close>.\<close>

definition hostile_net :: "(u64 \<times> string) network" where
  "hostile_net =
     \<lparr>net_get = (\<lambda>url. GetOk True (Some (replicate 32 (CHR ''x'')))),
      net_post = (\<lambda>url token e. PostRefused ''bad possession proof''), net_unix = 100\<rparr>"

definition half_net :: "(u64 \<times> string) network" where
  "half_net = hostile_net\<lparr>net_post := \<lambda>url token e. if url = ''b/enroll'' then PostAccepted else PostFailed\<rparr>"


subsection \<open>A pinned key stays\<close>

definition pinned_to :: "bytes \<Rightarrow> authority_target list \<Rightarrow> bool" where
  "pinned_to k ts = (case ts of [] \<Rightarrow> False | t # _ \<Rightarrow> at_pinned t \<and> at_pop_pk t = Some k)"

definition used_key :: "bytes \<Rightarrow> 'e post_log list \<Rightarrow> bool" where
  "used_key k logs = (case logs of [] \<Rightarrow> False | l # _ \<Rightarrow> pl_key l = Some k)"

lemma announce_pinned:
  assumes "pinned_to k ts" "announce_all E cfg net base ts = (logs, ts')"
  shows "pinned_to k ts' \<and> used_key k logs"
  using assms
  by (cases ts) (auto simp: pinned_to_def used_key_def announce_def Let_def split: prod.splits http_post.splits)

lemma round_pinned:
  assumes "pinned_to k (es_targets st)" "enroll_round E cfg net st = (logs, pause, st')"
  shows "pinned_to k (es_targets st') \<and> used_key k logs"
proof -
  let ?base = "base_enrollment E cfg (es_seq st) (en_current_attest_epoch E (net_unix net))"
  obtain ls ts where a: "announce_all E cfg net ?base (es_targets st) = (ls, ts)" by fastforce
  with assms(2) have "ls = logs" "es_targets st' = ts"
    by (auto simp: enroll_round_def Let_def split: if_splits)
  with announce_pinned [OF assms(1) a] show ?thesis by simp
qed

lemma loop_pinned:
  "pinned_to k (es_targets st) \<Longrightarrow> enroll_loop E cfg nets st = (rounds, st') \<Longrightarrow>
   pinned_to k (es_targets st') \<and> list_all (\<lambda>r. used_key k (fst r)) rounds"
proof (induction nets arbitrary: st st' rounds)
  case (Cons net nets)
  obtain logs pause st1 where r: "enroll_round E cfg net st = (logs, pause, st1)" by (metis prod_cases3)
  obtain rest st2 where l: "enroll_loop E cfg nets st1 = (rest, st2)" by fastforce
  note p = round_pinned [OF Cons.prems(1) r]
  with Cons.IH [OF _ l] Cons.prems(2) r l show ?case by auto
qed simp

lemma run_enrollmentE:
  assumes "run_enrollment_loop E client cfg now nets = Some (pause, rounds)"
  obtains st where "enroll_loop E cfg nets (enroll_start cfg now) = (rounds, st)"
  using assms that by (cases "enroll_loop E cfg nets (enroll_start cfg now)") (auto simp: run_enrollment_loop_def split: if_splits)

text \<open>C35. A pinned authority key is never replaced: when the operator pins the key of the primary
  authority, every possession proof for it is made for that key, in every round, whatever the network answers: no response
  can make the relay forget the pin, and no key is ever fetched in its place.\<close>

theorem pinned_key_kept:
  assumes "ec_authority_pop_pk cfg = Some k" "run_enrollment_loop E client cfg now nets = Some (pause, rounds)"
  shows "list_all (\<lambda>r. used_key k (fst r)) rounds"
proof -
  obtain st where "enroll_loop E cfg nets (enroll_start cfg now) = (rounds, st)" by (rule run_enrollmentE [OF assms(2)])
  from loop_pinned [OF _ this, of k] show ?thesis
    using assms(1) by (simp add: pinned_to_def enroll_start_def initial_targets_def target_for_def Let_def)
qed

theorem pinned_key_kept_witness:
  "\<exists>pause rounds. run_enrollment_loop toy_enrollment True toy_enroll_config 100 [hostile_net, half_net] = Some (pause, rounds) \<and>
    list_all (\<lambda>r. used_key [7] (fst r)) rounds"
proof -
  obtain pause rounds where r: "run_enrollment_loop toy_enrollment True toy_enroll_config 100 [hostile_net, half_net] = Some (pause, rounds)"
    by (simp add: run_enrollment_loop_def)
  have "ec_authority_pop_pk toy_enroll_config = Some [7]" by (simp add: toy_enroll_config_def)
  from pinned_key_kept [OF this r] r show ?thesis by blast
qed

subsection \<open>Pauses\<close>

definition accepted :: "('e post_log list \<times> duration) list \<Rightarrow> bool" where
  "accepted rounds = list_ex (\<lambda>r. list_ex pl_accepted (fst r)) rounds"

definition backoff :: "nat \<Rightarrow> duration" where
  "backoff i = min (FIRST_ENROLL_RETRY * 2 ^ i) FIRST_ENROLL_RETRY_MAX"

lemma backoff_Suc: "min (backoff i * 2) FIRST_ENROLL_RETRY_MAX = backoff (Suc i)"
  by (simp add: backoff_def min_def)

lemma loop_pauses:
  "enroll_loop E cfg nets st = (rounds, st') \<Longrightarrow> es_retry st = backoff n \<Longrightarrow> i < length rounds \<Longrightarrow>
   snd (rounds ! i) = (if es_settled st \<or> accepted (take (Suc i) rounds) then ec_heartbeat cfg else backoff (n + i))"
proof (induction nets arbitrary: st st' rounds i n)
  case (Cons net nets)
  obtain logs pause st1 where r: "enroll_round E cfg net st = (logs, pause, st1)" by (metis prod_cases3)
  obtain rest st2 where l: "enroll_loop E cfg nets st1 = (rest, st2)" by fastforce
  from Cons.prems(1) r l have rounds: "rounds = (logs, pause) # rest" by simp
  have st1: "es_settled st1 = (es_settled st \<or> list_ex pl_accepted logs)"
    "pause = (if es_settled st1 then ec_heartbeat cfg else backoff n)"
    "\<not> es_settled st1 \<Longrightarrow> es_retry st1 = backoff (Suc n)" "es_settled st1 \<Longrightarrow> es_retry st1 = backoff n"
    using r Cons.prems(2) by (auto simp: enroll_round_def Let_def backoff_Suc split: prod.splits if_splits)
  show ?case
  proof (cases i)
    case 0
    then show ?thesis using st1 by (auto simp: rounds accepted_def)
  next
    case (Suc j)
    with Cons.prems(3) rounds have j: "j < length rest" by simp
    show ?thesis
    proof (cases "es_settled st1")
      case True
      from Cons.IH [OF l st1(4) [OF True] j] show ?thesis using True st1(1) by (auto simp: rounds Suc accepted_def)
    next
      case False
      from Cons.IH [OF l st1(3) [OF False] j] show ?thesis using False st1(1) by (auto simp: rounds Suc accepted_def)
    qed
  qed
qed simp

text \<open>Retries back off, heartbeats do not: until the first acceptance the pause after round \<open>i\<close> is five
  seconds doubled \<open>i\<close> times and capped at sixty; from the first acceptance on every pause is the
  configured heartbeat, even when later rounds fail.\<close>

lemma enroll_pauses:
  assumes "run_enrollment_loop E client cfg now nets = Some (pause, rounds)" "i < length rounds"
  shows "snd (rounds ! i) =
    (if accepted (take (Suc i) rounds) then ec_heartbeat cfg else min (from_secs 5 * 2 ^ i) (from_secs 60))"
proof -
  obtain st where "enroll_loop E cfg nets (enroll_start cfg now) = (rounds, st)" by (rule run_enrollmentE [OF assms(1)])
  from loop_pauses [OF this _ assms(2), of 0] show ?thesis
    by (simp add: enroll_start_def backoff_def FIRST_ENROLL_RETRY_def FIRST_ENROLL_RETRY_MAX_def min_def time_simps)
qed

end
