(* ===== verification/Stores.thy ===== *)
theory Stores
  imports Client Replay_Persist Text_Std Net_Addr
begin

section \<open>Keys and stores\<close>

text \<open>
  The parts of \<^verbatim>\<open>crypto-gotham-relay/src/main.rs\<close> that touch files: the key files, the mailbox store and its
  maintenance task, and the parsing of the listen address. The hexadecimal codec and MessagePack are other crates and
  are arguments; messages are printed or logged and are not modelled. Reading a file fails when there is none.
\<close>

subsection \<open>Listen address\<close>

definition parse_listen_addr :: "string \<Rightarrow> u16 \<Rightarrow> io_error + socket_addr" where
  "parse_listen_addr host port =
     (case parse_ip_addr (trim host) of
        None \<Rightarrow> Inl (Io_InvalidInput (''--listen-host must be a numeric IP (v4/v6), got `'' @ host @ ''`''))
      | Some ip \<Rightarrow> Inr (ip, port))"

subsection \<open>Key files\<close>

text \<open>The hexadecimal codec: \<open>None\<close> is its error.\<close>

record hex_codec =
  hx_decode :: "string \<Rightarrow> bytes option"
  hx_encode :: "bytes \<Rightarrow> string"

definition read_to_string :: "path \<Rightarrow> fs \<Rightarrow> io_error + string" where
  "read_to_string p files =
     (case files p of
        None \<Rightarrow> Inl Io_NotFound
      | Some (bs, _) \<Rightarrow>
          if is_utf8 (map unat bs) then Inr (text_of bs)
          else Inl (Io_InvalidData ''stream did not contain valid UTF-8''))"

definition read_key_file :: "hex_codec \<Rightarrow> path \<Rightarrow> fs \<Rightarrow> io_error + bytes" where
  "read_key_file X p files =
     (case read_to_string p files of
        Inl e \<Rightarrow> Inl e
      | Inr raw \<Rightarrow>
          (case hx_decode X (trim raw) of
             None \<Rightarrow> Inl (Io_InvalidData ''bad hex'')
           | Some bs \<Rightarrow>
               if length bs \<noteq> 32 then Inl (Io_InvalidData ''secret key file must be 64 hex chars (32 bytes)'')
               else Inr bs))"

datatype file_fate = File_ok | File_open_fails io_error | File_write_fails nat io_error

definition write_key_file :: "hex_codec \<Rightarrow> file_fate \<Rightarrow> path \<Rightarrow> bytes \<Rightarrow> fs \<Rightarrow> (io_error + unit) \<times> fs" where
  "write_key_file X fate p sk files =
     (if files p \<noteq> None then (Inl (Io_AlreadyExists ''key file already exists - refusing to overwrite''), files)
      else
        let contents = ascii (hx_encode X sk) @ [10] in
        case fate of
          File_open_fails e \<Rightarrow> (Inl e, files)
        | File_write_fails n e \<Rightarrow> (Inl e, files(p \<mapsto> (take n contents, owner_only)))
        | File_ok \<Rightarrow> (Inr (), files(p \<mapsto> (contents, owner_only))))"

text \<open>The commands \<^verbatim>\<open>keygen\<close> and \<^verbatim>\<open>pubkey\<close>: the result is the line they print.\<close>

definition keygen :: "hex_codec \<Rightarrow> (bytes \<Rightarrow> bytes) \<Rightarrow> file_fate \<Rightarrow> bytes \<Rightarrow> path \<Rightarrow> fs \<Rightarrow> (io_error + string) \<times> fs" where
  "keygen X public_of fate os_random p files =
     (let sk = clamp_key os_random in
      case write_key_file X fate p sk files of
        (Inl e, files1) \<Rightarrow> (Inl e, files1)
      | (Inr _, files1) \<Rightarrow> (Inr (''public key: '' @ hx_encode X (public_of sk)), files1))"

definition pubkey :: "hex_codec \<Rightarrow> (bytes \<Rightarrow> bytes) \<Rightarrow> path \<Rightarrow> fs \<Rightarrow> io_error + string" where
  "pubkey X public_of p files =
     (case read_key_file X p files of
        Inl e \<Rightarrow> Inl e
      | Inr sk \<Rightarrow> Inr (hx_encode X (public_of sk)))"

text \<open>An Ed25519 seed is hexadecimal text or 32 raw bytes.\<close>

definition read_ed25519_seed :: "hex_codec \<Rightarrow> path \<Rightarrow> fs \<Rightarrow> io_error + bytes" where
  "read_ed25519_seed X p files =
     (case files p of
        None \<Rightarrow> Inl Io_NotFound
      | Some (raw, _) \<Rightarrow>
          (case (if list_all (\<lambda>b. is_ascii_hexdigit b \<or> is_ascii_whitespace b) raw
                 then hx_decode X (trim (text_of raw)) else Some raw) of
             None \<Rightarrow> Inl (Io_InvalidData ''bad hex'')
           | Some trimmed \<Rightarrow>
               if length trimmed \<noteq> 32 then Inl (Io_InvalidData ''authority key must be 32 bytes (or 64 hex chars)'')
               else Inr trimmed))"

subsection \<open>The mailbox store\<close>

text \<open>The mailbox crate: an empty mailbox, snapshots, their encoding, and pruning.\<close>

record ('m, 's) store_api =
  st_with_defaults :: 'm
  st_from_snapshot :: "'s \<Rightarrow> u64 \<Rightarrow> 'm"
  st_snapshot :: "'m \<Rightarrow> 's"
  st_from_slice :: "bytes \<Rightarrow> 's option"
  st_to_vec :: "'s \<Rightarrow> bytes option"
  st_prune_expired :: "'m \<Rightarrow> u64 \<Rightarrow> 'm"

definition load_mailbox :: "('m, 's) store_api \<Rightarrow> u64 \<Rightarrow> path option \<Rightarrow> fs \<Rightarrow> 'm" where
  "load_mailbox S now store files =
     (case store of
        None \<Rightarrow> st_with_defaults S
      | Some p \<Rightarrow>
          (case files p of
             None \<Rightarrow> st_with_defaults S
           | Some (bs, _) \<Rightarrow>
               (case st_from_slice S bs of
                  None \<Rightarrow> st_with_defaults S
                | Some snap \<Rightarrow> st_from_snapshot S snap now)))"

text \<open>
  How a save goes: the temporary file cannot be opened, the write stops after some bytes, the rename fails, or
  everything works. A new file gets the process's default mode. \<open>between\<close> is what other tasks do to the files between the
  write and the rename.
\<close>

datatype store_fate = Store_ok | Store_open_fails io_error | Store_write_fails nat io_error | Store_rename_fails io_error

definition mode_for :: "nat \<Rightarrow> path \<Rightarrow> fs \<Rightarrow> nat" where
  "mode_for default_mode p files = (case files p of None \<Rightarrow> default_mode | Some (_, m) \<Rightarrow> m)"

definition rename_file :: "path \<Rightarrow> path \<Rightarrow> fs \<Rightarrow> (io_error + unit) \<times> fs" where
  "rename_file src dst files =
     (case files src of
        None \<Rightarrow> (Inl Io_NotFound, files)
      | Some f \<Rightarrow> (Inr (), (files(src := None))(dst \<mapsto> f)))"

definition persist_mailbox :: "('m, 's) store_api \<Rightarrow> nat \<Rightarrow> store_fate \<Rightarrow> (fs \<Rightarrow> fs) \<Rightarrow> path \<Rightarrow> 's \<Rightarrow> fs
    \<Rightarrow> (io_error + unit) \<times> fs" where
  "persist_mailbox S default_mode fate between p snap files =
     (case st_to_vec S snap of
        None \<Rightarrow> (Inl (Io_InvalidData ''serialize mailbox snapshot''), files)
      | Some bs \<Rightarrow>
          let tmp = with_extension ''tmp'' p; m = mode_for default_mode tmp files in
          (case fate of
             Store_open_fails e \<Rightarrow> (Inl e, files)
           | Store_write_fails n e \<Rightarrow> (Inl e, files(tmp \<mapsto> (take n bs, m)))
           | Store_rename_fails e \<Rightarrow> (Inl e, between (files(tmp \<mapsto> (bs, m))))
           | Store_ok \<Rightarrow> rename_file tmp p (between (files(tmp \<mapsto> (bs, m))))))"

text \<open>One tick of the maintenance task: prune, and save when a store is configured.\<close>

definition mailbox_tick :: "('m, 's) store_api \<Rightarrow> nat \<Rightarrow> store_fate \<Rightarrow> (fs \<Rightarrow> fs) \<Rightarrow> u64 \<Rightarrow> path option \<Rightarrow> 'm \<Rightarrow> fs
    \<Rightarrow> 'm \<times> fs" where
  "mailbox_tick S default_mode fate between now store mb files =
     (let mb1 = st_prune_expired S mb now in
      case store of
        None \<Rightarrow> (mb1, files)
      | Some p \<Rightarrow> (mb1, snd (persist_mailbox S default_mode fate between p (st_snapshot S mb1) files)))"

text \<open>
  The maintenance task: at every tick the clock, how the save goes and what others do meanwhile, and how the requests since
  the last tick changed the mailbox and the files.
\<close>

record 'm mailbox_turn =
  mt_requests :: "'m \<Rightarrow> 'm"
  mt_files :: "fs \<Rightarrow> fs"
  mt_now :: u64
  mt_fate :: store_fate
  mt_between :: "fs \<Rightarrow> fs"

fun spawn_mailbox_maintenance :: "('m, 's) store_api \<Rightarrow> nat \<Rightarrow> path option \<Rightarrow> 'm mailbox_turn list \<Rightarrow> 'm \<Rightarrow> fs \<Rightarrow> 'm \<times> fs" where
  "spawn_mailbox_maintenance S default_mode store [] mb files = (mb, files)"
| "spawn_mailbox_maintenance S default_mode store (mt # turns) mb files =
     (case mailbox_tick S default_mode (mt_fate mt) (mt_between mt) (mt_now mt) store (mt_requests mt mb) (mt_files mt files) of
        (mb1, files1) \<Rightarrow> spawn_mailbox_maintenance S default_mode store turns mb1 files1)"

subsection \<open>Listen addresses are numeric\<close>

text \<open>The listen address is numeric: when \<^verbatim>\<open>parse_listen_addr\<close> accepts a host, the trimmed text has only
  hexadecimal digits, dots and colons, so no name is ever resolved, and the port is the one given.\<close>

lemma listen_addr_numeric:
  assumes "parse_listen_addr host port = Inr a"
  shows "list_all numeric_char (trim host) \<and> snd a = port"
  using assms parse_ip_numeric [of "trim host"] by (auto simp: parse_listen_addr_def split: option.splits)

subsection \<open>Key files\<close>

text \<open>What the hexadecimal codec promises: it writes digits, and reads back what it wrote.\<close>

definition hex_ok :: "hex_codec \<Rightarrow> bool" where
  "hex_ok X \<longleftrightarrow>
     (\<forall>bs. hx_decode X (hx_encode X bs) = Some bs \<and> set (hx_encode X bs) \<subseteq> set ''0123456789abcdef'')"

lemma hex_solid: "hex_ok X \<Longrightarrow> list_all solid (hx_encode X bs)"
proof -
  assume "hex_ok X"
  then have "set (hx_encode X bs) \<subseteq> set ''0123456789abcdef''" by (simp add: hex_ok_def)
  moreover have "list_all solid ''0123456789abcdef''" by (simp add: solid_def)
  ultimately show ?thesis by (auto simp: list_all_iff)
qed

lemma length_clamp_key [simp]: "length (clamp_key sk) = length sk"
  by (simp add: clamp_key_def Let_def)

lemma read_text:
  assumes "files p = Some (ascii (s @ [CHR 0x0A]), m)" "list_all solid s"
  shows "read_to_string p files = Inr (s @ [CHR 0x0A])"
proof -
  have "list_all (\<lambda>b. b < 128) (map unat (ascii (s @ [CHR 0x0A])))"
    using assms(2) by (auto simp: ascii_def list_all_iff solid_def)
  then show ?thesis using assms(1) ascii_is_utf8 by (auto simp: read_to_string_def)
qed

lemma read_written_key:
  assumes "hex_ok X" "length sk = 32" "files p = Some (ascii (hx_encode X sk) @ [10], m)"
  shows "read_key_file X p files = Inr sk"
proof -
  have "ascii (hx_encode X sk) @ [10] = ascii (hx_encode X sk @ [CHR 0x0A])" by (simp add: ascii_def)
  with assms(3) have "read_to_string p files = Inr (hx_encode X sk @ [CHR 0x0A])"
    using read_text [OF _ hex_solid [OF assms(1)]] by metis
  then show ?thesis
    using assms(1,2) by (simp add: read_key_file_def trim_solid [OF hex_solid [OF assms(1)]] hex_ok_def)
qed

text \<open>C38. A generated key can be used: \<^verbatim>\<open>keygen\<close> writes a file that only its owner can read and touches no other file;
  reading it gives the clamped secret; \<^verbatim>\<open>pubkey\<close> prints the very key \<^verbatim>\<open>keygen\<close> printed; and from then on
  \<^verbatim>\<open>keygen\<close> on this path is refused and leaves every file alone.\<close>

theorem keygen_roundtrip:
  assumes "hex_ok X" "length os_random = 32" "files p = None"
    and "keygen X public_of File_ok os_random p files = (res, files')"
  shows "read_key_file X p files' = Inr (clamp_key os_random) \<and>
    (\<exists>k. res = Inr (''public key: '' @ k) \<and> pubkey X public_of p files' = Inr k) \<and>
    map_option snd (files' p) = Some owner_only \<and> (\<forall>q. q \<noteq> p \<longrightarrow> files' q = files q) \<and>
    (\<exists>msg. keygen X public_of fate os_random' p files' = (Inl (Io_AlreadyExists msg), files'))"
proof -
  let ?sk = "clamp_key os_random"
  have res: "res = Inr (''public key: '' @ hx_encode X (public_of ?sk))"
    and files': "files' = files(p \<mapsto> (ascii (hx_encode X ?sk) @ [10], owner_only))"
    using assms(3,4) by (auto simp: keygen_def write_key_file_def Let_def)
  have rd: "read_key_file X p files' = Inr ?sk"
    by (rule read_written_key [OF assms(1)]) (simp_all add: assms(2) files')
  then have "pubkey X public_of p files' = Inr (hx_encode X (public_of ?sk))" by (simp add: pubkey_def)
  with rd show ?thesis by (simp add: res files' keygen_def write_key_file_def Let_def)
qed

text \<open>A codec of the kind the code uses, for the examples.\<close>

definition hex_digits :: string where
  "hex_digits = ''0123456789abcdef''"

definition digit_value :: "char \<Rightarrow> nat option" where
  "digit_value c = find (\<lambda>n. hex_digits ! n = c) [0..<16]"

fun hex_pairs :: "string \<Rightarrow> bytes option" where
  "hex_pairs [] = Some []"
| "hex_pairs [c] = None"
| "hex_pairs (c # d # s) =
     (case (digit_value c, digit_value d, hex_pairs s) of
        (Some a, Some b, Some bs) \<Rightarrow> Some (of_nat (16 * a + b) # bs)
      | _ \<Rightarrow> None)"

definition std_hex :: hex_codec where
  "std_hex =
     \<lparr>hx_decode = hex_pairs,
      hx_encode = \<lambda>bs. concat (map (\<lambda>b. [hex_digits ! (unat b div 16), hex_digits ! (unat b mod 16)]) bs)\<rparr>"

lemma digit_value_digit: "n < 16 \<Longrightarrow> digit_value (hex_digits ! n) = Some n"
proof -
  assume "n < 16"
  then have "n \<in> set [0..<16]" by simp
  moreover have "list_all (\<lambda>n. digit_value (hex_digits ! n) = Some n) [0..<16]"
    by (simp add: digit_value_def hex_digits_def upt_conv_Cons)
  ultimately show ?thesis by (simp only: list_all_iff)
qed

lemma std_hex_ok: "hex_ok std_hex"
proof -
  have lt: "unat (b :: byte) div 16 < 16" for b
    using unsigned_less [of b, where 'a = nat] by simp
  have "hex_pairs (concat (map (\<lambda>b. [hex_digits ! (unat b div 16), hex_digits ! (unat b mod 16)]) bs)) = Some bs" for bs
    by (induction bs) (simp_all add: digit_value_digit lt mult.commute [of 16])
  moreover have "hex_digits ! n \<in> set hex_digits" if "n < 16" for n
    using that by (intro nth_mem) (simp add: hex_digits_def)
  ultimately show ?thesis
    using lt by (force simp: hex_ok_def std_hex_def hex_digits_def [symmetric])
qed

theorem keygen_roundtrip_witness:
  "read_key_file std_hex \<lparr>pdir = ''/'', pstem = ''k'', pext = None\<rparr>
     (snd (keygen std_hex rev File_ok (replicate 32 7) \<lparr>pdir = ''/'', pstem = ''k'', pext = None\<rparr> (\<lambda>_. None))) =
   Inr (clamp_key (replicate 32 7))"
  using keygen_roundtrip [OF std_hex_ok _ _ surjective_pairing, of "replicate 32 7" "\<lambda>_. None"]
  by simp

subsection \<open>The mailbox store is replaced as a whole\<close>

text \<open>What MessagePack promises: a snapshot can be read back from its encoding.\<close>

definition store_ok :: "('m, 's) store_api \<Rightarrow> bool" where
  "store_ok S \<longleftrightarrow> (\<forall>snap bs. st_to_vec S snap = Some bs \<longrightarrow> st_from_slice S bs = Some snap)"

text \<open>Other tasks leave the store and its temporary file alone.\<close>

definition spares :: "path \<Rightarrow> (fs \<Rightarrow> fs) \<Rightarrow> bool" where
  "spares p between \<longleftrightarrow> (\<forall>files. between files p = files p \<and> between files (with_extension ''tmp'' p) = files (with_extension ''tmp'' p))"

lemma tmp_differs: "pext p \<noteq> Some ''tmp'' \<Longrightarrow> with_extension ''tmp'' p \<noteq> p"
  by (cases p) (simp add: with_extension_def)

lemma persist_mailbox_store:
  assumes "pext p \<noteq> Some ''tmp''" "spares p between"
  shows "map_option fst (snd (persist_mailbox S m fate between p snap files) p) =
    (if fate = Store_ok \<and> st_to_vec S snap \<noteq> None then st_to_vec S snap else map_option fst (files p))"
proof (cases "st_to_vec S snap")
  case None
  then show ?thesis by (simp add: persist_mailbox_def)
next
  case (Some bs)
  note d = tmp_differs [OF assms(1)] and b = assms(2) [unfolded spares_def, rule_format]
  show ?thesis
  proof (cases fate)
    case Store_ok
    then show ?thesis using Some d by (simp add: persist_mailbox_def Let_def rename_file_def b)
  qed (use Some d in \<open>simp_all add: persist_mailbox_def Let_def b\<close>)
qed

text \<open>The mailboxes whose save succeeded, the oldest first.\<close>

fun saved_boxes :: "('m, 's) store_api \<Rightarrow> 'm mailbox_turn list \<Rightarrow> 'm \<Rightarrow> 'm list" where
  "saved_boxes S [] mb = []"
| "saved_boxes S (mt # turns) mb =
     (let mb1 = st_prune_expired S (mt_requests mt mb) (mt_now mt) in
      (if mt_fate mt = Store_ok \<and> st_to_vec S (st_snapshot S mb1) \<noteq> None then [mb1] else []) @ saved_boxes S turns mb1)"

definition turn_spares :: "path \<Rightarrow> 'm mailbox_turn \<Rightarrow> bool" where
  "turn_spares p mt \<longleftrightarrow> spares p (mt_between mt) \<and> spares p (mt_files mt)"

text \<open>The store honours the contract of a file replaced as a whole; a save is a turn with the snapshot it takes.\<close>

interpretation mf: atomic_file
  "\<lambda>(mt, snap) p files. snd (persist_mailbox S m (mt_fate mt) (mt_between mt) p snap (mt_files mt files))"
  "\<lambda>p files. map_option fst (files p)"
  "\<lambda>(mt, snap). if mt_fate mt = Store_ok then map_option Some (st_to_vec S snap) else None"
  "\<lambda>(mt, snap) p. turn_spares p mt"
  for S :: "('m, 's) store_api" and m
  by unfold_locales
    (auto simp: persist_mailbox_store turn_spares_def, auto simp: spares_def split: option.split)

fun turn_saves :: "('m, 's) store_api \<Rightarrow> 'm mailbox_turn list \<Rightarrow> 'm \<Rightarrow> ('m mailbox_turn \<times> 's) list" where
  "turn_saves S [] mb = []"
| "turn_saves S (mt # turns) mb =
     (let mb1 = st_prune_expired S (mt_requests mt mb) (mt_now mt) in (mt, st_snapshot S mb1) # turn_saves S turns mb1)"

lemma maintenance_saves:
  "snd (spawn_mailbox_maintenance S m (Some p) turns mb files) =
   fold (\<lambda>(mt, snap). \<lambda>files. snd (persist_mailbox S m (mt_fate mt) (mt_between mt) p snap (mt_files mt files)))
     (turn_saves S turns mb) files"
  by (induction turns arbitrary: mb files) (simp_all add: mailbox_tick_def Let_def)

lemma last_saved_box:
  "last_written (\<lambda>(mt, snap). if mt_fate mt = Store_ok then map_option Some (st_to_vec S snap) else None)
     (turn_saves S turns mb) old =
   (if saved_boxes S turns mb = [] then old else st_to_vec S (st_snapshot S (last (saved_boxes S turns mb))))"
  by (induction turns arbitrary: mb old) (auto simp: Let_def)

lemma maintenance_store:
  assumes "pext p \<noteq> Some ''tmp''" "list_all (turn_spares p) turns"
  shows "map_option fst (snd (spawn_mailbox_maintenance S m (Some p) turns mb files) p) =
    (if saved_boxes S turns mb = [] then map_option fst (files p)
     else st_to_vec S (st_snapshot S (last (saved_boxes S turns mb))))"
proof -
  have "list_all (\<lambda>(mt, snap). turn_spares p mt) (turn_saves S turns mb)"
    using assms(2) by (induction turns arbitrary: mb) (simp_all add: Let_def)
  then have "list_all (\<lambda>f. (case f of (mt, snap) \<Rightarrow> \<lambda>p. turn_spares p mt) p) (turn_saves S turns mb)"
    by (simp add: case_prod_unfold)
  from mf.saves_view [OF assms(1) this, where S = S and m = m and files = files] show ?thesis
    unfolding maintenance_saves last_saved_box [symmetric] by (simp add: case_prod_unfold)
qed

lemma saved_boxes_encoded: "mb' \<in> set (saved_boxes S turns mb) \<Longrightarrow> st_to_vec S (st_snapshot S mb') \<noteq> None"
  by (induction turns arbitrary: mb) (auto simp: Let_def split: if_splits)

lemma load_mailbox_store:
  "load_mailbox S now (Some p) files =
     (case Option.bind (map_option fst (files p)) (st_from_slice S) of
        None \<Rightarrow> st_with_defaults S
      | Some snap \<Rightarrow> st_from_snapshot S snap now)"
  by (auto simp: load_mailbox_def split: option.splits)

text \<open>C20. The mailbox survives a crash at any point: whatever goes wrong while the maintenance task saves (an open, a write or
  a rename that fails, at any tick), a restart loads exactly the mailbox of the last save that succeeded, or what was
  stored before when none did, never a mixture.\<close>

theorem mailbox_store_recovers:
  assumes "store_ok S" "pext p \<noteq> Some ''tmp''" "list_all (turn_spares p) turns"
  shows "load_mailbox S now (Some p) (snd (spawn_mailbox_maintenance S m (Some p) turns mb files)) =
    (if saved_boxes S turns mb = [] then load_mailbox S now (Some p) files
     else st_from_snapshot S (st_snapshot S (last (saved_boxes S turns mb))) now)"
proof (cases "saved_boxes S turns mb = []")
  case True
  then show ?thesis using maintenance_store [OF assms(2,3), of S m mb files] by (simp add: load_mailbox_store)
next
  case False
  let ?snap = "st_snapshot S (last (saved_boxes S turns mb))"
  obtain bs where bs: "st_to_vec S ?snap = Some bs" using saved_boxes_encoded [OF last_in_set [OF False]] by auto
  with assms(1) have "st_from_slice S bs = Some ?snap" by (simp add: store_ok_def)
  then show ?thesis using False bs maintenance_store [OF assms(2,3), of S m mb files] by (auto simp: load_mailbox_store)
qed

text \<open>A store for the examples, a turn in which a message arrives, and one whose save is cut off after a byte.\<close>

definition toy_store :: "(bytes, bytes) store_api" where
  "toy_store =
     \<lparr>st_with_defaults = [], st_from_snapshot = (\<lambda>s now. s), st_snapshot = (\<lambda>mb. mb),
      st_from_slice = (\<lambda>bs. case bs of [] \<Rightarrow> None | b # s \<Rightarrow> if b = 9 then Some s else None), st_to_vec = (\<lambda>s. Some (9 # s)),
      st_prune_expired = (\<lambda>mb now. mb)\<rparr>"

definition toy_turns :: "bytes mailbox_turn list" where
  "toy_turns =
     (let mt = \<lparr>mt_requests = (\<lambda>mb. 5 # mb), mt_files = (\<lambda>f. f), mt_now = 3, mt_fate = Store_ok, mt_between = (\<lambda>f. f)\<rparr> in
      [mt, mt\<lparr>mt_fate := Store_write_fails 1 Io_NotFound\<rparr>])"

definition toy_path :: path where
  "toy_path = \<lparr>pdir = ''/'', pstem = ''box'', pext = Some ''bin''\<rparr>"

theorem mailbox_store_recovers_witness:
  "load_mailbox toy_store 4 (Some toy_path)
     (snd (spawn_mailbox_maintenance toy_store 420 (Some toy_path) toy_turns [1] (\<lambda>_. None))) = [5, 1]"
proof -
  have "saved_boxes toy_store toy_turns [1] = [[5, 1]]" by (simp add: toy_turns_def toy_store_def)
  moreover have "store_ok toy_store" by (auto simp: store_ok_def toy_store_def)
  ultimately show ?thesis
    using mailbox_store_recovers [of toy_store toy_path toy_turns 4 420 "[1]" "\<lambda>_. None"]
    by (simp add: toy_path_def toy_turns_def turn_spares_def spares_def Let_def) (simp add: toy_store_def)
qed

text \<open>
  Two stores whose paths differ only in the extension share one temporary file. When the replay cache is saved between
  the write and the rename of a mailbox save, the mailbox save reports success and the store holds the replay cache.
\<close>

theorem stores_share_tmp:
  assumes "with_extension ''tmp'' p = with_extension ''tmp'' q" "st_to_vec S snap \<noteq> None"
  shows "fst (persist_mailbox S m Store_ok (\<lambda>f. snd (write_encoded (Rename_fails e) buf q f)) p snap files) = Inr () \<and>
    snd (persist_mailbox S m Store_ok (\<lambda>f. snd (write_encoded (Rename_fails e) buf q f)) p snap files) p = Some (buf, owner_only)"
  using assms by (auto simp: persist_mailbox_def rename_file_def write_encoded_def Let_def)

end
