(* ===== verification/Self_Check.thy ===== *)
theory Self_Check
  imports Enroll
begin

section \<open>Is the relay used?\<close>

text \<open>
  The diagnosis commands of \<^verbatim>\<open>crypto-gotham-relay/src/main.rs\<close>: \<^verbatim>\<open>ask_authority\<close> and \<^verbatim>\<open>run_doctor\<close>, which ask the
  directory authorities once, and \<^verbatim>\<open>watch_own_listing\<close>, which asks them every five minutes and reports a change. The
  JSON parser is another crate and is the argument \<open>from_str\<close>; what an HTTP request gives is an argument; the texts
  printed are not modelled, the verdict and the exit code are.
\<close>

text \<open>Numbers are kept as their text: no code looks at one.\<close>

datatype json = JNull | JBool bool | JNumber string | JString string | JArray "json list" | JObject "(string \<times> json) list"

definition get :: "string \<Rightarrow> json \<Rightarrow> json option" where
  "get k v = (case v of JObject members \<Rightarrow> map_of members k | _ \<Rightarrow> None)"

definition as_str :: "json \<Rightarrow> string option" where
  "as_str v = (case v of JString s \<Rightarrow> Some s | _ \<Rightarrow> None)"

definition as_bool :: "json \<Rightarrow> bool option" where
  "as_bool v = (case v of JBool b \<Rightarrow> Some b | _ \<Rightarrow> None)"

definition as_array :: "json \<Rightarrow> json list option" where
  "as_array v = (case v of JArray vs \<Rightarrow> Some vs | _ \<Rightarrow> None)"

definition get_str :: "string \<Rightarrow> json \<Rightarrow> string option" where
  "get_str k v = Option.bind (get k v) as_str"

definition DEFAULT_AUTHORITIES :: "string list" where
  "DEFAULT_AUTHORITIES = [''http://144.24.205.188:8443'', ''http://84.235.232.196:8443'', ''http://84.235.228.107:8443'']"

subsection \<open>One authority\<close>

record authority_view =
  av_url :: string
  av_reachable :: bool
  av_listed :: bool
  av_tier :: "string option"
  av_operator :: "string option"
  av_addr :: "string option"
  av_rendezvous_capable :: bool

definition listed_relays :: "json \<Rightarrow> json list" where
  "listed_relays doc =
     (case Option.bind (Option.bind (get ''doc'' doc) (get ''relays'')) as_array of None \<Rightarrow> [] | Some rs \<Rightarrow> rs)"

definition is_entry :: "string \<Rightarrow> json \<Rightarrow> bool" where
  "is_entry pk_hex r = (get_str ''id_pubkey_hex'' r = Some pk_hex)"

fun note_entry :: "string \<Rightarrow> json list \<Rightarrow> authority_view \<Rightarrow> authority_view" where
  "note_entry pk_hex [] view = view"
| "note_entry pk_hex (r # relays) view =
     (if is_entry pk_hex r then
        view\<lparr>av_listed := True, av_tier := get_str ''tier'' r, av_operator := get_str ''operator'' r, av_addr := get_str ''addr'' r,
          av_rendezvous_capable := (case Option.bind (get ''rendezvous_capable'' r) as_bool of None \<Rightarrow> False | Some b \<Rightarrow> b)\<rparr>
      else note_entry pk_hex relays view)"

text \<open>\<open>client\<close> says whether the HTTP client could be built. The status of the response is not looked at.\<close>

definition ask_authority :: "(string \<Rightarrow> json option) \<Rightarrow> bool \<Rightarrow> (string \<Rightarrow> http_get) \<Rightarrow> string \<Rightarrow> string \<Rightarrow> authority_view" where
  "ask_authority from_str client http url pk_hex =
     (let view = \<lparr>av_url = url, av_reachable = False, av_listed = False, av_tier = None, av_operator = None,
        av_addr = None, av_rendezvous_capable = False\<rparr> in
      if \<not> client then view
      else
        (case http (url @ ''/directory'') of
           GetFailed \<Rightarrow> view
         | GetOk _ None \<Rightarrow> view
         | GetOk _ (Some body) \<Rightarrow>
             let view1 = view\<lparr>av_reachable := True\<rparr> in
             (case from_str body of
                None \<Rightarrow> view1
              | Some doc \<Rightarrow> note_entry pk_hex (listed_relays doc) view1)))"

subsection \<open>The doctor\<close>

datatype verdict = Not_used nat | Never_chosen | Works

text \<open>\<open>None\<close> is the panic of \<^verbatim>\<open>listed[0]\<close> on an empty list.\<close>

definition run_doctor :: "(string \<Rightarrow> json option) \<Rightarrow> bool \<Rightarrow> (string \<Rightarrow> http_get) \<Rightarrow> string \<Rightarrow> string list \<Rightarrow> nat
    \<Rightarrow> (verdict \<times> int) option" where
  "run_doctor from_str client http pk_hex authorities quorum =
     (let views = map (\<lambda>url. ask_authority from_str client http url pk_hex) authorities;
          listed = filter av_listed views;
          n = length listed in
      if n < quorum then Some (Not_used n, 1)
      else
        (case listed of
           [] \<Rightarrow> None
         | sample # _ \<Rightarrow> if av_operator sample = None then Some (Never_chosen, 1) else Some (Works, 0)))"

definition doctor_authorities :: "string list \<Rightarrow> string list" where
  "doctor_authorities authority_url = (if authority_url = [] then DEFAULT_AUTHORITIES else authority_url)"

subsection \<open>The watch\<close>

definition WATCH_QUORUM :: nat where
  "WATCH_QUORUM = 2"

text \<open>What one authority adds to \<^verbatim>\<open>asked\<close> and \<^verbatim>\<open>seen\<close>.\<close>

fun count_answers :: "string \<Rightarrow> (string \<Rightarrow> http_get) \<Rightarrow> string list \<Rightarrow> nat \<times> nat \<Rightarrow> nat \<times> nat" where
  "count_answers pk_hex http [] (asked, seen) = (asked, seen)"
| "count_answers pk_hex http (url # urls) (asked, seen) =
     (case http (url @ ''/directory'') of
        GetFailed \<Rightarrow> count_answers pk_hex http urls (asked, seen)
      | GetOk _ None \<Rightarrow> count_answers pk_hex http urls (Suc asked, seen)
      | GetOk _ (Some body) \<Rightarrow>
          count_answers pk_hex http urls (Suc asked, if contains pk_hex body then Suc seen else seen))"

text \<open>One round: the report it makes, if any (whether the relay is listed), and the new state.\<close>

definition watch_round :: "string \<Rightarrow> string list \<Rightarrow> (string \<Rightarrow> http_get) \<Rightarrow> bool option \<Rightarrow> bool option \<times> bool option" where
  "watch_round pk_hex urls http was_listed =
     (case count_answers pk_hex http urls (0, 0) of
        (asked, seen) \<Rightarrow>
          if asked = 0 then (None, was_listed)
          else
            let listed = (WATCH_QUORUM \<le> seen) in
            if was_listed = Some listed then (None, was_listed)
            else (Some listed, Some listed))"

fun watch_loop :: "string \<Rightarrow> string list \<Rightarrow> (string \<Rightarrow> http_get) list \<Rightarrow> bool option \<Rightarrow> bool list \<times> bool option" where
  "watch_loop pk_hex urls [] was_listed = ([], was_listed)"
| "watch_loop pk_hex urls (http # rounds) was_listed =
     (case watch_round pk_hex urls http was_listed of
        (report, now_listed) \<Rightarrow>
          (case watch_loop pk_hex urls rounds now_listed of
             (reports, final) \<Rightarrow> ((case report of None \<Rightarrow> reports | Some b \<Rightarrow> b # reports), final)))"

definition watch_own_listing :: "bool \<Rightarrow> string \<Rightarrow> string list \<Rightarrow> (string \<Rightarrow> http_get) list \<Rightarrow> bool list" where
  "watch_own_listing client pk_hex urls rounds = (if \<not> client then [] else fst (watch_loop pk_hex urls rounds None))"

subsection \<open>What the doctor's verdict means\<close>

text \<open>An authority lists the relay: its directory could be read and has an entry with the relay's key.\<close>

definition directory_of :: "(string \<Rightarrow> json option) \<Rightarrow> (string \<Rightarrow> http_get) \<Rightarrow> string \<Rightarrow> json option" where
  "directory_of from_str http url =
     (case http (url @ ''/directory'') of GetOk _ (Some body) \<Rightarrow> from_str body | _ \<Rightarrow> None)"

definition entries_for :: "(string \<Rightarrow> json option) \<Rightarrow> (string \<Rightarrow> http_get) \<Rightarrow> string \<Rightarrow> string \<Rightarrow> json list" where
  "entries_for from_str http pk_hex url =
     (case directory_of from_str http url of
        None \<Rightarrow> []
      | Some doc \<Rightarrow> filter (is_entry pk_hex) (listed_relays doc))"

lemma note_entry_first:
  "av_listed (note_entry pk_hex rs v) = (av_listed v \<or> filter (is_entry pk_hex) rs \<noteq> [])"
  "av_operator (note_entry pk_hex rs v) =
     (case filter (is_entry pk_hex) rs of [] \<Rightarrow> av_operator v | r # _ \<Rightarrow> get_str ''operator'' r)"
  by (induction rs) auto

lemma ask_authority_entry:
  "av_listed (ask_authority from_str True http url pk_hex) \<longleftrightarrow> entries_for from_str http pk_hex url \<noteq> []"
  "entries_for from_str http pk_hex url = r # rs \<Longrightarrow>
   av_operator (ask_authority from_str True http url pk_hex) = get_str ''operator'' r"
  by (auto simp: ask_authority_def entries_for_def directory_of_def note_entry_first Let_def
      split: http_get.splits option.splits)

definition listing :: "(string \<Rightarrow> json option) \<Rightarrow> (string \<Rightarrow> http_get) \<Rightarrow> string \<Rightarrow> string list \<Rightarrow> string list" where
  "listing from_str http pk_hex authorities = filter (\<lambda>url. entries_for from_str http pk_hex url \<noteq> []) authorities"

lemma filter_map_views:
  "filter av_listed (map (\<lambda>url. ask_authority from_str True http url pk_hex) authorities) =
   map (\<lambda>url. ask_authority from_str True http url pk_hex) (listing from_str http pk_hex authorities)"
  by (simp add: filter_map o_def ask_authority_entry listing_def)

text \<open>The doctor's verdict is sound and complete: it exits with 0 exactly when at least a quorum of authorities list
  the relay's key and the first entry of the first of them names an operator; otherwise it exits with 1, saying how
  many list it when they are too few. It fails to answer only for a quorum of 0 that no authority supports.\<close>

theorem doctor_verdict:
  "run_doctor from_str True http pk_hex authorities quorum =
    (case listing from_str http pk_hex authorities of
       [] \<Rightarrow> if quorum = 0 then None else Some (Not_used 0, 1)
     | url # urls \<Rightarrow>
         if Suc (length urls) < quorum then Some (Not_used (Suc (length urls)), 1)
         else if get_str ''operator'' (hd (entries_for from_str http pk_hex url)) = None then Some (Never_chosen, 1)
         else Some (Works, 0))"
proof (cases "listing from_str http pk_hex authorities")
  case Nil
  then show ?thesis by (simp add: run_doctor_def Let_def filter_map_views)
next
  case (Cons url urls)
  then have "entries_for from_str http pk_hex url \<noteq> []" unfolding listing_def by (metis (mono_tags) filter_eq_ConsD)
  then obtain r rs where r: "entries_for from_str http pk_hex url = r # rs" by (cases "entries_for from_str http pk_hex url") auto
  from ask_authority_entry(2) [OF r] show ?thesis using Cons r by (simp add: run_doctor_def Let_def filter_map_views)
qed

subsection \<open>What the watch reports\<close>

text \<open>The specification: a round answers when some authority does, and lists the relay when two bodies contain its key.\<close>

definition answers :: "string list \<Rightarrow> (string \<Rightarrow> http_get) \<Rightarrow> bool" where
  "answers urls http = list_ex (\<lambda>url. http (url @ ''/directory'') \<noteq> GetFailed) urls"

definition names_key :: "string \<Rightarrow> http_get \<Rightarrow> bool" where
  "names_key pk_hex r = (case r of GetOk _ (Some body) \<Rightarrow> contains pk_hex body | _ \<Rightarrow> False)"

definition lists_key :: "string \<Rightarrow> string list \<Rightarrow> (string \<Rightarrow> http_get) \<Rightarrow> bool" where
  "lists_key pk_hex urls http = (WATCH_QUORUM \<le> length (filter (\<lambda>url. names_key pk_hex (http (url @ ''/directory''))) urls))"

lemma count_answers_spec:
  "count_answers pk_hex http urls (a, s) =
     (a + length (filter (\<lambda>url. http (url @ ''/directory'') \<noteq> GetFailed) urls),
      s + length (filter (\<lambda>url. names_key pk_hex (http (url @ ''/directory''))) urls))"
  by (induction urls arbitrary: a s) (auto simp: names_key_def split: http_get.splits option.splits)

lemma watch_round_spec:
  "watch_round pk_hex urls http was =
     (if \<not> answers urls http \<or> was = Some (lists_key pk_hex urls http) then (None, was)
      else (Some (lists_key pk_hex urls http), Some (lists_key pk_hex urls http)))"
  by (auto simp: watch_round_def count_answers_spec answers_def lists_key_def Let_def list_ex_iff filter_empty_conv)

lemma remdups_adj_skip: "remdups_adj (x # x # xs) = remdups_adj (x # xs)"
  by simp

lemma watch_loop_spec:
  "(case was of None \<Rightarrow> [] | Some b \<Rightarrow> [b]) @ fst (watch_loop pk_hex urls rounds was) =
   remdups_adj ((case was of None \<Rightarrow> [] | Some b \<Rightarrow> [b]) @ map (lists_key pk_hex urls) (filter (answers urls) rounds))"
proof (induction rounds arbitrary: was)
  case (Cons http rounds)
  let ?b = "lists_key pk_hex urls http"
  show ?case
  proof (cases "\<not> answers urls http")
    case True
    then show ?thesis using Cons.IH [of was] by (simp add: watch_round_spec split: prod.splits)
  next
    case answered: False
    show ?thesis
      using Cons.IH [of "Some ?b"] answered
      by (cases was) (auto simp: watch_round_spec split: prod.splits)
  qed
qed (simp split: option.split)

text \<open>C40. The watch reports every change once and nothing else: over any sequence of rounds, its reports are the answers of
  the rounds in which some authority could be reached, with repetitions of the last answer left out. So a relay that
  falls out of the directories is reported in the first round that shows it, and an outage of every authority is not
  mistaken for it.\<close>

theorem watch_reports_changes:
  "watch_own_listing True pk_hex urls rounds = remdups_adj (map (lists_key pk_hex urls) (filter (answers urls) rounds))"
  using watch_loop_spec [of None pk_hex urls rounds] by (simp add: watch_own_listing_def)

text \<open>With fewer than two authorities the watch can only ever report that the relay is not used.\<close>

theorem watch_single_authority:
  assumes "length urls < 2"
  shows "set (watch_own_listing True pk_hex urls rounds) \<subseteq> {False}"
proof -
  have "\<not> lists_key pk_hex urls http" for http
    using le_less_trans [OF length_filter_le assms] by (simp add: lists_key_def WATCH_QUORUM_def not_le)
  then show ?thesis
    using watch_loop_spec [of None pk_hex urls rounds] by (auto simp: watch_own_listing_def)
qed

end
