(* ===== verification/Command_Line.thy ===== *)
theory Command_Line
  imports Listener Stores Self_Check
begin

section \<open>The command line\<close>

text \<open>
  The commands of \<^verbatim>\<open>crypto-gotham-relay/src/main.rs\<close> that put the parts together: \<^verbatim>\<open>run\<close> with its gossip
  configuration, \<^verbatim>\<open>doctor\<close> and \<^verbatim>\<open>sign-directory\<close>. The argument parser is another crate: a command's
  arguments are a record. JSON, signatures, directories, the gossip node and UPnP are arguments of the definitions.
\<close>

subsection \<open>Failing early\<close>

text \<open>The operator \<^verbatim>\<open>?\<close>, and \<^verbatim>\<open>ok_or_else\<close>.\<close>

definition and_then :: "'e + 'a \<Rightarrow> ('a \<Rightarrow> 'e + 'b) \<Rightarrow> 'e + 'b" where
  "and_then r f = (case r of Inl e \<Rightarrow> Inl e | Inr x \<Rightarrow> f x)"

definition ok_or :: "'e \<Rightarrow> 'a option \<Rightarrow> 'e + 'a" where
  "ok_or e x = (case x of None \<Rightarrow> Inl e | Some a \<Rightarrow> Inr a)"

lemma and_then_Inr [simp]: "and_then r f = Inr y \<longleftrightarrow> (\<exists>x. r = Inr x \<and> f x = Inr y)"
  by (cases r) (simp_all add: and_then_def)

lemma ok_or_Inr [simp]: "ok_or e x = Inr y \<longleftrightarrow> x = Some y"
  by (cases x) (simp_all add: ok_or_def)

definition io_err :: "string \<Rightarrow> io_error" where
  "io_err msg = Io_InvalidInput msg"

definition read_file :: "path \<Rightarrow> fs \<Rightarrow> io_error + bytes" where
  "read_file p files = ok_or Io_NotFound (map_option fst (files p))"

subsection \<open>Gossip\<close>

datatype capabilities = Entry_only | Mix_only | Exit_only | All_tiers

definition gossip_capabilities :: "string \<Rightarrow> io_error + capabilities" where
  "gossip_capabilities s =
     (if s = ''entry'' then Inr Entry_only
      else if s = ''mix'' then Inr Mix_only
      else if s = ''exit'' then Inr Exit_only
      else if s = ''all'' then Inr All_tiers
      else Inl (io_err (''unknown --gossip-caps `'' @ s @ ''` (entry|mix|exit|all)'')))"

definition parse_seed :: "hex_codec \<Rightarrow> string \<Rightarrow> io_error + (socket_addr \<times> bytes)" where
  "parse_seed X s =
     and_then (ok_or (io_err (''--gossip-seed `'' @ s @ ''` must be ip:port@<kem-hex>'')) (split_once (CHR ''@'') s)) (\<lambda>(addr_s, kem_s).
     and_then (ok_or (io_err (''bad --gossip-seed addr `'' @ addr_s @ ''`'')) (parse_socket_addr addr_s)) (\<lambda>addr.
     and_then (ok_or (io_err ''--gossip-seed kem is not hex'') (hx_decode X kem_s)) (\<lambda>kem.
       if length kem \<noteq> 32 then Inl (io_err ''--gossip-seed kem must be 32 bytes'') else Inr (addr, kem))))"

fun parse_seeds :: "hex_codec \<Rightarrow> string list \<Rightarrow> io_error + (socket_addr \<times> bytes) list" where
  "parse_seeds X [] = Inr []"
| "parse_seeds X (s # seeds) =
     and_then (parse_seed X s) (\<lambda>b. and_then (parse_seeds X seeds) (\<lambda>bs. Inr (b # bs)))"

record 'cert gossip_config =
  go_identity :: bytes
  go_kem_pubkey_hex :: string
  go_advertise_addr :: string
  go_capabilities :: capabilities
  go_admission :: 'cert
  go_noise_sk :: bytes
  go_bootstrap :: "(socket_addr \<times> bytes) list"

text \<open>The gossip module: the JSON of the two documents, and the node, which gives a service and runs its own loop.\<close>

record ('cert, 'set, 'r) gossip_api =
  ga_authority_set :: "bytes \<Rightarrow> 'set option"
  ga_admission_cert :: "bytes \<Rightarrow> 'cert option"
  ga_node_new :: "'cert gossip_config \<Rightarrow> 'set \<Rightarrow> string + 'r"

definition node_error :: "string + 'a \<Rightarrow> io_error + 'a" where
  "node_error r = (case r of Inl e \<Rightarrow> Inl (io_err (''gossip node: '' @ e)) | Inr x \<Rightarrow> Inr x)"

lemma node_error_Inr [simp]: "node_error r = Inr x \<longleftrightarrow> r = Inr x"
  by (cases r) (simp_all add: node_error_def)

text \<open>The result: the service and the period of the gossip loop.\<close>

definition build_gossip :: "hex_codec \<Rightarrow> ('cert, 'set, 'r) gossip_api \<Rightarrow> fs \<Rightarrow> bool \<Rightarrow> bytes \<Rightarrow> string \<Rightarrow> string option
    \<Rightarrow> path option \<Rightarrow> path option \<Rightarrow> path option \<Rightarrow> string list \<Rightarrow> string \<Rightarrow> u64 \<Rightarrow> io_error + ('r \<times> duration) option" where
  "build_gossip X A files enabled x25519_sk kem_pubkey_hex advertise_addr advert_key admission_cert authority_set gossip_seeds
     gossip_caps interval_secs =
     (if \<not> enabled then Inr None
      else
        and_then (ok_or (io_err ''--advertise-addr is required with --gossip'') advertise_addr) (\<lambda>advertise.
        and_then (ok_or (io_err ''--advert-key is required with --gossip'') advert_key) (\<lambda>advert_key.
        and_then (ok_or (io_err ''--admission-cert is required with --gossip'') admission_cert) (\<lambda>cert_path.
        and_then (ok_or (io_err ''--authority-set is required with --gossip'') authority_set) (\<lambda>set_path.
        and_then (read_ed25519_seed X advert_key files) (\<lambda>identity.
        and_then (read_file set_path files) (\<lambda>set_bytes.
        and_then (ok_or (io_err ''authority-set JSON'') (ga_authority_set A set_bytes)) (\<lambda>auth_set.
        and_then (read_file cert_path files) (\<lambda>cert_bytes.
        and_then (ok_or (io_err ''admission-cert JSON'') (ga_admission_cert A cert_bytes)) (\<lambda>admission.
        and_then (gossip_capabilities gossip_caps) (\<lambda>capabilities.
        and_then (parse_seeds X gossip_seeds) (\<lambda>bootstrap.
        and_then
          (node_error (ga_node_new A
             \<lparr>go_identity = identity, go_kem_pubkey_hex = kem_pubkey_hex, go_advertise_addr = advertise,
              go_capabilities = capabilities, go_admission = admission, go_noise_sk = x25519_sk, go_bootstrap = bootstrap\<rparr>
             auth_set)) (\<lambda>service.
        Inr (Some (service, from_secs (max (unat interval_secs) 5))))))))))))))))"

subsection \<open>Signing a directory\<close>

record relay_json_entry =
  je_node_id_hex :: string
  je_addr :: string
  je_capabilities :: string
  je_country :: "string option"
  je_asn :: "u32 option"
  je_operator :: "string option"
  je_mailbox :: bool

record directory_descriptor =
  de_id_pubkey_hex :: string
  de_kem_pubkey_hex :: string
  de_addr :: string
  de_tier :: relay_tier
  de_country :: "string option"
  de_asn :: "u32 option"
  de_operator :: "string option"
  de_uptime_pct :: "f64 option"
  de_mailbox :: bool
  de_rendezvous :: "string option"
  de_rendezvous_capable :: bool

definition entry_tier :: "nat \<Rightarrow> string \<Rightarrow> io_error + relay_tier" where
  "entry_tier i caps =
     (if caps = ''entry'' then Inr Entry
      else if caps = ''mix'' then Inr Mix
      else if caps = ''exit'' then Inr Exit
      else if caps = ''all'' \<or> caps = [] then
        Inr (if i mod 3 = 0 then Entry else if i mod 3 = 1 then Mix else Exit)
      else Inl (Io_InvalidData (''unknown capability `'' @ caps @ ''`, use entry|mix|exit|all'')))"

definition descriptor :: "relay_json_entry \<Rightarrow> relay_tier \<Rightarrow> directory_descriptor" where
  "descriptor e tier =
     \<lparr>de_id_pubkey_hex = je_node_id_hex e, de_kem_pubkey_hex = je_node_id_hex e, de_addr = je_addr e, de_tier = tier,
      de_country = je_country e, de_asn = je_asn e, de_operator = je_operator e, de_uptime_pct = Some (Fin 100),
      de_mailbox = je_mailbox e, de_rendezvous = None, de_rendezvous_capable = False\<rparr>"

fun descriptors :: "nat \<Rightarrow> relay_json_entry list \<Rightarrow> io_error + directory_descriptor list" where
  "descriptors i [] = Inr []"
| "descriptors i (e # entries) =
     and_then (entry_tier i (je_capabilities e)) (\<lambda>tier.
     and_then (descriptors (Suc i) entries) (\<lambda>ds. Inr (descriptor e tier # ds)))"

text \<open>The directory crate and JSON; \<open>None\<close> and \<open>Inl\<close> are their errors.\<close>

record ('doc, 'signed) directory_api =
  di_entries :: "string \<Rightarrow> relay_json_entry list option"
  di_doc_new :: "directory_descriptor list \<Rightarrow> duration \<Rightarrow> string + 'doc"
  di_sign :: "'doc \<Rightarrow> bytes \<Rightarrow> string + 'signed"
  di_to_json :: "'signed \<Rightarrow> string + bytes"

definition other_error :: "string + 'a \<Rightarrow> io_error + 'a" where
  "other_error r = (case r of Inl e \<Rightarrow> Inl (Io_Other e) | Inr x \<Rightarrow> Inr x)"

lemma other_error_Inr [simp]: "other_error r = Inr x \<longleftrightarrow> r = Inr x"
  by (cases r) (simp_all add: other_error_def)

definition signed_directory :: "hex_codec \<Rightarrow> ('doc, 'signed) directory_api \<Rightarrow> path \<Rightarrow> path \<Rightarrow> u64 \<Rightarrow> fs \<Rightarrow> io_error + bytes" where
  "signed_directory X D authority_key relays valid_secs files =
     and_then (read_ed25519_seed X authority_key files) (\<lambda>signing_key.
     and_then (read_to_string relays files) (\<lambda>raw.
     and_then (ok_or (Io_InvalidData ''relays JSON'') (di_entries D raw)) (\<lambda>entries.
     if length entries < 3 then Inl (Io_InvalidData ''need at least 3 relays for a working mixnet'')
     else
       and_then (descriptors 0 entries) (\<lambda>ds.
       and_then (other_error (di_doc_new D ds (from_secs (unat valid_secs)))) (\<lambda>doc.
       and_then (other_error (di_sign D doc signing_key)) (\<lambda>signed.
       other_error (di_to_json D signed)))))))"

definition sign_directory :: "hex_codec \<Rightarrow> ('doc, 'signed) directory_api \<Rightarrow> nat \<Rightarrow> file_fate \<Rightarrow> path \<Rightarrow> path \<Rightarrow> path \<Rightarrow> u64 \<Rightarrow> fs
    \<Rightarrow> (io_error + unit) \<times> fs" where
  "sign_directory X D default_mode fate authority_key relays output valid_secs files =
     (case signed_directory X D authority_key relays valid_secs files of
        Inl e \<Rightarrow> (Inl e, files)
      | Inr json \<Rightarrow>
          (let m = mode_for default_mode output files in
           case fate of
             File_open_fails e \<Rightarrow> (Inl e, files)
           | File_write_fails n e \<Rightarrow> (Inl e, files(output \<mapsto> (take n json, m)))
           | File_ok \<Rightarrow> (Inr (), files(output \<mapsto> (json, m)))))"

subsection \<open>The doctor\<close>

definition doctor :: "hex_codec \<Rightarrow> (bytes \<Rightarrow> bytes) \<Rightarrow> (string \<Rightarrow> json option) \<Rightarrow> bool \<Rightarrow> (string \<Rightarrow> http_get) \<Rightarrow> path \<Rightarrow> string list
    \<Rightarrow> nat \<Rightarrow> fs \<Rightarrow> io_error + (verdict \<times> int) option" where
  "doctor X public_of from_str client http key_file authority_url quorum files =
     and_then (read_key_file X key_file files) (\<lambda>sk.
     Inr (run_doctor from_str client http (hx_encode X (public_of sk)) (doctor_authorities authority_url) quorum))"

subsection \<open>The relay daemon\<close>

record run_args =
  ra_key_file :: path
  ra_listen_port :: u16
  ra_listen_host :: string
  ra_delay_micros :: u64
  ra_replay_size :: nat
  ra_replay_ttl_secs :: u64
  ra_replay_cache_path :: "path option"
  ra_strict_header_v3 :: bool
  ra_max_pps :: f64
  ra_max_bytes_per_day :: u64
  ra_authority_url :: "string option"
  ra_extra_authority_url :: "string list"
  ra_advertise_addr :: "string option"
  ra_no_upnp :: bool
  ra_rendezvous_key :: "string option"
  ra_rendezvous_addr :: "string option"
  ra_rendezvous_capable :: bool
  ra_authority_pop_key :: "string option"
  ra_enroll_token :: "string option"
  ra_tier :: string
  ra_country :: "string option"
  ra_operator :: "string option"
  ra_heartbeat_secs :: u64
  ra_mailbox :: bool
  ra_mailbox_store :: "path option"
  ra_allow_unauthenticated_mailbox_fetch :: bool
  ra_gossip :: bool
  ra_advert_key :: "path option"
  ra_admission_cert :: "path option"
  ra_authority_set :: "path option"
  ra_gossip_seeds :: "string list"
  ra_gossip_caps :: string
  ra_gossip_interval_secs :: u64

text \<open>The clock readings while the relay starts: for its limiter, the reset limiter, and the loading of the two stores.\<close>

record boot =
  bo_rate :: "instant \<times> instant"
  bo_limit :: "instant \<times> instant"
  bo_lowest :: instant
  bo_now :: instant
  bo_unix :: u64

definition configure_relay :: "run_args \<Rightarrow> boot \<Rightarrow> bytes \<Rightarrow> fs \<Rightarrow> relay" where
  "configure_relay a bo sk files =
     (let r0 = with_rate_limit (ra_max_pps a) (ra_max_bytes_per_day a) (fst (bo_limit bo)) (snd (bo_limit bo))
            (relay_new sk (ra_replay_size a) (from_secs (unat (ra_replay_ttl_secs a))) (ra_delay_micros a)
              (fst (bo_rate bo)) (snd (bo_rate bo)));
          r1 = (if ra_strict_header_v3 a then strict_header_v3 r0 else r0) in
      case ra_replay_cache_path a of
        Some p \<Rightarrow> with_replay_persistence (bo_lowest bo) (read_file p files) (bo_now bo) (bo_unix bo) p r1
      | None \<Rightarrow> r1)"

definition authority_pop_pk :: "hex_codec \<Rightarrow> run_args \<Rightarrow> bytes option" where
  "authority_pop_pk X a = Option.bind (ra_authority_pop_key a) (decode_key (hx_decode X))"

text \<open>
  The address to announce. \<open>upnp\<close> is \<^verbatim>\<open>nat::upnp_autoconfigure\<close>: an error text, or the external address as text.
\<close>

definition UPNP_LEASE_SECS :: u32 where
  "UPNP_LEASE_SECS = 3600"

definition advertise :: "(u16 \<Rightarrow> u32 \<Rightarrow> string + string) \<Rightarrow> run_args \<Rightarrow> io_error + string" where
  "advertise upnp a =
     (if ra_rendezvous_key a \<noteq> None then Inr []
      else
        (case ra_advertise_addr a of
           Some addr \<Rightarrow>
             if parse_socket_addr addr = None
             then Inl (Io_InvalidInput (''--advertise-addr must be ip:port, got `'' @ addr @ ''`'')) else Inr addr
         | None \<Rightarrow>
             if \<not> ra_no_upnp a then other_error (upnp (ra_listen_port a) UPNP_LEASE_SECS)
             else Inl (Io_InvalidInput ''--advertise-addr is required with --authority-url (UPnP disabled via --no-upnp)'')))"

definition enrollment_of :: "hex_codec \<Rightarrow> (u16 \<Rightarrow> u32 \<Rightarrow> string + string) \<Rightarrow> run_args \<Rightarrow> bytes \<Rightarrow> string \<Rightarrow> io_error + enroll_config option" where
  "enrollment_of X upnp a sk pk_hex =
     (case ra_authority_url a of
        None \<Rightarrow> Inr None
      | Some url \<Rightarrow>
          and_then (advertise upnp a) (\<lambda>addr.
          and_then (other_error (parse_tier (ra_tier a))) (\<lambda>tier.
          Inr (Some
            \<lparr>ec_authority_url = url, ec_extra_authority_urls = ra_extra_authority_url a, ec_advertise_addr = addr,
             ec_kem_pubkey_hex = pk_hex, ec_tier = tier, ec_token = ra_enroll_token a, ec_country = ra_country a,
             ec_operator = ra_operator a, ec_heartbeat = from_secs (max (unat (ra_heartbeat_secs a)) 1),
             ec_rendezvous = ra_rendezvous_key a, ec_rendezvous_capable = ra_rendezvous_capable a, ec_mailbox = ra_mailbox a,
             ec_relay_sk = sk, ec_authority_pop_pk = authority_pop_pk X a\<rparr>))))"

definition watch_urls :: "enroll_config \<Rightarrow> string list" where
  "watch_urls cfg = ec_authority_url cfg # ec_extra_authority_urls cfg"

definition rendezvous_dial :: "hex_codec \<Rightarrow> run_args \<Rightarrow> io_error + (socket_addr \<times> bytes) option" where
  "rendezvous_dial X a =
     (case (ra_rendezvous_key a, ra_rendezvous_addr a) of
        (Some k, Some addr) \<Rightarrow>
          and_then (ok_or (Io_InvalidInput ''--rendezvous-key must be 32-byte hex'') (decode_key (hx_decode X) k)) (\<lambda>r_pk.
          and_then (ok_or (Io_InvalidInput ''--rendezvous-addr must be ip:port'') (parse_socket_addr addr)) (\<lambda>r_addr.
          Inr (Some (r_addr, r_pk))))
      | (None, None) \<Rightarrow> Inr None
      | _ \<Rightarrow> Inl (Io_InvalidInput ''--rendezvous-key and --rendezvous-addr must be set together''))"

text \<open>
  Everything \<^verbatim>\<open>run\<close> sets up before it serves: the relay, the enrolment task and its watch, the mailbox, the gossip service,
  and where to listen or dial. \<open>delivery\<close> is what building the mailbox's reply endpoint gave.
\<close>

record ('m, 'r) run_plan =
  rp_sk :: bytes
  rp_relay :: relay
  rp_enroll :: "enroll_config option"
  rp_mailbox :: "'m option"
  rp_gossip :: "('r \<times> duration) option"
  rp_pop_pk :: "bytes option"
  rp_dial :: "(socket_addr \<times> bytes) option"
  rp_listen :: socket_addr
  rp_allow_unauth :: bool

definition run_setup :: "hex_codec \<Rightarrow> ('h, 'k) gotham \<Rightarrow> ('m, 's) store_api \<Rightarrow> ('cert, 'set, 'r) gossip_api \<Rightarrow> (u16 \<Rightarrow> u32 \<Rightarrow> string + string)
    \<Rightarrow> transport_error + unit \<Rightarrow> run_args \<Rightarrow> boot \<Rightarrow> fs \<Rightarrow> io_error + ('m, 'r) run_plan" where
  "run_setup X G S A upnp delivery a bo files =
     and_then (read_key_file X (ra_key_file a) files) (\<lambda>sk.
     let relay = configure_relay a bo sk files; pk_hex = hx_encode X (identity_public_key G relay) in
     and_then (enrollment_of X upnp a sk pk_hex) (\<lambda>enroll.
     let mailbox = (if ra_mailbox a then Some (load_mailbox S (bo_unix bo) (ra_mailbox_store a) files) else None) in
     and_then (build_gossip X A files (ra_gossip a) sk pk_hex (ra_advertise_addr a) (ra_advert_key a) (ra_admission_cert a)
       (ra_authority_set a) (ra_gossip_seeds a) (ra_gossip_caps a) (ra_gossip_interval_secs a)) (\<lambda>gossip.
     and_then (if \<not> ra_mailbox a then Inr () else case delivery of Inl e \<Rightarrow> Inl (Io_Other ''mailbox'') | Inr u \<Rightarrow> Inr ()) (\<lambda>_.
     and_then (rendezvous_dial X a) (\<lambda>dial.
     and_then (parse_listen_addr (ra_listen_host a) (ra_listen_port a)) (\<lambda>listen_addr.
     Inr \<lparr>rp_sk = sk, rp_relay = relay, rp_enroll = enroll, rp_mailbox = mailbox, rp_gossip = gossip,
          rp_pop_pk = authority_pop_pk X a, rp_dial = dial, rp_listen = listen_addr,
          rp_allow_unauth = (ra_mailbox a \<and> ra_allow_unauthenticated_mailbox_fetch a)\<rparr>))))))"

text \<open>The listener, for a relay that does not dial a rendezvous point.\<close>

definition start_listener :: "'g \<Rightarrow> 't \<Rightarrow> transport_error + unit \<Rightarrow> transport_error + unit \<Rightarrow> ('m, 'r) run_plan
    \<Rightarrow> ('m, 'r, 't, 'g) started option" where
  "start_listener rng tunnels server client plan =
     (case rp_dial plan of
        Some _ \<Rightarrow> None
      | None \<Rightarrow>
          Some (case run_relay_listener_with_services_shared rng tunnels server client (rp_sk plan) (rp_relay plan)
                  (rp_mailbox plan) (map_option fst (rp_gossip plan)) (rp_pop_pk plan) of
                  Inl e \<Rightarrow> Inl e
                | Inr (li, cf, w) \<Rightarrow> Inr (li, set_allow_unauthenticated_mailbox_fetch (rp_allow_unauth plan) cf, w)))"

text \<open>What is left to do when serving ends: save the mailbox, then the replay cache.\<close>

record exit_turn =
  ex_store :: store_fate
  ex_between :: "fs \<Rightarrow> fs"
  ex_write :: write_fate
  ex_now :: instant
  ex_unix :: u64

definition run_shutdown :: "('m, 's) store_api \<Rightarrow> nat \<Rightarrow> exit_turn \<Rightarrow> run_args \<Rightarrow> 'm option \<Rightarrow> relay \<Rightarrow> fs \<Rightarrow> fs" where
  "run_shutdown S default_mode ex a mailbox relay files =
     (let files1 =
        (case (mailbox, ra_mailbox_store a) of
           (Some mb, Some p) \<Rightarrow>
             snd (persist_mailbox S default_mode (ex_store ex) (ex_between ex) p (st_snapshot S mb) files)
         | _ \<Rightarrow> files) in
      snd (persist_replay (ex_write ex) (ex_now ex) (ex_unix ex) relay files1))"

text \<open>
  The whole command. \<open>serve\<close> is the time between: the listener or the tunnel, with the maintenance tasks, until one of them
  ends or a signal arrives; it gives the relay, the mailbox and the files at that time.
\<close>

definition run :: "hex_codec \<Rightarrow> ('h, 'k) gotham \<Rightarrow> ('m, 's) store_api \<Rightarrow> ('cert, 'set, 'r) gossip_api \<Rightarrow> (u16 \<Rightarrow> u32 \<Rightarrow> string + string)
    \<Rightarrow> transport_error + unit \<Rightarrow> nat \<Rightarrow> exit_turn \<Rightarrow> (('m, 'r) run_plan \<Rightarrow> fs \<Rightarrow> relay \<times> 'm option \<times> fs) \<Rightarrow> run_args \<Rightarrow> boot \<Rightarrow> fs
    \<Rightarrow> (io_error + unit) \<times> fs" where
  "run X G S A upnp delivery default_mode ex serve a bo files =
     (case run_setup X G S A upnp delivery a bo files of
        Inl e \<Rightarrow> (Inl e, files)
      | Inr plan \<Rightarrow>
          (case serve plan files of
             (relay, mailbox, files1) \<Rightarrow> (Inr (), run_shutdown S default_mode ex a mailbox relay files1)))"

subsection \<open>What a started relay is\<close>

lemma configure_relay_fields [simp]:
  "r_identity_sk (configure_relay a bo sk files) = sk"
  "r_replay_path (configure_relay a bo sk files) = ra_replay_cache_path a"
  "r_scheduler (configure_relay a bo sk files) = ps_new (ra_delay_micros a)"
  "r_accept_header_v2 (configure_relay a bo sk files) = (\<not> ra_strict_header_v3 a)"
  by (auto simp: configure_relay_def Let_def with_replay_persistence_def strict_header_v3_def with_rate_limit_def relay_new_def
      split: option.splits)

lemma run_setup_plan:
  assumes "run_setup X G S A upnp delivery a bo files = Inr plan"
  obtains sk where "read_key_file X (ra_key_file a) files = Inr sk" "rp_sk plan = sk"
    "rp_relay plan = configure_relay a bo sk files"
    "enrollment_of X upnp a sk (hx_encode X (public_key G sk)) = Inr (rp_enroll plan)"
    "rendezvous_dial X a = Inr (rp_dial plan)" "rp_pop_pk plan = authority_pop_pk X a"
    "rp_allow_unauth plan \<longleftrightarrow> ra_mailbox a \<and> ra_allow_unauthenticated_mailbox_fetch a"
    "rp_mailbox plan = (if ra_mailbox a then Some (load_mailbox S (bo_unix bo) (ra_mailbox_store a) files) else None)"
  using assms by (auto simp: run_setup_def Let_def identity_public_key_def)

lemma enrollment_of_Some:
  assumes "enrollment_of X upnp a sk pk = Inr (Some cfg)"
  shows "ec_relay_sk cfg = sk \<and> ec_kem_pubkey_hex cfg = pk \<and> ec_rendezvous cfg = ra_rendezvous_key a \<and>
    ec_authority_pop_pk cfg = authority_pop_pk X a \<and> nanos_per_sec \<le> ec_heartbeat cfg \<and>
    ra_authority_url a \<noteq> None \<and> advertise upnp a = Inr (ec_advertise_addr cfg)"
  using assms by (auto simp: enrollment_of_def from_secs_def split: option.splits)

lemma rendezvous_dial_key: "rendezvous_dial X a = Inr d \<Longrightarrow> d = None \<longleftrightarrow> ra_rendezvous_key a = None"
  by (auto simp: rendezvous_dial_def split: option.splits)

text \<open>What a started relay announces about itself.\<close>

definition announces :: "hex_codec \<Rightarrow> ('h, 'k) gotham \<Rightarrow> ('m, 'r) run_plan \<Rightarrow> enroll_config \<Rightarrow> bool" where
  "announces X G plan cfg \<longleftrightarrow>
     ec_relay_sk cfg = r_identity_sk (rp_relay plan) \<and>
     ec_kem_pubkey_hex cfg = hx_encode X (identity_public_key G (rp_relay plan)) \<and>
     nanos_per_sec \<le> ec_heartbeat cfg \<and>
     (if rp_dial plan = None then parse_socket_addr (ec_advertise_addr cfg) \<noteq> None
      else ec_advertise_addr cfg = [])"

text \<open>C36. A relay announces what it serves: when \<^verbatim>\<open>run\<close> starts, the key it enrols is the public key of the very
  secret its relay unwraps packets with; a directly reachable relay announces an address that parses, a relay behind a
  rendezvous point announces none and opens no listener; and its listener demands proofs of possession for mailbox
  fetches unless the operator hosts a mailbox and asked for the exception.\<close>

theorem run_announces:
  assumes plan: "run_setup X G S A upnp delivery a bo files = Inr plan"
    and upnp: "\<And>port lease addr. upnp port lease = Inr addr \<Longrightarrow> parse_socket_addr addr \<noteq> None"
  shows "(case rp_enroll plan of None \<Rightarrow> ra_authority_url a = None | Some cfg \<Rightarrow> announces X G plan cfg) \<and>
    (case start_listener rng tunnels server client plan of
       None \<Rightarrow> ra_rendezvous_key a \<noteq> None
     | Some (Inl e) \<Rightarrow> ra_rendezvous_key a = None
     | Some (Inr (li, cf, w)) \<Rightarrow>
         ra_rendezvous_key a = None \<and> cf_static_sk cf = r_identity_sk (sv_relay w) \<and>
         (allow_unauthenticated_mailbox_fetch cf \<longleftrightarrow> ra_mailbox a \<and> ra_allow_unauthenticated_mailbox_fetch a))"
proof -
  from run_setup_plan [OF plan] obtain sk where p: "rp_sk plan = sk" "rp_relay plan = configure_relay a bo sk files"
    "enrollment_of X upnp a sk (hx_encode X (public_key G sk)) = Inr (rp_enroll plan)"
    "rendezvous_dial X a = Inr (rp_dial plan)"
    "rp_allow_unauth plan \<longleftrightarrow> ra_mailbox a \<and> ra_allow_unauthenticated_mailbox_fetch a" by metis
  note dial = rendezvous_dial_key [OF p(4)]
  have "case rp_enroll plan of None \<Rightarrow> ra_authority_url a = None | Some cfg \<Rightarrow> announces X G plan cfg"
  proof (cases "rp_enroll plan")
    case None
    then show ?thesis using p(3) by (auto simp: enrollment_of_def split: option.splits)
  next
    case (Some cfg)
    note e = enrollment_of_Some [OF p(3) [unfolded Some]]
    then have adv: "advertise upnp a = Inr (ec_advertise_addr cfg)" by simp
    have "if ra_rendezvous_key a = None then parse_socket_addr (ec_advertise_addr cfg) \<noteq> None else ec_advertise_addr cfg = []"
      using adv upnp by (auto simp: advertise_def split: option.splits if_splits)
    with e dial p(2) show ?thesis by (simp add: Some announces_def identity_public_key_def del: not_None_eq)
  qed
  moreover have "case start_listener rng tunnels server client plan of
       None \<Rightarrow> ra_rendezvous_key a \<noteq> None
     | Some (Inl e) \<Rightarrow> ra_rendezvous_key a = None
     | Some (Inr (li, cf, w)) \<Rightarrow>
         ra_rendezvous_key a = None \<and> cf_static_sk cf = r_identity_sk (sv_relay w) \<and>
         (allow_unauthenticated_mailbox_fetch cf \<longleftrightarrow> ra_mailbox a \<and> ra_allow_unauthenticated_mailbox_fetch a)"
    using dial p
    by (cases server; cases client) (auto simp: start_listener_def run_relay_listener_with_services_shared_def
        serve_endpoint_with_services_shared_def set_allow_unauthenticated_mailbox_fetch_def
        allow_unauthenticated_mailbox_fetch_def split: option.splits)
  ultimately show ?thesis ..
qed

text \<open>A relay with a fresh key file and one authority, for the examples.\<close>

definition toy_args :: run_args where
  "toy_args =
     \<lparr>ra_key_file = toy_path, ra_listen_port = 443, ra_listen_host = ''::'', ra_delay_micros = 0, ra_replay_size = 10,
      ra_replay_ttl_secs = 60, ra_replay_cache_path = Some \<lparr>pdir = ''/'', pstem = ''replay'', pext = None\<rparr>,
      ra_strict_header_v3 = False, ra_max_pps = Fin 0, ra_max_bytes_per_day = 0, ra_authority_url = Some ''http://a'',
      ra_extra_authority_url = [], ra_advertise_addr = Some ''1.2.3.4:443'', ra_no_upnp = True, ra_rendezvous_key = None,
      ra_rendezvous_addr = None, ra_rendezvous_capable = False, ra_authority_pop_key = None, ra_enroll_token = None,
      ra_tier = ''mix'', ra_country = None, ra_operator = None, ra_heartbeat_secs = 0, ra_mailbox = True,
      ra_mailbox_store = Some \<lparr>pdir = ''/'', pstem = ''mail'', pext = None\<rparr>, ra_allow_unauthenticated_mailbox_fetch = False,
      ra_gossip = False, ra_advert_key = None, ra_admission_cert = None, ra_authority_set = None, ra_gossip_seeds = [],
      ra_gossip_caps = ''all'', ra_gossip_interval_secs = 60\<rparr>"

definition toy_files :: fs where
  "toy_files = [toy_path \<mapsto> (ascii (hx_encode std_hex (replicate 32 7)) @ [10], owner_only)]"

definition toy_boot :: boot where
  "toy_boot = \<lparr>bo_rate = (0, 0), bo_limit = (0, 0), bo_lowest = 0, bo_now = 5, bo_unix = 100\<rparr>"

definition toy_gossip :: "(unit, unit, byte list) gossip_api" where
  "toy_gossip = \<lparr>ga_authority_set = (\<lambda>_. None), ga_admission_cert = (\<lambda>_. None), ga_node_new = (\<lambda>_ _. Inl [])\<rparr>"

lemma toy_key:
  assumes "files toy_path = toy_files toy_path"
  shows "read_key_file std_hex toy_path files = Inr (replicate 32 7)"
  by (rule read_written_key [OF std_hex_ok]) (simp_all add: assms toy_files_def)

lemma toy_enrolls:
  obtains cfg where "enrollment_of std_hex (\<lambda>_ _. Inl []) toy_args sk pk = Inr (Some cfg)"
proof -
  have "trim ''mix'' = ''mix''" by (rule trim_solid) (simp add: solid_def)
  then have "parse_tier ''mix'' = Inr Mix" by (simp add: parse_tier_def to_ascii_lowercase_def ascii_lower_def)
  moreover have "parse_socket_addr ''1.2.3.4:443'' = Some (V4 [1, 2, 3, 4], 443)"
    by (simp add: addr_simps read_socket_addr_v4_def read_port_def)
  ultimately show thesis using that by (simp add: enrollment_of_def toy_args_def advertise_def and_then_def other_error_def)
qed

lemma toy_setup_with:
  assumes "files toy_path = toy_files toy_path"
  obtains plan where "run_setup std_hex G toy_store toy_gossip (\<lambda>_ _. Inl []) (Inr ()) toy_args toy_boot files = Inr plan"
    "rp_enroll plan \<noteq> None"
proof -
  have "trim ''::'' = ''::''" by (rule trim_solid) (simp add: solid_def)
  then have "parse_listen_addr ''::'' 443 = Inr (V6 [0, 0, 0, 0, 0, 0, 0, 0], 443)"
    using parse_examples(2) by (simp add: parse_listen_addr_def)
  moreover obtain cfg where
    "enrollment_of std_hex (\<lambda>_ _. Inl []) toy_args (replicate 32 7) (hx_encode std_hex (public_key G (replicate 32 7))) =
     Inr (Some cfg)" by (rule toy_enrolls)
  moreover have "rendezvous_dial std_hex toy_args = Inr None" by (simp add: rendezvous_dial_def toy_args_def)
  ultimately show thesis
    using toy_key [of files, OF assms] that
    by (simp add: run_setup_def and_then_def identity_public_key_def build_gossip_def Let_def) (simp add: toy_args_def)
qed

lemmas toy_setup = toy_setup_with [of toy_files toy_gotham, OF refl]

theorem run_announces_witness:
  "\<exists>plan cfg. run_setup std_hex toy_gotham toy_store toy_gossip (\<lambda>_ _. Inl []) (Inr ()) toy_args toy_boot toy_files = Inr plan \<and>
     rp_enroll plan = Some cfg \<and> announces std_hex toy_gotham plan cfg"
proof -
  obtain plan where p: "run_setup std_hex toy_gotham toy_store toy_gossip (\<lambda>_ _. Inl []) (Inr ()) toy_args toy_boot toy_files = Inr plan"
    "rp_enroll plan \<noteq> None" by (rule toy_setup)
  then obtain cfg where "rp_enroll plan = Some cfg" by auto
  with p run_announces [OF p(1), of "()" "()" "Inr ()" "Inr ()"] show ?thesis by auto
qed

text \<open>
  A pinned authority key that is not 32 bytes in hexadecimal is dropped without an error: the relay enrols with no pin, and takes
  the key the authority's own address serves.
\<close>

theorem malformed_pin_dropped:
  assumes "run_setup X G S A upnp delivery a bo files = Inr plan" "rp_enroll plan = Some cfg"
    and "ra_authority_pop_key a = Some k" "decode_key (hx_decode X) k = None"
  shows "at_pop_pk (hd (initial_targets cfg)) = None \<and> \<not> at_pinned (hd (initial_targets cfg))"
proof -
  from run_setup_plan [OF assms(1)] obtain sk where
    "enrollment_of X upnp a sk (hx_encode X (public_key G sk)) = Inr (rp_enroll plan)" by metis
  then have "ec_authority_pop_pk cfg = None"
    using enrollment_of_Some [of X upnp a sk _ cfg] assms(2-4) by (simp add: authority_pop_pk_def)
  then show ?thesis by (simp add: initial_targets_def target_for_def Let_def)
qed

subsection \<open>Signed directories\<close>

lemma descriptors_spec:
  "descriptors i entries = Inr ds \<Longrightarrow>
   length ds = length entries \<and>
   (\<forall>j<length entries. \<exists>tier. entry_tier (i + j) (je_capabilities (entries ! j)) = Inr tier \<and> ds ! j = descriptor (entries ! j) tier)"
proof (induction i entries arbitrary: ds rule: descriptors.induct)
  case (2 i e entries)
  then obtain tier ds' where t: "entry_tier i (je_capabilities e) = Inr tier" "descriptors (Suc i) entries = Inr ds'"
    "ds = descriptor e tier # ds'" by auto
  from 2(1) [OF t(2)] t show ?case by (auto simp: nth_Cons split: nat.splits)
qed simp

definition open_entry :: "relay_json_entry \<Rightarrow> bool" where
  "open_entry e \<longleftrightarrow> je_capabilities e \<in> {''all'', []}"

lemma open_entry_tier:
  "open_entry e \<Longrightarrow> entry_tier i (je_capabilities e) = Inr (if i mod 3 = 0 then Entry else if i mod 3 = 1 then Mix else Exit)"
  by (auto simp: open_entry_def entry_tier_def)

lemma open_tier:
  assumes "descriptors 0 entries = Inr ds" "j < length entries" "open_entry (entries ! j)"
  shows "de_tier (ds ! j) = (if j mod 3 = 0 then Entry else if j mod 3 = 1 then Mix else Exit)"
proof -
  obtain tier where "entry_tier j (je_capabilities (entries ! j)) = Inr tier" "ds ! j = descriptor (entries ! j) tier"
    using descriptors_spec [OF assms(1)] assms(2) by auto
  with assms(3) show ?thesis by (simp add: open_entry_tier descriptor_def split: if_splits)
qed

text \<open>C39. A signed directory can route: what \<^verbatim>\<open>sign-directory\<close> writes is the signature, under the key in the authority's
  file, of a document with one descriptor per entry of the input, in order and with its key and address; and when the
  entries leave their tier open, every tier has a relay, since there are at least three.\<close>

theorem signed_directory_routes:
  assumes "signed_directory X D authority_key relays valid_secs files = Inr json"
  shows "\<exists>key raw entries ds doc sig.
    read_ed25519_seed X authority_key files = Inr key \<and> read_to_string relays files = Inr raw \<and> di_entries D raw = Some entries \<and>
    di_doc_new D ds (from_secs (unat valid_secs)) = Inr doc \<and> di_sign D doc key = Inr sig \<and> di_to_json D sig = Inr json \<and>
    map de_kem_pubkey_hex ds = map je_node_id_hex entries \<and> map de_addr ds = map je_addr entries \<and>
    (list_all open_entry entries \<longrightarrow> {Entry, Mix, Exit} \<subseteq> set (map de_tier ds))"
proof -
  obtain key raw entries ds doc sig where c: "read_ed25519_seed X authority_key files = Inr key"
    "read_to_string relays files = Inr raw" "di_entries D raw = Some entries" "3 \<le> length entries" "descriptors 0 entries = Inr ds"
    "di_doc_new D ds (from_secs (unat valid_secs)) = Inr doc" "di_sign D doc key = Inr sig" "di_to_json D sig = Inr json"
    using assms by (auto simp: signed_directory_def split: if_splits)
  note sp = descriptors_spec [OF c(5)]
  have "{Entry, Mix, Exit} \<subseteq> set (map de_tier ds)" if "list_all open_entry entries"
  proof -
    have o: "open_entry (entries ! j)" if "j < 3" for j
      using \<open>list_all open_entry entries\<close> that c(4) by (auto simp: list_all_length)
    have n: "0 < length entries" "1 < length entries" "2 < length entries" using c(4) by linarith+
    have "de_tier (ds ! 0) = Entry" "de_tier (ds ! 1) = Mix" "de_tier (ds ! 2) = Exit"
      using open_tier [OF c(5) n(1) o] open_tier [OF c(5) n(2) o] open_tier [OF c(5) n(3) o] by simp_all
    moreover have "ds ! 0 \<in> set ds" "ds ! 1 \<in> set ds" "ds ! 2 \<in> set ds" using sp n by (simp_all only: nth_mem)
    ultimately have "Entry \<in> de_tier ` set ds" "Mix \<in> de_tier ` set ds" "Exit \<in> de_tier ` set ds"
      by (metis imageI)+
    then show ?thesis by simp
  qed
  moreover have "map de_kem_pubkey_hex ds = map je_node_id_hex entries" "map de_addr ds = map je_addr entries"
    using sp by (auto intro!: nth_equalityI simp: descriptor_def)
  ultimately show ?thesis
    using c by (intro exI [of _ key] exI [of _ raw] exI [of _ entries] exI [of _ ds] exI [of _ doc] exI [of _ sig] conjI impI)
qed

definition toy_directory :: "(directory_descriptor list, directory_descriptor list) directory_api" where
  "toy_directory =
     \<lparr>di_entries = (\<lambda>raw. let e = \<lparr>je_node_id_hex = raw, je_addr = ''a'', je_capabilities = [], je_country = None,
        je_asn = None, je_operator = None, je_mailbox = False\<rparr> in Some [e, e, e]),
      di_doc_new = (\<lambda>ds d. Inr ds), di_sign = (\<lambda>doc key. Inr doc),
      di_to_json = (\<lambda>ds. Inr (map (\<lambda>d. case de_tier d of Entry \<Rightarrow> 0 | Mix \<Rightarrow> 1 | Exit \<Rightarrow> 2) ds))\<rparr>"

definition toy_authority :: fs where
  "toy_authority = [toy_path \<mapsto> (replicate 32 7, owner_only)]"

theorem signed_directory_routes_witness:
  "\<exists>ds :: directory_descriptor list. signed_directory std_hex toy_directory toy_path toy_path 60 toy_authority =
       Inr (map (\<lambda>d. case de_tier d of Entry \<Rightarrow> 0 | Mix \<Rightarrow> 1 | Exit \<Rightarrow> 2) ds) \<and>
     {Entry, Mix, Exit} \<subseteq> set (map de_tier ds)"
proof -
  have "is_utf8 (map unat (replicate 32 (7 :: byte)))" by (rule ascii_is_utf8) (simp add: list_all_iff)
  then have rd: "read_to_string toy_path toy_authority = Inr (text_of (replicate 32 7))"
    by (simp add: read_to_string_def toy_authority_def)
  have key: "read_ed25519_seed std_hex toy_path toy_authority = Inr (replicate 32 7)"
    by (simp add: read_ed25519_seed_def toy_authority_def list_all_iff is_ascii_hexdigit_def is_ascii_whitespace_def)
  obtain entries where e: "di_entries toy_directory (text_of (replicate 32 7)) = Some entries" "length entries = 3"
    "list_all open_entry entries" by (simp add: toy_directory_def Let_def open_entry_def)
  then obtain e1 e2 e3 where es: "entries = [e1, e2, e3]" by (auto simp: length_Suc_conv numeral_3_eq_3)
  obtain ds where ds: "descriptors 0 entries = Inr ds" using e(3) by (simp add: es open_entry_tier and_then_def)
  have j: "signed_directory std_hex toy_directory toy_path toy_path 60 toy_authority =
      Inr (map (\<lambda>d. case de_tier d of Entry \<Rightarrow> 0 | Mix \<Rightarrow> 1 | Exit \<Rightarrow> 2) ds)"
    unfolding signed_directory_def rd key and_then_def sum.case e(1) ok_or_def option.case e(2) ds
    by (simp add: toy_directory_def other_error_def)
  from signed_directory_routes [OF j] show ?thesis
  proof (elim exE conjE, goal_cases)
    case (1 key' raw entries' ds' doc sig)
    have "list_all open_entry entries'" using 1(3) by (auto simp: toy_directory_def Let_def open_entry_def)
    with 1(9) have "{Entry, Mix, Exit} \<subseteq> set (map de_tier ds')" by (rule mp)
    moreover have "map (\<lambda>d. case de_tier d of Entry \<Rightarrow> 0 | Mix \<Rightarrow> 1 | Exit \<Rightarrow> 2) ds =
        map (\<lambda>d. case de_tier d of Entry \<Rightarrow> 0 | Mix \<Rightarrow> 1 | Exit \<Rightarrow> (2 :: byte)) ds'"
      using 1(4-6) by (simp add: toy_directory_def)
    ultimately show ?case using j by metis
  qed
qed

text \<open>
  The watch counts to two whatever the number of authorities: a relay started with one authority is reported as not used for
  as long as it runs, even while that authority lists it.
\<close>

theorem single_authority_never_listed:
  assumes "enrollment_of X upnp a sk pk_hex = Inr (Some cfg)" "ra_extra_authority_url a = []"
  shows "set (watch_own_listing True pk_hex (watch_urls cfg) rounds) \<subseteq> {False}"
proof -
  have "ec_extra_authority_urls cfg = []" using assms by (auto simp: enrollment_of_def split: option.splits)
  then show ?thesis by (intro watch_single_authority) (simp add: watch_urls_def)
qed

subsection \<open>Keys have the size of a key\<close>

lemma decode_key_length: "decode_key d s = Some k \<Longrightarrow> length k = 32"
  by (auto simp: decode_key_def split: option.splits if_splits)

lemma read_key_file_length: "read_key_file X p files = Inr sk \<Longrightarrow> length sk = 32"
  by (auto simp: read_key_file_def split: sum.splits option.splits if_splits)

lemma read_ed25519_seed_length: "read_ed25519_seed X p files = Inr seed \<Longrightarrow> length seed = 32"
  by (auto simp: read_ed25519_seed_def split: option.splits if_splits)

lemma parse_seed_length: "parse_seed X s = Inr (addr, kem) \<Longrightarrow> length kem = 32"
  by (auto simp: parse_seed_def split: if_splits)

lemma parse_seeds_length: "parse_seeds X seeds = Inr bs \<Longrightarrow> list_all (\<lambda>(addr, kem). length kem = 32) bs"
  by (induction seeds arbitrary: bs) (auto dest: parse_seed_length)

text \<open>The gossip node is built from typed values only, and its loop waits at least five seconds between rounds.\<close>

lemma build_gossip_typed:
  assumes "build_gossip X A files enabled sk kem adv advert_key admission_cert authority_set seeds caps secs = Inr (Some (service, d))"
  obtains cfg auth_set where "ga_node_new A cfg auth_set = Inr service" "length (go_identity cfg) = 32"
    "list_all (\<lambda>(addr, kem). length kem = 32) (go_bootstrap cfg)" "go_noise_sk cfg = sk" "from_secs 5 \<le> d"
  using assms
  by (auto simp: build_gossip_def from_secs_def dest!: read_ed25519_seed_length parse_seeds_length split: if_splits sum.splits)

lemma rendezvous_dial_length: "rendezvous_dial X a = Inr (Some (addr, pk)) \<Longrightarrow> length pk = 32"
  by (auto simp: rendezvous_dial_def decode_key_length split: option.splits)

lemma authority_pop_pk_length: "authority_pop_pk X a = Some pk \<Longrightarrow> length pk = 32"
  by (auto simp: authority_pop_pk_def Option.bind_eq_Some_conv decode_key_length)

text \<open>A key of the wrong size nowhere: the types \<^verbatim>\<open>[u8; 32]\<close> of the source, as a predicate on a plan.\<close>

definition plan_typed :: "('m, 'r) run_plan \<Rightarrow> bool" where
  "plan_typed plan \<longleftrightarrow>
     length (rp_sk plan) = 32 \<and> length (r_identity_sk (rp_relay plan)) = 32 \<and>
     (case rp_pop_pk plan of None \<Rightarrow> True | Some pk \<Rightarrow> length pk = 32) \<and>
     (case rp_dial plan of None \<Rightarrow> True | Some (addr, pk) \<Rightarrow> length pk = 32) \<and>
     (case rp_enroll plan of
        None \<Rightarrow> True
      | Some cfg \<Rightarrow>
          length (ec_relay_sk cfg) = 32 \<and>
          list_all (\<lambda>t. case at_pop_pk t of None \<Rightarrow> True | Some pk \<Rightarrow> length pk = 32) (initial_targets cfg))"



subsection \<open>Stopping and starting again\<close>

lemma authentic_any_mode:
  "authentic G sk v packet = Some x \<Longrightarrow> authentic G sk True packet = Some x"
  by (auto simp: authentic_def split: option.splits if_splits)

lemma process_seen:
  assumes "gotham_ok G" "authentic G (r_identity_sk r) True packet = Some (h, k, u)"
    and "fst (check_and_insert_at (header_gamma G h) t2 (r_replay_cache r)) = Replay"
  shows "\<exists>reason. fst (process G gen ln_f t1 t2 packet r rng) = Some (Drop reason)"
proof (cases rule: process_cases [OF assms(1), of packet gen ln_f t1 t2 r rng, case_names size rate reject authentic])
  case (authentic h' k' u' rl)
  from authentic_any_mode [OF authentic(3)] assms(2) have "h' = h" by simp
  with authentic(4) process_authentic_replay [where gen = gen and ln_f = ln_f and packet = packet and k = k' and u = u' and rng = rng
      and G = G and h = h and t = t2 and r = "counted G h (r\<lparr>r_rate_limiter := rl\<rparr>)"] assms(3)
  show ?thesis by simp
qed (auto simp: rejects_def)

lemma write_encoded_others:
  assumes "p' \<noteq> p" "p' \<noteq> with_extension ''tmp'' p"
  shows "snd (write_encoded fate buf p files) p' = files p'"
  using assms by (cases fate) (simp_all add: write_encoded_def Let_def open_truncate_def)

lemma configure_relay_cache:
  assumes "ra_replay_cache_path a = Some p" "files p = Some (bs, m)"
  shows "r_replay_cache (configure_relay a bo sk files) =
    snd (load (bo_lowest bo) (Inr bs) (bo_now bo) (bo_unix bo) (rc_new (ra_replay_size a) (from_secs (unat (ra_replay_ttl_secs a)))))"
  using assms
  by (simp add: configure_relay_def Let_def with_replay_persistence_def with_rate_limit_def relay_new_def strict_header_v3_def
      read_file_def ok_or_def)

text \<open>What a clean shutdown leaves in the two stores.\<close>

lemma shutdown_files:
  assumes "ra_mailbox_store a = Some q" "r_replay_path relay = Some p"
    and "pext p \<noteq> Some ''tmp''" "pext q \<noteq> Some ''tmp''" "with_extension ''tmp'' p \<noteq> with_extension ''tmp'' q"
    and "ex_store ex = Store_ok" "spares q (ex_between ex)" "ex_write ex = Write_ok" "st_to_vec S (st_snapshot S mb) = Some bs"
  shows "run_shutdown S m ex a (Some mb) relay files p = Some (encode (ex_now ex) (ex_unix ex) (r_replay_cache relay), owner_only)"
    and "map_option fst (run_shutdown S m ex a (Some mb) relay files q) = Some bs"
proof -
  let ?files = "snd (persist_mailbox S m Store_ok (ex_between ex) q (st_snapshot S mb) files)"
  have sd: "run_shutdown S m ex a (Some mb) relay files =
      snd (write_encoded Write_ok (encode (ex_now ex) (ex_unix ex) (r_replay_cache relay)) p ?files)"
    using assms by (simp add: run_shutdown_def persist_replay_def save_def split: prod.splits)
  show "run_shutdown S m ex a (Some mb) relay files p = Some (encode (ex_now ex) (ex_unix ex) (r_replay_cache relay), owner_only)"
    unfolding sd using write_encoded_target [OF assms(3)] by simp
  have "q \<noteq> p" "q \<noteq> with_extension ''tmp'' p" using assms(4,5) by (auto simp: with_extension_def)
  then show "map_option fst (run_shutdown S m ex a (Some mb) relay files q) = Some bs"
    unfolding sd using persist_mailbox_store [OF assms(4,7), of S m Store_ok "st_snapshot S mb" files] assms(9)
    by (simp add: write_encoded_others)
qed

end
