(* ===== verification/System.thy ===== *)
theory System
  imports Command_Line Endpoints
begin

section \<open>The running relay\<close>

text \<open>
  The relay as one system of concurrent tasks. A step is what one task does while it holds one lock (or a system call of the
  task that saves the cache), so that every interleaving the runtime can produce is a sequence of steps: connections
  come and go, a packet passes the check of its source and waits for the relay, the relay handles it, spawned tasks end or deliver
  to the mailbox, tunnels change, the mailbox and the roster answer requests, the mailbox is pruned and its snapshot taken, written
  to the temporary file and renamed, and the cache is encoded and later written. The state carries the history of the packets handled,
  with their outcomes.
\<close>

text \<open>What the maintenance task of the mailbox works with: the encoding of snapshots, the path of the store, and the mode of new files.\<close>

record ('m, 's) disk =
  dk_api :: "('m, 's) store_api"
  dk_store :: "path option"
  dk_mode :: nat

definition disk_of :: "('m, 's) store_api \<Rightarrow> nat \<Rightarrow> run_args \<Rightarrow> ('m, 's) disk" where
  "disk_of S default_mode a = \<lparr>dk_api = S, dk_store = ra_mailbox_store a, dk_mode = default_mode\<rparr>"

text \<open>The snapshot a tick of the maintenance task saves, encoded: none without a store.\<close>

definition snapshot_of :: "('m, 's) disk \<Rightarrow> 'm \<Rightarrow> (bytes \<times> path) option" where
  "snapshot_of D mb =
     (case dk_store D of
        None \<Rightarrow> None
      | Some q \<Rightarrow> map_option (\<lambda>bs. (bs, q)) (st_to_vec (dk_api D) (st_snapshot (dk_api D) mb)))"

record ('m, 'r, 't, 'g) system =
  sy_listener :: listener
  sy_server :: "('m, 'r, 't, 'g) server"
  sy_pending :: "bytes list"
  sy_saving :: "(bytes \<times> path) option"
  sy_storing :: "(bytes \<times> path) option"
  sy_renaming :: "path option"
  sy_files :: fs
  sy_log :: "((instant \<times> instant \<times> bytes) \<times> process_outcome option) list"

inductive sys_step :: "('h, 'k) gotham \<Rightarrow> ('g \<Rightarrow> f64 \<times> 'g) \<Rightarrow> (f64 \<Rightarrow> f64) \<Rightarrow> ('m, 'a) mailbox_api \<Rightarrow> ('m, 's) disk
    \<Rightarrow> 'r roster_api \<Rightarrow> config
    \<Rightarrow> ('m, 'r, 't, 'g) system \<Rightarrow> ('m, 'r, 't, 'g) system \<Rightarrow> bool"
  for G gen ln_f M D R cf where
  arrive: "sys_step G gen ln_f M D R cf s (s\<lparr>sy_listener := on_arrive (sy_listener s)\<rparr>)"
| finish: "sys_step G gen ln_f M D R cf s (s\<lparr>sy_listener := on_finish i (sy_listener s)\<rparr>)"
| checked: "iterates ord \<Longrightarrow> psl_check_at ord t1 t2 src (length packet) t (sv_sources (sy_server s)) = (d, psl) \<Longrightarrow>
    sys_step G gen ln_f M D R cf s
      (s\<lparr>sy_server := (sy_server s)\<lparr>sv_sources := psl\<rparr>,
         sy_pending := (if is_allowed d then sy_pending s @ [packet] else sy_pending s)\<rparr>)"
| tunnelled: "sys_step G gen ln_f M D R cf s (s\<lparr>sy_pending := sy_pending s @ [packet]\<rparr>)"
| handled: "packet \<in> set (sy_pending s) \<Longrightarrow> process_shared G gen ln_f tr tp packet (sy_server s) = (r, w) \<Longrightarrow>
    out = fst (process G gen ln_f tr tp packet (sv_relay (sy_server s)) (sv_rng (sy_server s))) \<Longrightarrow>
    sys_step G gen ln_f M D R cf s
      (s\<lparr>sy_server := w, sy_pending := remove1 packet (sy_pending s), sy_log := sy_log s @ [((tr, tp, packet), out)]\<rparr>)"
| task_done: "sys_step G gen ln_f M D R cf s
      (s\<lparr>sy_server := (sy_server s)\<lparr>sv_tasks := remove1 tk (sv_tasks (sy_server s))\<rparr>\<rparr>)"
| delivered: "DeliverTask d payload \<in> set (sv_tasks (sy_server s)) \<Longrightarrow> sv_mailbox (sy_server s) = Some mb \<Longrightarrow>
    sys_step G gen ln_f M D R cf s
      (s\<lparr>sy_server := (sy_server s)\<lparr>sv_tasks := remove1 (DeliverTask d payload) (sv_tasks (sy_server s)),
         sv_mailbox := Some (mailbox_service_handler M surb_ok ship others (cf_static_sk cf) now payload mb)\<rparr>\<rparr>)"
| tunnels: "sys_step G gen ln_f M D R cf s (s\<lparr>sy_server := (sy_server s)\<lparr>sv_rendezvous := tn\<rparr>\<rparr>)"
| answered: "sv_mailbox (sy_server s) = Some mb \<Longrightarrow>
    answer M (cf_static_sk cf) binding (allow_unauthenticated_mailbox_fetch cf) now blob mb = (resp, mb') \<Longrightarrow>
    sys_step G gen ln_f M D R cf s (s\<lparr>sy_server := (sy_server s)\<lparr>sv_mailbox := Some mb'\<rparr>\<rparr>)"
| pruned: "sv_mailbox (sy_server s) = Some mb \<Longrightarrow> sy_storing s = None \<Longrightarrow> sy_renaming s = None \<Longrightarrow>
    mb' = st_prune_expired (dk_api D) mb now \<Longrightarrow>
    sys_step G gen ln_f M D R cf s
      (s\<lparr>sy_server := (sy_server s)\<lparr>sv_mailbox := Some mb'\<rparr>, sy_storing := snapshot_of D mb'\<rparr>)"
| stored: "sy_storing s = Some (bs, q) \<Longrightarrow> tmp = with_extension ''tmp'' q \<Longrightarrow>
    sys_step G gen ln_f M D R cf s
      (s\<lparr>sy_files := (sy_files s)(tmp \<mapsto> (take n bs, mode_for (dk_mode D) tmp (sy_files s))), sy_storing := None,
         sy_renaming := (if n < length bs then None else Some q)\<rparr>)"
| renamed: "sy_renaming s = Some q \<Longrightarrow>
    sys_step G gen ln_f M D R cf s
      (s\<lparr>sy_files := snd (rename_file (with_extension ''tmp'' q) q (sy_files s)), sy_renaming := None\<rparr>)"
| store_failed: "sys_step G gen ln_f M D R cf s (s\<lparr>sy_storing := None, sy_renaming := None\<rparr>)"
| merged: "sv_roster (sy_server s) = Some roster \<Longrightarrow>
    sys_step G gen ln_f M D R cf s (s\<lparr>sy_server := (sy_server s)\<lparr>sv_roster := Some (merge_peer R now blob roster)\<rparr>\<rparr>)"
| encoded: "sy_saving s = None \<Longrightarrow> encode_replay now unix (sv_relay (sy_server s)) = Some x \<Longrightarrow>
    sys_step G gen ln_f M D R cf s (s\<lparr>sy_saving := Some x\<rparr>)"
| written: "sy_saving s = Some (buf, p) \<Longrightarrow>
    sys_step G gen ln_f M D R cf s (s\<lparr>sy_files := snd (write_encoded fate buf p (sy_files s)), sy_saving := None\<rparr>)"

abbreviation sys_steps :: "('h, 'k) gotham \<Rightarrow> ('g \<Rightarrow> f64 \<times> 'g) \<Rightarrow> (f64 \<Rightarrow> f64) \<Rightarrow> ('m, 'a) mailbox_api \<Rightarrow> ('m, 's) disk
    \<Rightarrow> 'r roster_api \<Rightarrow> config
    \<Rightarrow> ('m, 'r, 't, 'g) system \<Rightarrow> ('m, 'r, 't, 'g) system \<Rightarrow> bool" where
  "sys_steps G gen ln_f M D R cf \<equiv> (sys_step G gen ln_f M D R cf)\<^sup>*\<^sup>*"

definition system_start :: "listener \<Rightarrow> ('m, 'r, 't, 'g) server \<Rightarrow> fs \<Rightarrow> ('m, 'r, 't, 'g) system" where
  "system_start li w files =
     \<lparr>sy_listener = li, sy_server = w, sy_pending = [], sy_saving = None, sy_storing = None, sy_renaming = None, sy_files = files, sy_log = []\<rparr>"

text \<open>What one step keeps, every run keeps.\<close>

locale step_invariant =
  fixes step :: "'s \<Rightarrow> 's \<Rightarrow> bool" and holds :: "'s \<Rightarrow> bool"
  assumes keep: "step s s' \<Longrightarrow> holds s \<Longrightarrow> holds s'"
begin

lemma reach: "step\<^sup>*\<^sup>* s s' \<Longrightarrow> holds s \<Longrightarrow> holds s'"
  by (induction rule: rtranclp_induct) (auto intro: keep)

end

subsection \<open>The relay in the system is the sequential relay\<close>

lemma relay_run_append:
  assumes "relay_run G gen ln_f xs r rng = (os1, r1, rng1)" "relay_run G gen ln_f ys r1 rng1 = (os2, r2, rng2)"
  shows "relay_run G gen ln_f (xs @ ys) r rng = (os1 @ os2, r2, rng2)"
  using assms by (induction xs arbitrary: r rng os1) (auto split: prod.splits)

text \<open>What a state says about the relay's history, from the relay \<open>r0\<close> the system started with.\<close>

definition relay_history :: "('h, 'k) gotham \<Rightarrow> ('g \<Rightarrow> f64 \<times> 'g) \<Rightarrow> (f64 \<Rightarrow> f64) \<Rightarrow> relay \<Rightarrow> 'g \<Rightarrow> ('m, 'r, 't, 'g) system \<Rightarrow> bool" where
  "relay_history G gen ln_f r0 rng0 s \<longleftrightarrow>
     relay_run G gen ln_f (map fst (sy_log s)) r0 rng0 = (map snd (sy_log s), sv_relay (sy_server s), sv_rng (sy_server s))"

lemma process_shared_relay:
  "process_shared G gen ln_f tr tp packet w = (r, w') \<Longrightarrow>
   process G gen ln_f tr tp packet (sv_relay w) (sv_rng w) =
     (fst (process G gen ln_f tr tp packet (sv_relay w) (sv_rng w)), sv_relay w', sv_rng w')"
  by (auto simp: process_shared_def split: prod.splits option.splits)

lemma step_history:
  assumes "sys_step G gen ln_f M D R cf s s'" "relay_history G gen ln_f r0 rng0 s"
  shows "relay_history G gen ln_f r0 rng0 s'"
  using assms(1)
proof cases
  case (handled packet tr tp r w out)
  have "relay_run G gen ln_f [(tr, tp, packet)] (sv_relay (sy_server s)) (sv_rng (sy_server s)) =
      ([out], sv_relay w, sv_rng w)"
    using process_shared_relay [OF handled(3)] handled(4)
    by (cases "process G gen ln_f tr tp packet (sv_relay (sy_server s)) (sv_rng (sy_server s))") simp
  from relay_run_append [OF assms(2) [unfolded relay_history_def] this] show ?thesis
    by (simp add: relay_history_def handled(1))
qed (use assms(2) in \<open>simp_all add: relay_history_def\<close>)

interpretation sh: step_invariant "sys_step G gen ln_f M D R cf" "relay_history G gen ln_f r0 rng0"
  for G gen ln_f M D R cf r0 rng0
  by unfold_locales (rule step_history)

lemma start_history: "relay_history G gen ln_f (sv_relay w) (sv_rng w) (system_start li w files)"
  by (simp add: relay_history_def system_start_def)

subsection \<open>Replay protection of the system\<close>

lemma check_run_size: "check_run ops c = (rs, c') \<Longrightarrow> rc_max_size c' = rc_max_size c"
proof (induction ops arbitrary: c rs)
  case (Cons op ops)
  then show ?case by (cases op) (fastforce split: prod.splits dest: check_fields(2))
qed simp

text \<open>The cache of a relay keeps its invariant, its time to live and its size over any history.\<close>

lemma run_cache_inv:
  assumes "gotham_ok G" "rc_inv (r_replay_cache r)" "relay_run G gen ln_f ops r rng = (os, r', rng')"
  shows "rc_inv (r_replay_cache r')" "rc_ttl (r_replay_cache r') = rc_ttl (r_replay_cache r)"
    "rc_max_size (r_replay_cache r') = rc_max_size (r_replay_cache r)"
proof -
  from run_cache [OF assms(1,3)] obtain kops rs where "check_run kops (r_replay_cache r) = (rs, r_replay_cache r')" by blast
  with rc.inv_run [OF assms(2)] check_run_size
  show "rc_inv (r_replay_cache r')" "rc_ttl (r_replay_cache r') = rc_ttl (r_replay_cache r)"
    "rc_max_size (r_replay_cache r') = rc_max_size (r_replay_cache r)" by blast+
qed

lemma relay_run_split:
  assumes "relay_run G gen ln_f (xs @ ys) r rng = (os, r', rng')"
  obtains os1 r1 rng1 os2 where "relay_run G gen ln_f xs r rng = (os1, r1, rng1)" "relay_run G gen ln_f ys r1 rng1 = (os2, r', rng')"
    "os = os1 @ os2" "length os1 = length xs"
proof -
  obtain os1 r1 rng1 where x: "relay_run G gen ln_f xs r rng = (os1, r1, rng1)" by (metis prod_cases3)
  obtain os2 r2 rng2 where y: "relay_run G gen ln_f ys r1 rng1 = (os2, r2, rng2)" by (metis prod_cases3)
  have "length os1 = length xs" using x by (induction xs arbitrary: r rng os1) (auto split: prod.splits)
  with that [OF x] y relay_run_append [OF x y] assms show thesis by simp
qed

text \<open>One packet of a history: what happened before it, its outcome, and the relay after it.\<close>

lemma relay_run_at:
  assumes "relay_run G gen ln_f (xs @ (t1, t2, p) # ys) r rng = (os1 @ out # os2, r', rng')" "length os1 = length xs"
  obtains r1 rng1 r2 rng2 where "relay_run G gen ln_f xs r rng = (os1, r1, rng1)"
    "process G gen ln_f t1 t2 p r1 rng1 = (out, r2, rng2)" "relay_run G gen ln_f ys r2 rng2 = (os2, r', rng')"
proof -
  from relay_run_split [OF assms(1)] obtain os3 r1 rng1 os4 where s: "relay_run G gen ln_f xs r rng = (os3, r1, rng1)"
    "relay_run G gen ln_f ((t1, t2, p) # ys) r1 rng1 = (os4, r', rng')" "os1 @ out # os2 = os3 @ os4" "length os3 = length xs" by metis
  then have "os3 = os1" "os4 = out # os2" using assms(2) by auto
  obtain o2 r2 rng2 where p: "process G gen ln_f t1 t2 p r1 rng1 = (o2, r2, rng2)" by (metis prod_cases3)
  with s \<open>os4 = out # os2\<close> have "o2 = out" "relay_run G gen ln_f ys r2 rng2 = (os2, r', rng')" by (auto split: prod.splits)
  with that s(1) p \<open>os3 = os1\<close> show thesis by simp
qed

text \<open>C3. No interleaving opens the replay window: however connections, tunnels, tasks, services and saves are scheduled, once the
  running relay has accepted a packet as new, it drops every later packet with the same header that it handles within the time to live,
  whichever connection either came from, as long as fewer packets than the cache holds were accepted as new in between.\<close>

theorem system_replay_protection:
  assumes "gotham_ok G" "rc_inv (r_replay_cache (sv_relay w))"
    and "sys_steps G gen ln_f M D R cf (system_start li w files) s"
    and "sy_log s = before @ ((tr, ts, p), out) # between @ ((tq, now, q), out') # after" "took_slot out"
    and "\<forall>e\<in>set between. fst (snd (fst e)) \<le> ts + int (rc_ttl (r_replay_cache (sv_relay w)))"
    and "now \<le> ts + int (rc_ttl (r_replay_cache (sv_relay w)))"
    and "slots_taken (map snd between) < rc_max_size (r_replay_cache (sv_relay w))"
    and "take (HEADER_LEN G) q = take (HEADER_LEN G) p" "length q = PACKET_SIZE G"
  shows "out' \<in> {Some (Drop ReplayDrop), Some (Drop RateLimited)}"
proof -
  let ?run = "relay_run G gen ln_f"
  have "?run (map fst (sy_log s)) (sv_relay w) (sv_rng w) = (map snd (sy_log s), sv_relay (sy_server s), sv_rng (sy_server s))"
    using sh.reach [OF assms(3) start_history] by (simp add: relay_history_def)
  then have run: "?run (map fst before @ (tr, ts, p) # map fst between @ (tq, now, q) # map fst after) (sv_relay w) (sv_rng w) =
      (map snd before @ out # map snd between @ out' # map snd after, sv_relay (sy_server s), sv_rng (sy_server s))"
    by (simp add: assms(4))
  have len: "length (map snd es) = length (map fst es)" for es :: "((instant \<times> instant \<times> bytes) \<times> process_outcome option) list" by simp
  obtain r1 g1 r2 g2 where 1: "?run (map fst before) (sv_relay w) (sv_rng w) = (map snd before, r1, g1)"
    "process G gen ln_f tr ts p r1 g1 = (out, r2, g2)"
    "?run (map fst between @ (tq, now, q) # map fst after) r2 g2 =
       (map snd between @ out' # map snd after, sv_relay (sy_server s), sv_rng (sy_server s))" by (rule relay_run_at [OF run len])
  obtain r3 g3 r4 g4 where 2: "?run (map fst between) r2 g2 = (map snd between, r3, g3)"
    "process G gen ln_f tq now q r3 g3 = (out', r4, g4)" by (rule relay_run_at [OF 1(3) len])
  note inv = run_cache_inv [OF assms(1,2) 1(1)]
  have "fst (process G gen ln_f tq now q r3 g3) \<in> {Some (Drop ReplayDrop), Some (Drop RateLimited)}"
    using assms(6-8) by (intro relay_replay_protection [OF assms(1) inv(1) 1(2) assms(5) 2(1) _ _ _ assms(9,10)]) (auto simp: inv)
  then show ?thesis by (simp add: 2(2))
qed

text \<open>A packet that arrives while no other waits, and is handled.\<close>

lemma sys_packet:
  fixes s :: "('m, 'r, 't, 'g) system"
  assumes "sy_pending s = []"
  shows "sys_steps G gen ln_f M D R cf s
    (s\<lparr>sy_server := snd (process_shared G gen ln_f tr tp packet (sy_server s)), sy_pending := [],
       sy_log := sy_log s @ [((tr, tp, packet), fst (process G gen ln_f tr tp packet (sv_relay (sy_server s)) (sv_rng (sy_server s))))]\<rparr>)"
proof -
  let ?s1 = "s\<lparr>sy_pending := sy_pending s @ [packet]\<rparr>"
  have 1: "sys_step G gen ln_f M D R cf s ?s1" by (rule tunnelled)
  have 2: "sys_step G gen ln_f M D R cf ?s1
      (?s1\<lparr>sy_server := snd (process_shared G gen ln_f tr tp packet (sy_server ?s1)), sy_pending := remove1 packet (sy_pending ?s1),
        sy_log := sy_log ?s1 @ [((tr, tp, packet), fst (process G gen ln_f tr tp packet (sv_relay (sy_server ?s1)) (sv_rng (sy_server ?s1))))]\<rparr>)"
    by (rule handled [OF _ surjective_pairing refl]) simp
  from 1 2 show ?thesis using assms by (auto intro: converse_rtranclp_into_rtranclp)
qed

definition toy_disk :: "((bytes \<times> bytes) list, unit) disk" where
  "toy_disk =
     \<lparr>dk_api = \<lparr>st_with_defaults = [], st_from_snapshot = (\<lambda>_ _. []), st_snapshot = (\<lambda>_. ()), st_from_slice = (\<lambda>_. None),
        st_to_vec = (\<lambda>_. None), st_prune_expired = (\<lambda>mb _. mb)\<rparr>,
      dk_store = None, dk_mode = 420\<rparr>"

definition toy_config :: config where
  "toy_config = \<lparr>cf_static_sk = [1], cf_authority_pop_pk = None, cf_allow_unauth_fetch = False\<rparr>"

theorem system_replay_protection_witness:
  "\<exists>s out'. sys_steps toy_gotham (\<lambda>g. (Fin 0, g)) (\<lambda>u. u) toy_mailbox toy_disk toy_roster toy_config
       (system_start listener_new toy_full_server (\<lambda>_. None)) s \<and>
     sy_log s = [((10, 10, [4, 0, 1, 2]), Some (DeliverLocal 5000 [254, 253])), ((30, 50, [4, 0, 9, 9]), out')] \<and>
     out' \<in> {Some (Drop ReplayDrop), Some (Drop RateLimited)}"
proof -
  let ?s0 = "system_start listener_new toy_full_server (\<lambda>_. None)"
  let ?step = "\<lambda>tr tp packet s. s\<lparr>sy_server := snd (process_shared toy_gotham (\<lambda>g. (Fin 0, g)) (\<lambda>u. u) tr tp packet (sy_server s)),
    sy_pending := [], sy_log := sy_log s @ [((tr, tp, packet), fst (process toy_gotham (\<lambda>g. (Fin 0, g)) (\<lambda>u. u) tr tp packet
      (sv_relay (sy_server s)) (sv_rng (sy_server s))))]\<rparr>"
  let ?s1 = "?step 10 10 [4, 0, 1, 2] ?s0"
  let ?s2 = "?step 30 50 [4, 0, 9, 9] ?s1"
  let ?steps = "sys_steps toy_gotham (\<lambda>g. (Fin 0, g)) (\<lambda>u. u) toy_mailbox toy_disk toy_roster toy_config"
  have "?steps ?s0 ?s1" by (rule sys_packet) (simp add: system_start_def)
  moreover have "?steps ?s1 ?s2" by (rule sys_packet) simp
  ultimately have steps: "?steps ?s0 ?s2" by (rule rtranclp_trans)
  obtain out' where log: "sy_log ?s2 = [] @ ((10, 10, [4, 0, 1, 2]), fst (process toy_gotham (\<lambda>g. (Fin 0, g)) (\<lambda>u. u) 10 10 [4, 0, 1, 2] toy_relay ())) #
      [] @ ((30, 50, [4, 0, 9, 9]), out') # []"
    by (simp add: system_start_def toy_full_server_def toy_server_def)
  have out: "fst (process toy_gotham (\<lambda>g. (Fin 0, g)) (\<lambda>u. u) 10 10 [4, 0, 1, 2] toy_relay ()) = Some (DeliverLocal 5000 [254, 253])"
    by (simp add: rc_eval process_eval)
  have w: "sv_relay toy_full_server = toy_relay" by (simp add: toy_full_server_def toy_server_def)
  have "out' \<in> {Some (Drop ReplayDrop), Some (Drop RateLimited)}"
    by (rule system_replay_protection [OF toy_gotham_ok _ steps log [unfolded out]])
      (simp_all add: w took_slot_def slots_taken_def toy_relay_def relay_new_def rc_new_inv, simp_all add: rc_new_def toy_gotham_def)
  with steps log out show ?thesis by auto
qed

subsection \<open>The invariant of the running relay\<close>

definition sys_inv :: "('h, 'k) gotham \<Rightarrow> u64 \<Rightarrow> nat \<Rightarrow> ('m, 'r, 't, 'g) system \<Rightarrow> bool" where
  "sys_inv G mean cap s \<longleftrightarrow>
     listener_inv (sy_listener s) \<and> server_ok G mean (sy_server s) \<and>
     psl_max_entries (sv_sources (sy_server s)) = PER_SOURCE_MAX_TRACKED \<and>
     rc_inv (r_replay_cache (sv_relay (sy_server s))) \<and> rc_max_size (r_replay_cache (sv_relay (sy_server s))) = cap \<and>
     list_all (\<lambda>e. snd e \<noteq> None) (sy_log s)"

lemma psl_check_max:
  assumes "iterates ord" "psl_inv psl" "psl_check_at ord t1 t2 src len now psl = (d, psl')"
  shows "psl_inv psl' \<and> psl_max_entries psl' = psl_max_entries psl"
  using psl_inv_check [OF assms(1,2), of t1 t2 src len now] psl_check_unfold [OF assms(1,2), of t1 t2 src len now] assms(3)
  by simp

lemma process_shared_inv:
  assumes "gotham_ok G" "rc_inv (r_replay_cache (sv_relay w))" "process_shared G gen ln_f tr tp packet w = (r, w')"
  shows "rc_inv (r_replay_cache (sv_relay w')) \<and>
    rc_max_size (r_replay_cache (sv_relay w')) = rc_max_size (r_replay_cache (sv_relay w)) \<and> sv_sources w' = sv_sources w \<and>
    (r = None) = (fst (process G gen ln_f tr tp packet (sv_relay w) (sv_rng w)) = None)"
proof -
  obtain out where p: "process G gen ln_f tr tp packet (sv_relay w) (sv_rng w) = (out, sv_relay w', sv_rng w')"
    using process_shared_relay [OF assms(3)] by metis
  then have "relay_run G gen ln_f [(tr, tp, packet)] (sv_relay w) (sv_rng w) = ([out], sv_relay w', sv_rng w')" by simp
  from run_cache_inv [OF assms(1,2) this] show ?thesis
    using assms(3) by (auto simp: process_shared_def split: prod.splits option.splits)
qed

lemma list_all_remove1: "list_all P xs \<Longrightarrow> list_all P (remove1 x xs)"
  by (auto simp: list_all_iff dest: set_remove1_subset [THEN subsetD])

lemma step_inv:
  assumes "gotham_ok G" "unit_samples gen" "ln_is_number ln_f" "unat mean \<le> 2 ^ 33"
    and "sys_step G gen ln_f M D R cf s s'" "sys_inv G mean cap s"
  shows "sys_inv G mean cap s'"
  using assms(5)
proof cases
  case arrive
  then show ?thesis using assms(6) by (simp add: sys_inv_def on_arrive_inv)
next
  case (finish i)
  then show ?thesis using assms(6) by (simp add: sys_inv_def on_finish_inv)
next
  case (checked ord t1 t2 src packet t d psl)
  then show ?thesis using assms(6) psl_check_max [OF checked(2) _ checked(3)] by (simp add: sys_inv_def server_ok_def)
next
  case (handled packet tr tp r w out)
  have ok: "server_ok G mean (sy_server s)" "rc_inv (r_replay_cache (sv_relay (sy_server s)))" using assms(6) by (simp_all add: sys_inv_def)
  note safe = process_shared_safe [OF assms(1-4) ok(1) handled(3)] and inv = process_shared_inv [OF assms(1) ok(2) handled(3)]
  with handled(1,4) assms(6) show ?thesis by (simp add: sys_inv_def)
next
  case (task_done tk)
  then show ?thesis using assms(6) by (simp add: sys_inv_def server_ok_def list_all_remove1)
next
  case (delivered d payload mb surb_ok ship others now)
  then show ?thesis using assms(6) by (simp add: sys_inv_def server_ok_def list_all_remove1)
qed (use assms(6) in \<open>simp_all add: sys_inv_def server_ok_def\<close>)

interpretation si: step_invariant "sys_step G gen ln_f M D R cf"
  "\<lambda>s. gotham_ok G \<and> unit_samples gen \<and> ln_is_number ln_f \<and> unat mean \<le> 2 ^ 33 \<and> sys_inv G mean cap s"
  for G gen ln_f M D R cf mean cap
  by unfold_locales (blast intro: step_inv)

lemma load_cache_inv:
  assumes "rc_inv c" "load lo rd now unix c = (res, c')"
  shows "rc_inv c' \<and> rc_max_size c' = rc_max_size c"
proof (cases "\<exists>bs es n. rd = Inr bs \<and> restore_at lo es now unix c = (n, c') \<and> res = Inr n")
  case True
  then show ?thesis using restore_at_spec [OF assms(1)] by blast
next
  case False
  then have "c' = c" using assms(2)
    by (auto simp: load_def Let_def split: sum.splits io_error.splits if_splits prod.splits)
  with assms(1) show ?thesis by simp
qed

lemma configure_relay_inv:
  "rc_inv (r_replay_cache (configure_relay a bo sk files)) \<and> rc_max_size (r_replay_cache (configure_relay a bo sk files)) = ra_replay_size a"
proof -
  let ?c = "rc_new (ra_replay_size a) (from_secs (unat (ra_replay_ttl_secs a)))"
  have "rc_max_size ?c = ra_replay_size a" by (simp add: rc_new_def)
  moreover have "rc_inv (snd (load lo rd now unix ?c)) \<and> rc_max_size (snd (load lo rd now unix ?c)) = rc_max_size ?c" for lo rd now unix
    by (rule load_cache_inv [OF rc_new_inv surjective_pairing])
  ultimately show ?thesis using rc_new_inv
    by (auto simp: configure_relay_def Let_def with_replay_persistence_def with_rate_limit_def relay_new_def strict_header_v3_def
        split: option.splits)
qed

lemma started_inv:
  assumes "run_setup X G S A upnp delivery a bo files = Inr plan" "start_listener rng tunnels server client plan = Some (Inr (li, cf, w))"
  shows "sys_inv G (ra_delay_micros a) (ra_replay_size a) (system_start li w files)"
proof -
  from run_setup_plan [OF assms(1)] obtain sk where p: "rp_relay plan = configure_relay a bo sk files" by metis
  from assms(2) have "li = listener_new" "sv_relay w = rp_relay plan" "sv_sources w = initial_sources" "sv_tasks w = []"
    by (auto simp: start_listener_def run_relay_listener_with_services_shared_def serve_endpoint_with_services_shared_def
        split: option.splits sum.splits)
  moreover have "psl_inv initial_sources" "psl_max_entries initial_sources = PER_SOURCE_MAX_TRACKED"
    unfolding initial_sources_def by (rule psl_new_inv) (simp add: psl_new_def PER_SOURCE_MAX_TRACKED_def)
  ultimately show ?thesis
    using configure_relay_inv [of a bo sk files] by (simp add: sys_inv_def system_start_def listener_new_inv server_ok_def p)
qed

text \<open>C14. A started relay stays within its bounds: whatever arguments (with a mean hop delay of at most \<open>2 ^ 33\<close>
  microseconds) and files it was started with, whatever arrives and however its tasks interleave, it never has more than 1024 connections in flight, 4096 tracked sources or more replay entries than it was told to keep;
  no packet ever makes it panic; and every task it has scheduled carries a packet of the right size with a bounded delay.\<close>

theorem running_relay_bounded:
  assumes "gotham_ok G" "unit_samples gen" "ln_is_number ln_f" "unat (ra_delay_micros a) \<le> 2 ^ 33"
    and "run_setup X G S A upnp delivery a bo files = Inr plan" "start_listener rng tunnels server client plan = Some (Inr (li, cf, w))"
    and "sys_steps G gen ln_f M (disk_of S m a) R cf (system_start li w files) s"
  shows "length (li_inflight (sy_listener s)) \<le> 1024 \<and> tracked (sv_sources (sy_server s)) \<le> 4096 \<and>
    replay_cache_len (sv_relay (sy_server s)) \<le> max 1 (ra_replay_size a) \<and> list_all (\<lambda>e. snd e \<noteq> None) (sy_log s) \<and>
    list_all (task_ok G (max MAX_HOP_DELAY (100 * from_micros (unat (ra_delay_micros a))))) (sv_tasks (sy_server s))"
proof -
  have inv: "sys_inv G (ra_delay_micros a) (ra_replay_size a) s"
    using si.reach [OF assms(7)] started_inv [OF assms(5,6)] assms(1-4) by blast
  then have "replay_cache_len (sv_relay (sy_server s)) \<le> max 1 (ra_replay_size a)"
    by (auto simp: sys_inv_def replay_cache_len_def rc_len_def rc_inv_len) (auto simp: rc_inv_def)
  with inv show ?thesis
    by (auto simp: sys_inv_def listener_inv_def MAX_INFLIGHT_CONNS_def server_ok_def psl_inv_def tracked_def PER_SOURCE_MAX_TRACKED_def)
qed

definition toy_box :: "(bytes, byte) mailbox_api" where
  "toy_box =
     \<lparr>req_from_bytes = (\<lambda>b. None), resp_to_bytes = (\<lambda>r. None), mb_deposit = (\<lambda>mb bid e now ttl. (None, mb @ e)),
      mb_fetch_batch = (\<lambda>mb bid now budget. (([mb], False), [])), auth_pk = (\<lambda>a. [a]),
      auth_verify = (\<lambda>a shared binding bid. False), mb_x25519 = (\<lambda>sk pk. pk), surb_fetch_binding = (\<lambda>b. b),
      unseal = (\<lambda>sk e. Some ([], e)), max_payload_size = 1000\<rparr>"

theorem running_relay_bounded_witness:
  "\<exists>plan li cf w s out. run_setup std_hex toy_gotham toy_store toy_gossip (\<lambda>_ _. Inl []) (Inr ()) toy_args toy_boot toy_files = Inr plan \<and>
     start_listener () () (Inr ()) (Inr ()) plan = Some (Inr (li, cf, w)) \<and>
     sys_steps toy_gotham half_gen toy_ln toy_box (disk_of toy_store 420 toy_args) toy_roster cf (system_start li w toy_files) s \<and>
     sy_log s = [((10, 10, [4, 0, 1, 2]), out)] \<and> out \<noteq> None \<and> replay_cache_len (sv_relay (sy_server s)) \<le> 10"
proof -
  obtain plan where p: "run_setup std_hex toy_gotham toy_store toy_gossip (\<lambda>_ _. Inl []) (Inr ()) toy_args toy_boot toy_files = Inr plan"
    by (rule toy_setup)
  have "rendezvous_dial std_hex toy_args = Inr (rp_dial plan)" by (rule run_setup_plan [OF p])
  then have "rp_dial plan = None" by (simp add: rendezvous_dial_def toy_args_def)
  then obtain li cf w where st: "start_listener () () (Inr ()) (Inr ()) plan = Some (Inr (li, cf, w))"
    by (simp add: start_listener_def run_relay_listener_with_services_shared_def serve_endpoint_with_services_shared_def)
  let ?s0 = "system_start li w toy_files"
  let ?out = "fst (process toy_gotham half_gen toy_ln 10 10 [4, 0, 1, 2] (sv_relay w) (sv_rng w))"
  obtain s where s: "sys_steps toy_gotham half_gen toy_ln toy_box (disk_of toy_store 420 toy_args) toy_roster cf ?s0 s" "sy_log s = [((10, 10, [4, 0, 1, 2]), ?out)]"
    using sys_packet [of ?s0 toy_gotham half_gen toy_ln toy_box "disk_of toy_store 420 toy_args" toy_roster cf 10 10 "[4, 0, 1, 2]"] by (force simp: system_start_def)
  have "unit_samples half_gen" "ln_is_number toy_ln"
    by (auto simp: unit_samples_def half_gen_def ln_is_number_def toy_ln_def intro: exI [of _ "1 / 2"])
  then have "list_all (\<lambda>e. snd e \<noteq> None) (sy_log s)" "replay_cache_len (sv_relay (sy_server s)) \<le> max 1 (ra_replay_size toy_args)"
    using running_relay_bounded [OF toy_gotham_ok _ _ _ p st s(1)] by (auto simp: toy_args_def)
  then show ?thesis using p st s by (auto simp: toy_args_def)
qed

end
