(* ===== verification/Program.thy ===== *)
theory Program
  imports System
begin

section \<open>The program\<close>

text \<open>
  The entry point of \<^verbatim>\<open>crypto-gotham-relay/src/main.rs\<close>: the five commands and \<^verbatim>\<open>main\<close>, which runs one of them. What the
  commands use of the machine and of other crates is the record \<open>host\<close>. The commands are confined to the files they are told to
  write; for \<^verbatim>\<open>run\<close> this goes through the whole life of a relay, from its arguments over the interleaved tasks of the theory
  \<open>System\<close> to the shutdown.
\<close>

datatype cmd =
    Keygen path
  | Pubkey path
  | Doctor path "string list" nat
  | Run run_args
  | SignDirectory path path path u64

record ('h, 'k, 'm, 's, 'cert, 'set, 'r, 'doc, 'signed) host =
  ho_hex :: hex_codec
  ho_gotham :: "('h, 'k) gotham"
  ho_store :: "('m, 's) store_api"
  ho_gossip :: "('cert, 'set, 'r) gossip_api"
  ho_directory :: "('doc, 'signed) directory_api"
  ho_random :: bytes
  ho_fate :: file_fate
  ho_default_mode :: nat
  ho_from_str :: "string \<Rightarrow> json option"
  ho_client :: bool
  ho_http :: "string \<Rightarrow> http_get"
  ho_upnp :: "u16 \<Rightarrow> u32 \<Rightarrow> string + string"
  ho_delivery :: "transport_error + unit"
  ho_boot :: boot
  ho_serve :: "('m, 'r) run_plan \<Rightarrow> fs \<Rightarrow> relay \<times> 'm option \<times> fs"
  ho_exit :: exit_turn

text \<open>How the process ends: with an error, after printing a line, with an exit code, by a panic, or silently.\<close>

datatype main_result = Failed io_error | Printed string | Exited int | Panicked | Finished

definition main :: "('h, 'k, 'm, 's, 'cert, 'set, 'r, 'doc, 'signed) host \<Rightarrow> cmd \<Rightarrow> fs \<Rightarrow> main_result \<times> fs" where
  "main E c files =
     (case c of
        Keygen key_file \<Rightarrow>
          (case keygen (ho_hex E) (public_key (ho_gotham E)) (ho_fate E) (ho_random E) key_file files of
             (Inl e, files1) \<Rightarrow> (Failed e, files1)
           | (Inr line, files1) \<Rightarrow> (Printed line, files1))
      | Pubkey key_file \<Rightarrow>
          (case pubkey (ho_hex E) (public_key (ho_gotham E)) key_file files of
             Inl e \<Rightarrow> (Failed e, files)
           | Inr line \<Rightarrow> (Printed line, files))
      | Doctor key_file authority_url quorum \<Rightarrow>
          (case doctor (ho_hex E) (public_key (ho_gotham E)) (ho_from_str E) (ho_client E) (ho_http E) key_file authority_url quorum files of
             Inl e \<Rightarrow> (Failed e, files)
           | Inr None \<Rightarrow> (Panicked, files)
           | Inr (Some (v, code)) \<Rightarrow> (Exited code, files))
      | Run a \<Rightarrow>
          (case run (ho_hex E) (ho_gotham E) (ho_store E) (ho_gossip E) (ho_upnp E) (ho_delivery E) (ho_default_mode E) (ho_exit E)
                  (ho_serve E) a (ho_boot E) files of
             (Inl e, files1) \<Rightarrow> (Failed e, files1)
           | (Inr _, files1) \<Rightarrow> (Finished, files1))
      | SignDirectory authority_key relays output valid_secs \<Rightarrow>
          (case sign_directory (ho_hex E) (ho_directory E) (ho_default_mode E) (ho_fate E) authority_key relays output valid_secs files of
             (Inl e, files1) \<Rightarrow> (Failed e, files1)
           | (Inr _, files1) \<Rightarrow> (Finished, files1)))"

subsection \<open>The files a command may change\<close>

definition store_files :: "path option \<Rightarrow> path set" where
  "store_files store = (case store of None \<Rightarrow> {} | Some p \<Rightarrow> {p, with_extension ''tmp'' p})"

fun may_change :: "cmd \<Rightarrow> fs \<Rightarrow> path set" where
  "may_change (Keygen p) files = (if files p = None then {p} else {})"
| "may_change (Pubkey p) files = {}"
| "may_change (Doctor p urls quorum) files = {}"
| "may_change (Run a) files =
     store_files (ra_replay_cache_path a) \<union> (if ra_mailbox a then store_files (ra_mailbox_store a) else {})"
| "may_change (SignDirectory k rs out v) files = {out}"

definition touches :: "path set \<Rightarrow> fs \<Rightarrow> fs \<Rightarrow> bool" where
  "touches A files files' \<longleftrightarrow> (\<forall>p. p \<notin> A \<longrightarrow> files' p = files p)"

lemma touches_refl [simp]: "touches A files files"
  by (simp add: touches_def)

lemma touches_trans: "touches A f1 f2 \<Longrightarrow> touches A f2 f3 \<Longrightarrow> touches A f1 f3"
  by (simp add: touches_def)

lemma touches_update [simp]: "p \<in> A \<Longrightarrow> touches A f1 (f2(p := x)) \<longleftrightarrow> touches A f1 f2"
  by (auto simp: touches_def)

lemma touches_write_encoded:
  "store_files (Some p) \<subseteq> A \<Longrightarrow> touches A files (snd (write_encoded fate buf p files))"
  by (auto simp: touches_def store_files_def intro!: write_encoded_others)

lemma touches_rename:
  "store_files (Some q) \<subseteq> A \<Longrightarrow> touches A files (snd (rename_file (with_extension ''tmp'' q) q files))"
  by (auto simp: rename_file_def store_files_def split: option.splits)

lemma touches_persist_mailbox:
  assumes "store_files (Some q) \<subseteq> A" "\<And>f. touches A f (between f)"
  shows "touches A files (snd (persist_mailbox S m fate between q snap files))"
proof -
  have "touches A files (between (files(with_extension ''tmp'' q \<mapsto> x)))" for x
    using assms by (auto simp: store_files_def intro: touches_trans [OF _ assms(2)])
  then show ?thesis
    using assms(1) touches_rename [OF assms(1)]
    by (auto simp: persist_mailbox_def Let_def store_files_def intro: touches_trans split: option.splits store_fate.splits)
qed

subsection \<open>The running relay writes its stores only\<close>

text \<open>Which files the tasks of a running relay are about to write, and that they changed no other.\<close>

definition files_inv :: "path set \<Rightarrow> ('m, 's) disk \<Rightarrow> fs \<Rightarrow> ('m, 'r, 't, 'g) system \<Rightarrow> bool" where
  "files_inv A D files s \<longleftrightarrow>
     store_files (r_replay_path (sv_relay (sy_server s))) \<subseteq> A \<and>
     (sv_mailbox (sy_server s) \<noteq> None \<longrightarrow> store_files (dk_store D) \<subseteq> A) \<and>
     store_files (map_option snd (sy_saving s)) \<subseteq> A \<and> store_files (map_option snd (sy_storing s)) \<subseteq> A \<and>
     store_files (sy_renaming s) \<subseteq> A \<and> touches A files (sy_files s)"

lemma store_files_None [simp]: "store_files None = {}"
  by (simp add: store_files_def)

lemma snapshot_path: "store_files (dk_store D) \<subseteq> A \<Longrightarrow> store_files (map_option snd (snapshot_of D mb)) \<subseteq> A"
  by (auto simp: snapshot_of_def store_files_def split: option.splits)

lemma step_files:
  assumes "gotham_ok G" "sys_step G gen ln_f M D R cf s s'" "files_inv A D files s"
  shows "files_inv A D files s'"
  using assms(2)
proof cases
  case (handled packet tr tp r w out)
  have "r_replay_path (sv_relay w) = r_replay_path (sv_relay (sy_server s))"
    using process_config [OF assms(1) process_shared_relay [OF handled(3)]] by simp
  moreover have "sv_mailbox w = sv_mailbox (sy_server s)"
    using handled(3) by (auto simp: process_shared_def split: prod.splits option.splits)
  ultimately show ?thesis using assms(3) handled(1) by (simp add: files_inv_def)
next
  case (pruned mb mb' now)
  then show ?thesis using assms(3) by (simp add: files_inv_def snapshot_path)
next
  case (stored bs q tmp n)
  then show ?thesis using assms(3) by (simp add: files_inv_def store_files_def)
next
  case (renamed q)
  then show ?thesis using assms(3) touches_rename [of q A "sy_files s"] by (auto simp: files_inv_def intro: touches_trans)
next
  case (encoded now unix x)
  then show ?thesis using assms(3) by (auto simp: files_inv_def encode_replay_def split: option.splits)
next
  case (written buf p fate)
  then show ?thesis using assms(3) touches_write_encoded [of p A "sy_files s"] by (auto simp: files_inv_def intro: touches_trans)
qed (use assms(3) in \<open>simp_all add: files_inv_def\<close>)

interpretation sf: step_invariant "sys_step G gen ln_f M D R cf" "\<lambda>s. gotham_ok G \<and> files_inv A D files s"
  for G gen ln_f M D R cf A files
  by unfold_locales (blast intro: step_files)

text \<open>
  What serving gives: the relay, the mailbox and the files of a state that the tasks reach from the relay and the mailbox of
  the plan.
\<close>

definition served :: "('h, 'k) gotham \<Rightarrow> ('g \<Rightarrow> f64 \<times> 'g) \<Rightarrow> (f64 \<Rightarrow> f64) \<Rightarrow> ('m, 'a) mailbox_api \<Rightarrow> ('m, 's) disk
    \<Rightarrow> 'r roster_api \<Rightarrow> config \<Rightarrow> 't \<Rightarrow> ('m, 'r) run_plan \<Rightarrow> fs \<Rightarrow> relay \<times> 'm option \<times> fs \<Rightarrow> bool" where
  "served G gen ln_f M D R cf tunnels plan files res \<longleftrightarrow>
     (\<exists>li w s. sv_relay w = rp_relay plan \<and> sv_mailbox w = rp_mailbox plan \<and> sv_rendezvous w = tunnels \<and>
        sys_steps G gen ln_f M D R cf (system_start li w files) s \<and>
        res = (sv_relay (sy_server s), sv_mailbox (sy_server s), sy_files s))"

lemma run_confined:
  assumes "gotham_ok G" "store_files (r_replay_path (rp_relay plan)) \<subseteq> A" "rp_mailbox plan \<noteq> None \<Longrightarrow> store_files (ra_mailbox_store a) \<subseteq> A"
    and "served G gen ln_f M (disk_of S m a) R cf tunnels plan files (relay, mailbox, files1)"
    and "\<And>f. touches A f (ex_between ex f)"
  shows "touches A files (run_shutdown S m ex a mailbox relay files1)"
proof -
  from assms(4) obtain li w s where s: "sv_relay w = rp_relay plan" "sv_mailbox w = rp_mailbox plan" "sv_rendezvous w = tunnels"
    "sys_steps G gen ln_f M (disk_of S m a) R cf (system_start li w files) s"
    "relay = sv_relay (sy_server s)" "mailbox = sv_mailbox (sy_server s)" "files1 = sy_files s"
    by (auto simp: served_def)
  have "files_inv A (disk_of S m a) files (system_start li w files)"
    using assms(2,3) s(1,2) by (simp add: files_inv_def system_start_def disk_of_def)
  with sf.reach [OF s(4), of A files] assms(1) have "files_inv A (disk_of S m a) files s" by blast
  then have inv: "store_files (r_replay_path relay) \<subseteq> A" "mailbox \<noteq> None \<longrightarrow> store_files (ra_mailbox_store a) \<subseteq> A"
    "touches A files files1"
    by (simp_all add: files_inv_def disk_of_def s(5-7))
  define files2 where "files2 = (case (mailbox, ra_mailbox_store a) of
      (Some mb, Some p) \<Rightarrow> snd (persist_mailbox S m (ex_store ex) (ex_between ex) p (st_snapshot S mb) files1) | _ \<Rightarrow> files1)"
  have "touches A files files2"
    using inv(2,3) unfolding files2_def
    by (auto intro!: touches_trans [OF inv(3) touches_persist_mailbox [OF _ assms(5)]] split: option.splits)
  moreover have "touches A files2 (snd (persist_replay (ex_write ex) (ex_now ex) (ex_unix ex) relay files2))"
    using inv(1) touches_write_encoded
    by (auto simp: persist_replay_def save_def split: option.splits prod.splits) (metis snd_conv)
  ultimately show ?thesis unfolding run_shutdown_def Let_def files2_def [symmetric] by (rule touches_trans)
qed

lemma run_setup_stores:
  assumes "run_setup X G S A upnp delivery a bo files = Inr plan"
  shows "r_replay_path (rp_relay plan) = ra_replay_cache_path a" "rp_mailbox plan \<noteq> None \<longleftrightarrow> ra_mailbox a"
proof -
  from run_setup_plan [OF assms] obtain sk where "rp_relay plan = configure_relay a bo sk files"
    "rp_mailbox plan = (if ra_mailbox a then Some (load_mailbox S (bo_unix bo) (ra_mailbox_store a) files) else None)" by metis
  then show "r_replay_path (rp_relay plan) = ra_replay_cache_path a" "rp_mailbox plan \<noteq> None \<longleftrightarrow> ra_mailbox a" by simp_all
qed

text \<open>C15. Every command changes only the files it is told to write. \<^verbatim>\<open>keygen\<close> writes the key file, and only when it does not
  exist; \<^verbatim>\<open>pubkey\<close> and \<^verbatim>\<open>doctor\<close> write nothing; \<^verbatim>\<open>sign-directory\<close> writes its output; and a relay that runs, however long it
  serves, whatever arrives, however its tasks interleave and whichever of its writes fail, changes only its replay cache, its mailbox
  store when it hosts a mailbox, and their temporary files.\<close>

theorem commands_confined:
  assumes "gotham_ok (ho_gotham E)" "main E c files = (res, files')"
    and "\<And>a plan. c = Run a \<Longrightarrow>
      run_setup (ho_hex E) (ho_gotham E) (ho_store E) (ho_gossip E) (ho_upnp E) (ho_delivery E) a (ho_boot E) files = Inr plan \<Longrightarrow>
      served (ho_gotham E) gen ln_f M (disk_of (ho_store E) (ho_default_mode E) a) R cf tunnels plan files (ho_serve E plan files)"
    and "\<And>f. touches (may_change c files) f (ex_between (ho_exit E) f)"
  shows "touches (may_change c files) files files'"
proof (cases c)
  case (Keygen p)
  with assms(2) show ?thesis
    by (auto simp: main_def keygen_def write_key_file_def Let_def split: prod.splits sum.splits if_splits file_fate.splits)
next
  case (Pubkey p)
  with assms(2) show ?thesis by (auto simp: main_def split: sum.splits)
next
  case (Doctor p urls quorum)
  with assms(2) show ?thesis by (auto simp: main_def split: sum.splits option.splits)
next
  case (Run a)
  let ?start = "run_setup (ho_hex E) (ho_gotham E) (ho_store E) (ho_gossip E) (ho_upnp E) (ho_delivery E) a (ho_boot E) files"
  show ?thesis
  proof (cases ?start)
    case (Inl e)
    with assms(2) Run show ?thesis by (simp add: main_def run_def)
  next
    case (Inr plan)
    obtain relay mailbox files1 where sv: "ho_serve E plan files = (relay, mailbox, files1)" by (metis prod_cases3)
    have "files' = run_shutdown (ho_store E) (ho_default_mode E) (ho_exit E) a mailbox relay files1"
      using assms(2) by (simp add: main_def Run run_def Inr sv)
    moreover have "touches (may_change c files) files \<dots>"
    proof (rule run_confined [OF assms(1)])
      show "store_files (r_replay_path (rp_relay plan)) \<subseteq> may_change c files" by (simp add: Run run_setup_stores(1) [OF Inr])
      show "store_files (ra_mailbox_store a) \<subseteq> may_change c files" if "rp_mailbox plan \<noteq> None"
        using iffD1 [OF run_setup_stores(2) [OF Inr] that] by (simp add: Run)
    qed (use assms(3) [OF Run Inr] sv assms(4) in simp_all)
    ultimately show ?thesis by simp
  qed
next
  case (SignDirectory k rs out v)
  with assms(2) show ?thesis
    by (auto simp: main_def sign_directory_def Let_def split: prod.splits sum.splits file_fate.splits)
qed

definition clean_exit :: exit_turn where
  "clean_exit = \<lparr>ex_store = Store_ok, ex_between = (\<lambda>f. f), ex_write = Write_ok, ex_now = 10000000000, ex_unix = 90\<rparr>"

text \<open>A machine on which the relay saves its cache once while it serves.\<close>

definition toy_host :: "(bytes, unit, bytes, bytes, unit, unit, byte list, directory_descriptor list, directory_descriptor list) host" where
  "toy_host =
     \<lparr>ho_hex = std_hex, ho_gotham = toy_gotham, ho_store = toy_store, ho_gossip = toy_gossip, ho_directory = toy_directory,
      ho_random = replicate 32 1, ho_fate = File_ok, ho_default_mode = 420, ho_from_str = (\<lambda>_. None), ho_client = True,
      ho_http = (\<lambda>_. GetFailed), ho_upnp = (\<lambda>_ _. Inl []), ho_delivery = Inr (), ho_boot = toy_boot,
      ho_serve = (\<lambda>plan files. (rp_relay plan, rp_mailbox plan,
        snd (persist_replay Write_ok 7 200 (rp_relay plan) files))),
      ho_exit = clean_exit\<rparr>"

lemma toy_served:
  fixes gen :: "'g \<Rightarrow> f64 \<times> 'g" and R :: "'r roster_api" and plan :: "('m, 'r) run_plan"
  assumes "r_replay_path (rp_relay plan) = Some p"
  shows "served G gen ln_f M D R cf () plan files
    (rp_relay plan, rp_mailbox plan, snd (persist_replay Write_ok 7 200 (rp_relay plan) files))"
proof -
  let ?w = "\<lparr>sv_relay = rp_relay plan, sv_sources = initial_sources, sv_rng = undefined, sv_tasks = [], sv_mailbox = rp_mailbox plan,
    sv_roster = None, sv_rendezvous = ()\<rparr> :: ('m, 'r, unit, 'g) server"
  let ?s0 = "system_start listener_new ?w files" and ?buf = "encode 7 200 (r_replay_cache (rp_relay plan))"
  let ?s1 = "?s0\<lparr>sy_saving := Some (?buf, p)\<rparr>"
  let ?s2 = "?s1\<lparr>sy_files := snd (write_encoded Write_ok ?buf p (sy_files ?s1)), sy_saving := None\<rparr>"
  have 1: "sys_step G gen ln_f M D R cf ?s0 ?s1"
    by (rule encoded [where now = 7 and unix = 200]) (simp_all add: system_start_def encode_replay_def assms)
  have 2: "sys_step G gen ln_f M D R cf ?s1 ?s2" by (rule written) simp
  from 1 2 have "sys_steps G gen ln_f M D R cf ?s0 ?s2" by (meson rtranclp.rtrancl_into_rtrancl r_into_rtranclp)
  then show ?thesis
    unfolding served_def
    by (intro exI [of _ listener_new] exI [of _ ?w] exI [of _ ?s2])
      (simp add: system_start_def persist_replay_def save_def assms split: prod.splits)
qed

theorem commands_confined_witness:
  "snd (main toy_host (Run toy_args) toy_files) toy_path = toy_files toy_path"
proof -
  have "touches (may_change (Run toy_args) toy_files) toy_files (snd (main toy_host (Run toy_args) toy_files))"
  proof (rule commands_confined [OF _ surjective_pairing])
    show "gotham_ok (ho_gotham toy_host)" by (simp add: toy_host_def toy_gotham_ok)
    show "touches (may_change (Run toy_args) toy_files) f (ex_between (ho_exit toy_host) f)" for f
      by (simp add: toy_host_def clean_exit_def)
    fix a plan
    assume a: "Run toy_args = Run a"
      "run_setup (ho_hex toy_host) (ho_gotham toy_host) (ho_store toy_host) (ho_gossip toy_host) (ho_upnp toy_host) (ho_delivery toy_host)
        a (ho_boot toy_host) toy_files = Inr plan"
    have "r_replay_path (rp_relay plan) = Some \<lparr>pdir = ''/'', pstem = ''replay'', pext = None\<rparr>"
      unfolding run_setup_stores(1) [OF a(2)] cmd.inject(4) [THEN iffD1, OF a(1), symmetric] by (simp add: toy_args_def)
    from toy_served [OF this] show "served (ho_gotham toy_host) half_gen toy_ln toy_box (disk_of (ho_store toy_host) (ho_default_mode toy_host) a)
        toy_roster toy_config () plan toy_files (ho_serve toy_host plan toy_files)" by (simp add: toy_host_def)
  qed
  then show ?thesis by (simp add: touches_def store_files_def toy_args_def toy_path_def with_extension_def)
qed

text \<open>A listener that cannot bind does not show in how the process ends: once the relay is set up, \<^verbatim>\<open>run\<close> returns successfully.\<close>

lemma bind_failure_hidden:
  assumes "run_setup (ho_hex E) (ho_gotham E) (ho_store E) (ho_gossip E) (ho_upnp E) (ho_delivery E) a (ho_boot E) files = Inr plan"
    and "rp_dial plan = None"
  shows "start_listener rng tunnels (Inl e) client plan = Some (Inl e) \<and> fst (main E (Run a) files) = Finished"
  using assms
  by (cases "ho_serve E plan files")
    (simp add: start_listener_def run_relay_listener_with_services_shared_def main_def run_def)

end
