(* ===== verification/Connections.thy ===== *)
theory Connections
  imports System "HOL-Library.Multiset"
begin

section \<open>Connections are runs of the system\<close>

text \<open>
  The step relation of the theory \<open>System\<close> was stated lock by lock. Here it is tied to the tasks as the code writes them: whatever the
  task of an accepted connection does to the shared state, a sequence of steps does. The same holds for what the other tasks
  do between two locks of this one, so that connections compose.
\<close>

text \<open>A state of the server that steps can reach without taking away a packet another task waits with.\<close>

definition reached :: "(('m, 'r, 't, 'g) system \<Rightarrow> ('m, 'r, 't, 'g) system \<Rightarrow> bool) \<Rightarrow> ('m, 'r, 't, 'g) system
    \<Rightarrow> ('m, 'r, 't, 'g) server \<Rightarrow> bool" where
  "reached step s w \<longleftrightarrow> (\<exists>s'. step\<^sup>*\<^sup>* s s' \<and> sy_server s' = w \<and> mset (sy_pending s) \<subseteq># mset (sy_pending s'))"

definition runs_as :: "(('m, 'r, 't, 'g) system \<Rightarrow> ('m, 'r, 't, 'g) system \<Rightarrow> bool)
    \<Rightarrow> (('m, 'r, 't, 'g) server \<Rightarrow> ('m, 'r, 't, 'g) server) \<Rightarrow> bool" where
  "runs_as step f \<longleftrightarrow> (\<forall>s. reached step s (f (sy_server s)))"

lemma reached_refl [simp]: "reached step s (sy_server s)"
  by (auto simp: reached_def)

lemma runs_as_id: "runs_as step (\<lambda>w. w)"
  by (simp add: runs_as_def)

lemma reached_runs: "reached step s w \<Longrightarrow> runs_as step f \<Longrightarrow> reached step s (f w)"
  unfolding reached_def runs_as_def by (meson rtranclp_trans subset_mset.order_trans)

lemma runs_as_comp: "runs_as step f \<Longrightarrow> runs_as step g \<Longrightarrow> runs_as step (\<lambda>w. g (f w))"
  by (metis reached_runs runs_as_def)

lemma reached_step:
  assumes "step s s'" "mset (sy_pending s) \<subseteq># mset (sy_pending s')" "reached step s' w"
  shows "reached step s w"
proof -
  from assms(3) obtain s2 where s2: "step\<^sup>*\<^sup>* s' s2" "sy_server s2 = w" "mset (sy_pending s') \<subseteq># mset (sy_pending s2)"
    by (auto simp: reached_def)
  from assms(1) s2(1) have "step\<^sup>*\<^sup>* s s2" by (rule converse_rtranclp_into_rtranclp)
  with s2(2) subset_mset.order_trans [OF assms(2) s2(3)] show ?thesis unfolding reached_def by blast
qed

lemma reached_one: "step s s' \<Longrightarrow> mset (sy_pending s) \<subseteq># mset (sy_pending s') \<Longrightarrow> sy_server s' = w \<Longrightarrow> reached step s w"
  using reached_step [of step s s' w] reached_refl [of step s'] by blast

subsection \<open>Packets\<close>

lemma handled_step:
  assumes "packet \<in> set (sy_pending s)" "process_shared G gen ln_f tr tp packet (sy_server s) = (r, w)"
  shows "\<exists>s'. sys_step G gen ln_f M D R cf s s' \<and> sy_server s' = w \<and> sy_pending s' = remove1 packet (sy_pending s)"
proof -
  let ?s = "s\<lparr>sy_server := w, sy_pending := remove1 packet (sy_pending s), sy_log := sy_log s @ [((tr, tp, packet),
    fst (process G gen ln_f tr tp packet (sv_relay (sy_server s)) (sv_rng (sy_server s))))]\<rparr>"
  have "sys_step G gen ln_f M D R cf s ?s" by (rule handled [OF assms refl])
  moreover have "sy_server ?s = w" by simp
  moreover have "sy_pending ?s = remove1 packet (sy_pending s)" by simp
  ultimately show ?thesis by blast
qed

text \<open>A packet passes the check of its source, waits while others work, and is handled.\<close>

lemma runs_handle_packet:
  fixes between :: "('m, 'r, 't, 'g) server \<Rightarrow> ('m, 'r, 't, 'g) server"
  assumes "iterates ord" "runs_as (sys_step G gen ln_f M D R cf) between"
  shows "runs_as (sys_step G gen ln_f M D R cf) (\<lambda>w. snd (handle_packet G gen ln_f ord src tk between packet w))"
  unfolding runs_as_def
proof
  let ?step = "sys_step G gen ln_f M D R cf"
  fix s :: "('m, 'r, 't, 'g) system"
  obtain d psl where c: "psl_check_at ord (tk_new1 tk) (tk_new2 tk) src (length packet) (tk_check tk) (sv_sources (sy_server s)) = (d, psl)"
    by fastforce
  let ?w1 = "(sy_server s)\<lparr>sv_sources := psl\<rparr>"
  let ?s1 = "s\<lparr>sy_server := ?w1, sy_pending := (if is_allowed d then sy_pending s @ [packet] else sy_pending s)\<rparr>"
  have 1: "?step s ?s1" by (rule checked [OF assms(1) c])
  show "reached ?step s (snd (handle_packet G gen ln_f ord src tk between packet (sy_server s)))"
  proof (cases "is_allowed d")
    case False
    show ?thesis by (rule reached_one [of ?step s ?s1, OF 1]) (use c False in \<open>simp_all add: handle_packet_def Let_def\<close>)
  next
    case True
    from assms(2) have "reached ?step ?s1 (between (sy_server ?s1))" unfolding runs_as_def by blast
    then obtain s2 where 2: "?step\<^sup>*\<^sup>* ?s1 s2" "sy_server s2 = between ?w1" "mset (sy_pending ?s1) \<subseteq># mset (sy_pending s2)"
      by (auto simp: reached_def)
    obtain r w3 where p: "process_shared G gen ln_f (tk_rate tk) (tk_replay tk) packet (sy_server s2) = (r, w3)" by fastforce
    have pend: "add_mset packet (mset (sy_pending s)) \<subseteq># mset (sy_pending s2)" using 2(3) True by simp
    then have "packet \<in> set (sy_pending s2)" by (metis insert_subset_eq_iff set_mset_mset)
    from handled_step [OF this p, of M D R cf] obtain s3 where
      3: "?step s2 s3" and s3: "sy_server s3 = w3" "sy_pending s3 = remove1 packet (sy_pending s2)" by (elim exE conjE)
    from converse_rtranclp_into_rtranclp [of ?step, OF 1 2(1)] 3 have "?step\<^sup>*\<^sup>* s s3" by (rule rtranclp.rtrancl_into_rtrancl)
    moreover note s3(1)
    moreover have "mset (sy_pending s) \<subseteq># mset (sy_pending s3)"
      using pend by (simp add: s3(2) insert_subset_eq_iff)
    moreover have "snd (handle_packet G gen ln_f ord src tk between packet (sy_server s)) = w3"
      using c True p 2(2) by (simp add: handle_packet_def Let_def)
    ultimately show ?thesis unfolding reached_def by (intro exI [of _ s3] conjI) simp_all
  qed
qed

lemma runs_serve_connection:
  fixes others :: "nat \<Rightarrow> ('m, 'r, 't, 'g) server \<Rightarrow> ('m, 'r, 't, 'g) server"
  assumes "iterates ord" "\<And>i. runs_as (sys_step G gen ln_f M D R cf) (others i)"
  shows "runs_as (sys_step G gen ln_f M D R cf) (\<lambda>w. snd (serve_connection H G gen ln_f N ord src ticks others sk acc w))"
  unfolding runs_as_def
proof
  fix s :: "('m, 'r, 't, 'g) system"
  let ?reached = "reached (sys_step G gen ln_f M D R cf) s"
  have turn: "runs_as (sys_step G gen ln_f M D R cf) (packet_turn G gen ln_f ord src ticks others i packet)" for i packet
    unfolding packet_turn_def by (rule runs_as_comp [OF assms(2) runs_handle_packet [OF assms]])
  have "?reached (snd (serve_packets G gen ln_f N ord src ticks others 0 (sy_server s) l))" for l
    by (rule pk.keeps [where P = ?reached]) (simp_all add: reached_runs [OF _ turn])
  then show "?reached (snd (serve_connection H G gen ln_f N ord src ticks others sk acc (sy_server s)))"
    by (auto simp: serve_connection_def split: sum.splits prod.splits res.splits)
qed

subsection \<open>Mailbox and roster\<close>

text \<open>What other tasks do to the mailbox and to the roster, as changes of the server.\<close>

definition on_mailbox :: "('m \<Rightarrow> 'm) \<Rightarrow> ('m, 'r, 't, 'g) server \<Rightarrow> ('m, 'r, 't, 'g) server" where
  "on_mailbox f w = w\<lparr>sv_mailbox := map_option f (sv_mailbox w)\<rparr>"

definition on_roster :: "('r \<Rightarrow> 'r) \<Rightarrow> ('m, 'r, 't, 'g) server \<Rightarrow> ('m, 'r, 't, 'g) server" where
  "on_roster f w = w\<lparr>sv_roster := map_option f (sv_roster w)\<rparr>"

lemma on_mailbox_Some: "on_mailbox f (w\<lparr>sv_mailbox := Some mb\<rparr>) = w\<lparr>sv_mailbox := Some (f mb)\<rparr>"
  by (simp add: on_mailbox_def)

lemma on_roster_Some: "on_roster f (w\<lparr>sv_roster := Some roster\<rparr>) = w\<lparr>sv_roster := Some (f roster)\<rparr>"
  by (simp add: on_roster_def)

lemma runs_answer:
  "runs_as (sys_step G gen ln_f M D R cf)
     (on_mailbox (\<lambda>mb. snd (answer M (cf_static_sk cf) binding (cf_allow_unauth_fetch cf) now blob mb)))"
  unfolding runs_as_def
proof
  fix s
  show "reached (sys_step G gen ln_f M D R cf) s
      (on_mailbox (\<lambda>mb. snd (answer M (cf_static_sk cf) binding (cf_allow_unauth_fetch cf) now blob mb)) (sy_server s))"
  proof (cases "sv_mailbox (sy_server s)")
    case None
    then have "on_mailbox f (sy_server s) = sy_server s" for f by (simp add: on_mailbox_def)
    then show ?thesis by simp
  next
    case (Some mb)
    from answered [OF Some surjective_pairing] show ?thesis
      by (rule reached_one) (simp_all add: on_mailbox_def Some allow_unauthenticated_mailbox_fetch_def)
  qed
qed

lemma runs_merge: "runs_as (sys_step G gen ln_f M D R cf) (on_roster (merge_peer R now blob))"
  unfolding runs_as_def
proof
  fix s
  show "reached (sys_step G gen ln_f M D R cf) s (on_roster (merge_peer R now blob) (sy_server s))"
  proof (cases "sv_roster (sy_server s)")
    case None
    then have "on_roster f (sy_server s) = sy_server s" for f by (simp add: on_roster_def)
    then show ?thesis by simp
  next
    case (Some roster)
    from merged [OF Some] show ?thesis by (rule reached_one) (simp_all add: on_roster_def Some)
  qed
qed

lemma reached_tunnels: "reached (sys_step G gen ln_f M D R cf) s ((sy_server s)\<lparr>sv_rendezvous := tn\<rparr>)"
  by (rule reached_one [of "sys_step G gen ln_f M D R cf" s "s\<lparr>sy_server := (sy_server s)\<lparr>sv_rendezvous := tn\<rparr>\<rparr>", OF tunnels])
    simp_all

text \<open>
  The tasks that surround a connection are themselves runs of the system.
\<close>

definition surrounded :: "(('m, 'r, 't, 'g) system \<Rightarrow> ('m, 'r, 't, 'g) system \<Rightarrow> bool) \<Rightarrow> ('m, 'r, 't, 'g) surroundings \<Rightarrow> bool" where
  "surrounded step S \<longleftrightarrow>
     iterates (su_order S) \<and>
     (\<forall>i. runs_as step (su_server S i) \<and> runs_as step (on_mailbox (su_mailbox S i)) \<and> runs_as step (on_roster (su_roster S i)))"

lemma reached_mailbox:
  fixes s :: "('m, 'r, 't, 'g) system"
  assumes "\<And>i. runs_as (sys_step G gen ln_f M D R cf) (on_mailbox (others i) :: ('m, 'r, 't, 'g) server \<Rightarrow> _)"
    and "sv_mailbox (sy_server s) = Some mb"
  shows "reached (sys_step G gen ln_f M D R cf) s ((sy_server s)\<lparr>sv_mailbox :=
    Some (snd (serve_mailbox_connection H M N mx (cf_static_sk cf) (cf_allow_unauth_fetch cf) clock others mb acc))\<rparr>)"
proof -
  let ?P = "\<lambda>mb. reached (sys_step G gen ln_f M D R cf) s ((sy_server s)\<lparr>sv_mailbox := Some mb\<rparr>)"
  have "(sy_server s)\<lparr>sv_mailbox := Some mb\<rparr> = sy_server s" using assms(2) by (cases "sy_server s") simp
  then have start: "?P mb" by simp
  have "?P (mailbox_turn M (cf_static_sk cf) binding (cf_allow_unauth_fetch cf) clock others i blob mb')" if "?P mb'" for binding i blob mb'
    using reached_runs [OF reached_runs [OF that assms(1)] runs_answer]
    by (simp add: mailbox_turn_def on_mailbox_Some)
  then have "?P (fst (snd (serve_mailbox_loop M N mx (cf_static_sk cf) binding (cf_allow_unauth_fetch cf) clock others 0 mb l)))" for binding l
    by (intro ms.keeps [where P = ?P] start)
  with start show ?thesis
    by (auto simp: serve_mailbox_connection_def split: sum.splits prod.splits res.splits) (metis fst_conv snd_conv)
qed

lemma reached_roster:
  fixes s :: "('m, 'r, 't, 'g) system"
  assumes "\<And>i. runs_as (sys_step G gen ln_f M D R cf) (on_roster (others i) :: ('m, 'r, 't, 'g) server \<Rightarrow> _)"
    and "sv_roster (sy_server s) = Some roster"
  shows "reached (sys_step G gen ln_f M D R cf) s ((sy_server s)\<lparr>sv_roster :=
    Some (snd (serve_gossip_connection H R N mx sk clock others roster acc))\<rparr>)"
proof -
  let ?P = "\<lambda>roster. reached (sys_step G gen ln_f M D R cf) s ((sy_server s)\<lparr>sv_roster := Some roster\<rparr>)"
  have "(sy_server s)\<lparr>sv_roster := Some roster\<rparr> = sy_server s" using assms(2) by (cases "sy_server s") simp
  then have start: "?P roster" by simp
  have "?P (gossip_turn R clock others i blob r)" if "?P r" for i blob r
    using reached_runs [OF reached_runs [OF reached_runs [OF that assms(1)] runs_merge] assms(1)]
    by (simp add: gossip_turn_def on_roster_Some)
  then have "?P (fst (snd (serve_gossip_loop R N mx clock others 0 roster l)))" for l
    by (intro gs.keeps [where P = ?P] start)
  with start show ?thesis
    by (auto simp: serve_gossip_connection_def split: sum.splits prod.splits res.splits) (metis fst_conv snd_conv)
qed

lemma reached_dispatch:
  fixes s :: "('m, 'r, 't, 'g) system"
  assumes "surrounded (sys_step (be_gotham B) gen ln_f (be_mailbox B) D (be_roster B) cf) S"
  shows "reached (sys_step (be_gotham B) gen ln_f (be_mailbox B) D (be_roster B) cf) s (snd (dispatch B gen ln_f S cf conn (sy_server s)))"
proof -
  note su = assms [unfolded surrounded_def, THEN conjunct2, THEN spec]
  note ord = assms [unfolded surrounded_def, THEN conjunct1]
  note others = su [THEN conjunct1] and mb = reached_mailbox [OF su [THEN conjunct2, THEN conjunct1]]
    and rs = reached_roster [OF su [THEN conjunct2, THEN conjunct2]]
  let ?alpn = "negotiated_alpn (in_handshake_data conn)"
  consider "?alpn = Some MAILBOX_ALPN" | "?alpn = Some GOSSIP_ALPN" | "?alpn = Some RENDEZVOUS_ALPN"
    | "?alpn = Some RENDEZVOUS_QUERY_ALPN"
    | "?alpn \<notin> {Some MAILBOX_ALPN, Some GOSSIP_ALPN, Some RENDEZVOUS_ALPN, Some RENDEZVOUS_QUERY_ALPN}" by blast
  then show ?thesis
  proof cases
    case 1
    then show ?thesis
      by (cases "sv_mailbox (sy_server s)") (simp_all add: dispatch_def Let_def case_prod_beta mb)
  next
    case 2
    then have "?alpn \<noteq> Some MAILBOX_ALPN" using alpn_distinct by auto
    with 2 show ?thesis
      by (cases "sv_roster (sy_server s)") (simp_all add: dispatch_def Let_def case_prod_beta rs)
  next
    case 3
    then have "?alpn \<noteq> Some MAILBOX_ALPN" "?alpn \<noteq> Some GOSSIP_ALPN" using alpn_distinct by auto
    with 3 show ?thesis by (simp add: dispatch_def Let_def case_prod_beta reached_tunnels)
  next
    case 4
    then have "?alpn \<noteq> Some MAILBOX_ALPN" "?alpn \<noteq> Some GOSSIP_ALPN" "?alpn \<noteq> Some RENDEZVOUS_ALPN"
      using alpn_distinct by auto
    with 4 show ?thesis by (simp add: dispatch_def Let_def)
  next
    case 5
    then show ?thesis
      by (simp add: dispatch_def Let_def case_prod_beta
          runs_serve_connection [where others = "su_server S", OF ord others, unfolded runs_as_def, rule_format])
  qed
qed

text \<open>C8. The tasks of the listener implement the step relation: whatever a peer sends on an accepted connection, and whichever protocol
  it negotiated, the change its task makes to the shared state is a sequence of steps of the system, which leaves the packets of the
  other tasks waiting; provided that what the other tasks do between two of its locks is one. So every invariant of the steps is an
  invariant of the connections, in any number and interleaving.\<close>

theorem connection_refines_steps:
  fixes S :: "('m, 'r, 't, 'g) surroundings"
  assumes "surrounded (sys_step (be_gotham B) gen ln_f (be_mailbox B) D (be_roster B) cf) S"
  shows "runs_as (sys_step (be_gotham B) gen ln_f (be_mailbox B) D (be_roster B) cf)
    (\<lambda>w. snd (serve_incoming B gen ln_f S cf connecting w))"
  unfolding runs_as_def
proof
  fix s :: "('m, 'r, 't, 'g) system"
  show "reached (sys_step (be_gotham B) gen ln_f (be_mailbox B) D (be_roster B) cf) s
      (snd (serve_incoming B gen ln_f S cf connecting (sy_server s)))"
  proof (cases connecting)
    case (Inl e)
    then show ?thesis by (simp add: serve_incoming_def)
  next
    case (Inr conn)
    with reached_dispatch [OF assms] show ?thesis by (simp add: serve_incoming_def case_prod_beta)
  qed
qed

text \<open>A mixnet connection, while other connections use the mailbox and the roster.\<close>

theorem connection_refines_steps_witness:
  "runs_as (sys_step toy_gotham half_gen toy_ln toy_mailbox toy_disk toy_roster toy_config)
     (\<lambda>w. snd (serve_incoming toy_backends half_gen toy_ln
        (toy_surroundings\<lparr>su_mailbox := \<lambda>i mb. snd (answer toy_mailbox [1] [3] False 0 [0] mb),
           su_roster := \<lambda>i. merge_peer toy_roster 0 [2]\<rparr>) toy_config
        (Inr \<lparr>in_handshake_data = Some (Some (Some MIXNET_ALPN)), in_src_ip = [10, 0, 0, 1],
           in_accepted = Inr (toy_stream\<lparr>lk_in := hs_frame [0] @ hs_frame [2]\<rparr>)\<rparr>) w))"
proof -
  let ?S = "toy_surroundings\<lparr>su_mailbox := \<lambda>i mb. snd (answer toy_mailbox [1] [3] False 0 [0] mb),
    su_roster := \<lambda>i. merge_peer toy_roster 0 [2]\<rparr>"
  have "surrounded (sys_step toy_gotham half_gen toy_ln toy_mailbox toy_disk toy_roster toy_config) ?S"
    using iterates_id
    by (simp add: surrounded_def toy_surroundings_def runs_as_id runs_merge toy_config_def
        runs_answer [where cf = toy_config, unfolded toy_config_def, simplified])
  then show ?thesis
    using connection_refines_steps [where B = toy_backends and gen = half_gen and ln_f = toy_ln and D = toy_disk and cf = toy_config and S = ?S]
    by (simp add: toy_backends_def)
qed

end
