(* ===== verification/Delivery.thy ===== *)
theory Delivery
  imports Command_Line
begin

section \<open>From a client to a mailbox\<close>

text \<open>
  What a client sends, through the relays of its path, to what the last of them does with it: the components of the
  theories \<open>Client\<close>, \<open>Process\<close>, \<open>Listener\<close> and \<open>Mailbox_Service\<close> put together. Also the example program
  \<^verbatim>\<open>crypto-gotham-relay/examples/testnet_send.rs\<close>, which sends one sealed message over the relays of a directory file.
\<close>

subsection \<open>The example program\<close>

datatype testnet_error = Usage | ReadError io_error | ParseError | NewError transport_error | SendSealedError client_error

definition testnet_body :: bytes where
  "testnet_body = ascii ''hello over a real 3-process Gotham testnet''"

text \<open>
  \<open>from_json\<close> is the parser of signed directories, which gives the relays; \<open>recipient_sk\<close> and \<open>sender_sk\<close> are the two random secrets.
\<close>

definition testnet_send :: "('h, 'k) gotham \<Rightarrow> ('h, 'k, 'g) sender_crypto \<Rightarrow> ('g \<Rightarrow> f64 \<times> 'g) \<Rightarrow> (f64 \<Rightarrow> f64)
    \<Rightarrow> (bytes \<times> u16 \<Rightarrow> bytes \<Rightarrow> bytes \<Rightarrow> bytes \<Rightarrow> unit res) \<Rightarrow> bytes \<Rightarrow> (bytes \<Rightarrow> relay_descriptor list option) \<Rightarrow> transport_error + 'ep
    \<Rightarrow> bytes \<Rightarrow> bytes \<Rightarrow> path list \<Rightarrow> fs \<Rightarrow> 'g \<Rightarrow> testnet_error + unit sent" where
  "testnet_send G C gen ln_f transmit os_random from_json endpoint recipient_sk sender_sk args files rng =
     (case args of
        program # path # _ \<Rightarrow>
          (case read_file path files of
             Inl e \<Rightarrow> Inl (ReadError e)
           | Inr raw \<Rightarrow>
               (case from_json raw of
                  None \<Rightarrow> Inl ParseError
                | Some relays \<Rightarrow>
                    (case client_new endpoint of
                       Inl e \<Rightarrow> Inl (NewError e)
                     | Inr client \<Rightarrow>
                         (case send_sealed G C gen ln_f transmit os_random client relays 3 (public_key G recipient_sk)
                                 (public_key G sender_sk) testnet_body rng of
                            (SendErr e, _) \<Rightarrow> Inl (SendSealedError e)
                          | (r, _) \<Rightarrow> Inr r))))
      | _ \<Rightarrow> Inl Usage)"

subsection \<open>What was sent\<close>

text \<open>A path that was shipped: its packet was built and handed to the entry relay.\<close>

lemma ship_path_Sent:
  assumes "ship_path G C gen ln_f transmit os_random c hops payload rng = (Sent (), rng')"
  obtains packet addr pk where "build_packet G C gen ln_f c hops payload rng = (Sent packet, rng')" "hops \<noteq> []"
    "rd_socket_addr (hd hops) = Some addr" "rd_kem_pubkey_bytes (hd hops) = Some pk"
    "transmit addr pk (fresh_handshake_key os_random) packet = Ok ()"
  using assms by (auto simp: ship_path_def split: prod.splits sent.splits list.splits option.splits res.splits)

lemma send_sealed_to_exit_Sent:
  assumes "send_sealed_to_exit G C gen ln_f transmit os_random c relays hop_count exit sender_pk body rng = (Sent (), rng')"
  obtains pk framed g1 hops g2 where "rd_kem_pubkey_bytes exit = Some pk"
    "seal_and_frame G C pk sender_pk body rng = (Sent framed, g1)"
    "pick_to_exit C g1 relays (gc_entry_guards c) hop_count exit = (Some hops, g2)"
    "ship_path G C gen ln_f transmit os_random c hops framed g2 = (Sent (), rng')"
  using assms
  by (auto simp: send_sealed_to_exit_def frame_sealed_for_exit_def send_to_exit_def split: prod.splits sent.splits option.splits if_splits)

lemma send_sealed_Sent:
  assumes "send_sealed G C gen ln_f transmit os_random c relays hop_count recipient_pk sender_pk body rng = (Sent (), rng')"
  obtains framed g1 hops g2 where "seal_and_frame G C recipient_pk sender_pk body rng = (Sent framed, g1)"
    "pick_path C g1 relays (gc_entry_guards c) hop_count = (Some hops, g2)"
    "ship_path G C gen ln_f transmit os_random c hops framed g2 = (Sent (), rng')"
  using assms by (auto simp: send_sealed_def client_send_def split: prod.splits sent.splits option.splits if_splits)

text \<open>When the example reports success, the entry relay took a packet for a path the selector chose from the directory.\<close>

lemma testnet_send_ok:
  assumes "testnet_send G C gen ln_f transmit os_random from_json endpoint recipient_sk sender_sk args files rng = Inr (Sent ())"
  obtains p raw relays g1 hops g2 addr pk packet where "args ! 1 = p" "read_file p files = Inr raw" "from_json raw = Some relays"
    "pick_path C g1 relays [] 3 = (Some hops, g2)" "rd_socket_addr (hd hops) = Some addr"
    "transmit addr pk (fresh_handshake_key os_random) packet = Ok ()"
proof -
  from assms obtain program p rest raw relays client g where a: "args = program # p # rest" "read_file p files = Inr raw"
    "from_json raw = Some relays" "client_new endpoint = Inr client"
    "send_sealed G C gen ln_f transmit os_random client relays 3 (public_key G recipient_sk) (public_key G sender_sk) testnet_body rng = (Sent (), g)"
    by (auto simp: testnet_send_def split: list.splits sum.splits option.splits prod.splits sent.splits)
  have "gc_entry_guards client = []" using a(4) by (auto simp: client_new_def split: sum.splits)
  with send_sealed_Sent [OF a(5)] obtain framed g1 hops g2 where
    "pick_path C g1 relays [] 3 = (Some hops, g2)" "ship_path G C gen ln_f transmit os_random client hops framed g2 = (Sent (), g)" by metis
  with ship_path_Sent [of G C gen ln_f transmit os_random client hops framed g2 g] a(1-3) that show thesis by (metis nth_Cons_0 nth_Cons_Suc One_nat_def)
qed

subsection \<open>A deposit arrives\<close>

text \<open>The promise of the path selector for an exit: a path it picks ends there, and its relays are distinct.\<close>

definition exit_paths_ok :: "('h, 'k, 'g) sender_crypto \<Rightarrow> relay_descriptor \<Rightarrow> bool" where
  "exit_paths_ok C exit \<longleftrightarrow>
     (\<forall>g relays guards n hops g'. pick_to_exit C g relays guards n exit = (Some hops, g') \<longrightarrow>
        last hops = exit \<and> distinct (map rd_kem_pubkey_bytes hops))"

text \<open>What the last relay of a path does with its outcome: the tasks it spawns run with its mailbox handler.\<close>

definition exit_effect :: "('m, 'a) mailbox_api \<Rightarrow> (bytes \<Rightarrow> bool) \<Rightarrow> (bytes \<Rightarrow> bytes \<Rightarrow> bool) \<Rightarrow> ('m \<Rightarrow> 'm)
    \<Rightarrow> (pool_key \<Rightarrow> bytes \<Rightarrow> 'n connection_pool \<Rightarrow> unit res \<times> 'n connection_pool) \<Rightarrow> bytes \<Rightarrow> u64 \<Rightarrow> process_outcome
    \<Rightarrow> 'm \<times> 'n connection_pool \<Rightarrow> 'm \<times> 'n connection_pool" where
  "exit_effect M surb_ok ship others send sk now out w =
     fold (run_task (Some (mailbox_service_handler M surb_ok ship others sk now)) (\<lambda>_ _ e. e) send) (spawn_outcome out) w"

lemma delivered_last:
  "delivered hops body outs \<Longrightarrow> \<exists>before delay. outs = before @ [Some (DeliverLocal delay body)]"
proof (induction hops body outs rule: delivered.induct)
  case (2 d nxt hops body out outs)
  then obtain before delay where "outs = before @ [Some (DeliverLocal delay body)]" by auto
  then have "Some out # outs = (Some out # before) @ [Some (DeliverLocal delay body)]" by simp
  then show ?case by blast
qed auto

lemma list_all2_lasts: "list_all2 P xs ys \<Longrightarrow> xs \<noteq> [] \<Longrightarrow> P (last xs) (last ys)"
  by (induction rule: list_all2_induct) (auto simp: list_all2_Cons1)

lemma exit_deposits:
  assumes "unsealing_handler M sk payload = Some (sender_pk, body)" "req_from_bytes M body = Some (Deposit bid sealed ttl)"
  shows "exit_effect M surb_ok ship others send sk now (DeliverLocal delay payload) (mb, pool) =
    (snd (mb_deposit M mb bid sealed now ttl), pool)"
  using assms by (simp add: exit_effect_def spawn_outcome_def run_task_def mailbox_service_handler_def)

text \<open>C7. A deposit arrives. When the client reports a message for a mailbox host as sent, it handed a packet to the entry relay of a path
  that ends at the host, and this packet, carried by relays that hold the keys of that path, are not over their limits and have
  not seen it, ends at the host as an outcome whose task puts exactly the client's deposit into the mailbox. This goes through
  sealing, framing, path selection, building and every layer of the packet, the handlers of the relays, the tasks they spawn and the
  mailbox service; it rests on the promises of the packet crate that wrapped headers unwrap and sealed envelopes open.\<close>

theorem deposit_arrives:
  assumes crates: "gotham_ok G" "sphinx_ok G C" "exit_paths_ok C exit" "\<forall>sk. seal_opens C M (public_key G sk) sk"
      "MAX_PAYLOAD_SIZE G < 2 ^ 32"
    and request: "req_from_bytes M body = Some (Deposit bid sealed ttl)"
    and sent: "send_sealed_to_exit G C gen ln_f transmit os_random c relays hop_count exit sender_pk body rng = (Sent (), rng')"
  shows "\<exists>g1 g2 hops addr pk packet. pick_to_exit C g1 relays (gc_entry_guards c) hop_count exit = (Some hops, g2) \<and>
    rd_socket_addr (hd hops) = Some addr \<and> rd_kem_pubkey_bytes (hd hops) = Some pk \<and>
    transmit addr pk (fresh_handshake_key os_random) packet = Ok () \<and>
    (\<forall>rs h. list_all2 (serves G) hops rs \<and> header_decode G (take (HEADER_LEN G) packet) = Some h \<and> route_ready G rs h \<longrightarrow>
      (\<exists>before out. travel G gen' ln_f' rs packet rng2 = before @ [Some out] \<and>
        exit_effect M surb_ok ship others send (r_identity_sk (fst (last rs))) now out (mb, pool) =
          (snd (mb_deposit M mb bid sealed now ttl), pool)))"
proof -
  from send_sealed_to_exit_Sent [OF sent] obtain epk framed g1 hops g2 where s: "rd_kem_pubkey_bytes exit = Some epk"
    "seal_and_frame G C epk sender_pk body rng = (Sent framed, g1)"
    "pick_to_exit C g1 relays (gc_entry_guards c) hop_count exit = (Some hops, g2)"
    "ship_path G C gen ln_f transmit os_random c hops framed g2 = (Sent (), rng')" by metis
  from ship_path_Sent [OF s(4)] obtain packet addr pk where p: "build_packet G C gen ln_f c hops framed g2 = (Sent packet, rng')"
    "hops \<noteq> []" "rd_socket_addr (hd hops) = Some addr" "rd_kem_pubkey_bytes (hd hops) = Some pk"
    "transmit addr pk (fresh_handshake_key os_random) packet = Ok ()" by metis
  have path: "last hops = exit" "distinct (map rd_kem_pubkey_bytes hops)" using crates(3) s(3) unfolding exit_paths_ok_def by blast+
  have arrives: "\<exists>before out. travel G gen' ln_f' rs packet rng2 = before @ [Some out] \<and>
      exit_effect M surb_ok ship others send (r_identity_sk (fst (last rs))) now out (mb, pool) =
        (snd (mb_deposit M mb bid sealed now ttl), pool)"
    if rs: "list_all2 (serves G) hops rs" "header_decode G (take (HEADER_LEN G) packet) = Some h" "route_ready G rs h" for rs h
  proof -
    obtain h' keys recs where b: "peels G (map (\<lambda>s. r_identity_sk (fst s)) rs) keys recs h'" "records_ok hops recs"
      "header_decode G (take (HEADER_LEN G) packet) = Some h'" "packet = header_encode G h' @ onion_payload G C keys framed"
      "length (padded G framed) = MAX_PAYLOAD_SIZE G" by (rule built_packet [OF crates(2) p(2,1) rs(1)])
    have "route_ready G rs h'" using rs(2,3) b(3) by simp
    from delivered_last [OF built_packet_travels [where gen = gen' and ln_f = ln_f' and rng = rng2, OF crates(1,2) p(2) path(2) rs(1) b(1,2) this b(5)]]
    obtain before delay where t: "travel G gen' ln_f' rs packet rng2 = before @ [Some (DeliverLocal delay (padded G framed))]"
      unfolding b(4) by blast
    have "serves G (last hops) (last rs)" using rs(1) p(2) by (rule list_all2_lasts)
    then have "epk = public_key G (r_identity_sk (fst (last rs)))" using s(1) path(1) by (simp add: serves_def identity_public_key_def)
    with sealed_roundtrip [where M = M, OF _ crates(5) s(2)] crates(4)
    have "unsealing_handler M (r_identity_sk (fst (last rs))) (padded G framed) = Some (sender_pk, body)" by simp
    from exit_deposits [OF this request] t show ?thesis by blast
  qed
  with s(3) p(3-5) show ?thesis by blast
qed

text \<open>Three relays, packets of twelve bytes, and a mailbox host that is the third.\<close>

definition toy_sealer :: "(nat, bytes, unit) sender_crypto" where
  "toy_sealer = toy_sender
     \<lparr>seal := \<lambda>g pk spk body. (if length spk = 1 then Some (spk @ body) else None, g),
      pick_to_exit := \<lambda>g rs gs n ex.
        (if distinct (map rd_kem_pubkey_bytes (take (n - 1) rs @ [ex])) then Some (take (n - 1) rs @ [ex]) else None, g)\<rparr>"

definition toy_net :: "(nat, bytes) gotham" where
  "toy_net = toy_onion\<lparr>PACKET_SIZE := 12\<rparr>"

lemma peels_any_size: "peels (G\<lparr>PACKET_SIZE := n\<rparr>) sks ks recs h = peels G sks ks recs h"
  by (induction G sks ks recs h rule: peels.induct) (auto split: sum.splits prod.splits)

lemma toy_net_ok: "gotham_ok toy_net"
  by (simp add: gotham_ok_def toy_net_def toy_onion_def)

lemma toy_net_sphinx: "sphinx_ok toy_net toy_sealer"
  using toy_sphinx_ok by (simp add: toy_net_def sphinx_ok_def toy_sealer_def peels_any_size) blast

lemma toy_net_ready: "route_ready toy_net toy_relays 0"
  by (simp add: toy_relays_def ready_def toy_net_def toy_onion_def relay_new_def rl_unlimited_def rl_new_def f_max_def
      rl_check_at_def quota_guard_def rc_new_def check_and_insert_at_def rc_eval)

lemma toy_records:
  "build_records half_gen toy_ln (ps_new SENDER_MEAN_DELAY_MICROS) toy_hops () = (Sent (map toy_hop_record [0, 1, 2]), ())"
  by (simp add: toy_hops_def toy_delay record_for_def toy_hop_def toy_hop_record_def default_record_def)

definition toy_framed :: bytes where
  "toy_framed = [0, 0, 0, 4, 6, 0, 5, 77]"

lemma toy_sealed_packet:
  "build_packet toy_net toy_sealer half_gen toy_ln toy_client toy_hops toy_framed () = (Sent [0, 6, 6, 6, 10, 12, 6, 11, 83, 6, 6, 6], ())"
  using toy_records
  by (simp add: build_packet_def toy_client_def toy_net_def toy_onion_def toy_sealer_def toy_sender_def MAX_PAYLOAD_SIZE_def toy_framed_def)
    (simp add: toy_hops_def toy_hop_def onion_payload_def MAX_PAYLOAD_SIZE_def numeral_3_eq_3)

theorem deposit_arrives_witness:
  "\<exists>before out. travel toy_net half_gen toy_ln toy_relays [0, 6, 6, 6, 10, 12, 6, 11, 83, 6, 6, 6] () = before @ [Some out] \<and>
     exit_effect (toy_mailbox\<lparr>unseal := \<lambda>sk e. Some ([hd e], tl e)\<rparr>) (\<lambda>_. True) (\<lambda>_ _. True) (\<lambda>mb. mb) (\<lambda>_ _ p. (Ok (), p)) [3] 100 out
       ([], toy_pool) = ([([5], [77])], toy_pool)"
proof -
  let ?M = "toy_mailbox\<lparr>unseal := \<lambda>sk e. Some ([hd e], tl e)\<rparr>" and ?packet = "[0, 6, 6, 6, 10, 12, 6, 11, 83, 6, 6, 6] :: bytes"
  let ?transmit = "\<lambda>addr pk key packet. if packet = ?packet then Ok () else Err TWrite"
  have four: "u32_to_be_bytes 4 = [0, 0, 0, 4]" by code_simp
  have framed: "seal_and_frame toy_net toy_sealer [3] [6] [0, 5, 77] () = (Sent toy_framed, ())"
    by (simp add: seal_and_frame_def frame_envelope_def MAX_PAYLOAD_SIZE_def toy_net_def toy_onion_def toy_sealer_def toy_framed_def four)
  have pick: "pick_to_exit toy_sealer g [toy_hop 1, toy_hop 2] [] 3 (toy_hop 3) = (Some toy_hops, g)" for g
    by (simp add: toy_sealer_def toy_hops_def toy_hop_def)
  have sent: "send_sealed_to_exit toy_net toy_sealer half_gen toy_ln ?transmit [] toy_client [toy_hop 1, toy_hop 2] 3 (toy_hop 3) [6] [0, 5, 77] () =
      (Sent (), ())"
  proof -
    have "rd_kem_pubkey_bytes (toy_hop 3) = Some [3]" by (simp add: toy_hop_def)
    moreover have "length toy_framed \<le> MAX_PAYLOAD_SIZE toy_net"
      by (simp add: toy_framed_def MAX_PAYLOAD_SIZE_def toy_net_def toy_onion_def)
    moreover have "gc_entry_guards toy_client = []" by (simp add: toy_client_def)
    moreover have "ship_path toy_net toy_sealer half_gen toy_ln ?transmit [] toy_client toy_hops toy_framed () = (Sent (), ())"
      unfolding ship_path_def toy_sealed_packet prod.case sent.case by (simp add: toy_hops_def toy_hop_def)
    ultimately show ?thesis
      using framed pick by (simp add: send_sealed_to_exit_def frame_sealed_for_exit_def send_to_exit_def)
  qed
  have paths: "exit_paths_ok toy_sealer (toy_hop 3)" by (auto simp: exit_paths_ok_def toy_sealer_def split: if_splits)
  have opens: "\<forall>sk. seal_opens toy_sealer ?M (public_key toy_net sk) sk"
    by (auto simp: seal_opens_def toy_sealer_def length_Suc_conv)
  have small: "MAX_PAYLOAD_SIZE toy_net < 2 ^ 32" by (simp add: MAX_PAYLOAD_SIZE_def toy_net_def toy_onion_def)
  have req: "req_from_bytes ?M [0, 5, 77] = Some (Deposit [5] [77] 60)" by (simp add: toy_mailbox_def)
  from deposit_arrives [OF toy_net_ok toy_net_sphinx paths opens small req sent, where gen' = half_gen and ln_f' = toy_ln and ?rng2.0 = "()"
      and surb_ok = "\<lambda>_. True" and ship = "\<lambda>_ _. True" and others = "\<lambda>mb. mb" and send = "\<lambda>_ _ p. (Ok (), p)" and now = 100 and mb = "[]" and pool = toy_pool]
  obtain g1 g2 hops addr pk packet where
    "pick_to_exit toy_sealer g1 [toy_hop 1, toy_hop 2] (gc_entry_guards toy_client) 3 (toy_hop 3) = (Some hops, g2)"
    "?transmit addr pk (fresh_handshake_key []) packet = Ok ()" and
    all: "\<forall>rs h. list_all2 (serves toy_net) hops rs \<and> header_decode toy_net (take (HEADER_LEN toy_net) packet) = Some h \<and> route_ready toy_net rs h \<longrightarrow>
      (\<exists>before out. travel toy_net half_gen toy_ln rs packet () = before @ [Some out] \<and>
        exit_effect ?M (\<lambda>_. True) (\<lambda>_ _. True) (\<lambda>mb. mb) (\<lambda>_ _ p. (Ok (), p)) (r_identity_sk (fst (last rs))) 100 out ([], toy_pool) =
          (snd (mb_deposit ?M [] [5] [77] 100 60), toy_pool))"
    by (elim exE conjE)
  then have t: "hops = toy_hops" "packet = ?packet" using pick by (simp_all add: toy_client_def split: if_splits)
  have "list_all2 (serves toy_net) toy_hops toy_relays"
    by (simp add: toy_hops_def toy_hop_def toy_relays_def serves_def identity_public_key_def toy_net_def toy_onion_def relay_new_def)
  moreover have "header_decode toy_net (take (HEADER_LEN toy_net) ?packet) = Some 0" by (simp add: toy_net_def toy_onion_def)
  moreover have "r_identity_sk (fst (last toy_relays)) = [3]" by (simp add: toy_relays_def relay_new_def)
  moreover have "snd (mb_deposit ?M [] [5] [77] 100 60) = [([5], [77])]" by (simp add: toy_mailbox_def)
  ultimately show ?thesis using all [unfolded t, THEN spec, of toy_relays, THEN spec, of 0] toy_net_ready by simp
qed

end
