(* ===== verification/Spec2Isabelle.thy ===== *)
theory Spec2Isabelle
  imports Client Pool Listener Endpoints Cover Enroll Command_Line System Program Connections Delivery
begin

text \<open>
  \<^bold>\<open>Gotham relay: a verification library.\<close>

  The program is a relay of a mixnet: it accepts fixed-size packets over QUIC and Noise, removes one layer of each, delays it, and
  passes it on or delivers it. Around this core it keeps a replay cache on disk, limits what it accepts, hosts a
  mailbox and a gossip service, announces itself to directory authorities, and sends cover traffic. The theories
  follow the files under \<^verbatim>\<open>src/crypto-gotham-relay/src/\<close>:

  \<^item> \<open>Prelude\<close>, \<open>Hash_Map\<close>, \<open>Byte_Codec\<close>, \<open>F64\<close>, \<open>Text_Std\<close>, \<open>Net_Addr\<close>: the language and its library. Saturating words, durations
    and instants; \<^verbatim>\<open>HashMap\<close> as an association list behind the locale \<open>hash_table\<close>; big-endian integers behind the locale
    \<open>codec\<close>; IEEE double arithmetic with its rounding behind the locale \<open>rounding\<close>; UTF-8 text and \<^verbatim>\<open>trim\<close>; the parsers of IP
    and socket addresses.
  \<^item> \<open>Replay_Cache\<close> and \<open>Replay_Persist\<close> (\<^verbatim>\<open>replay.rs\<close>): the cache as map and queue, its encoding, restoring, and the
    replacement of the file.
  \<^item> \<open>Rate_Limit\<close> (\<^verbatim>\<open>rate_limit.rs\<close>): the token bucket with the daily quota, and the bounded table of buckets by source.
  \<^item> \<open>Delay\<close> (\<^verbatim>\<open>delay.rs\<close>): the sampler of delays.
  \<^item> \<open>Process\<close> (\<^verbatim>\<open>process.rs\<close>): the relay's state, its constructors and the handler of one packet.
  \<^item> \<open>Noise_Frames\<close>, \<open>Handshake\<close>, \<open>Session\<close>, \<open>Mailbox_Service\<close>, \<open>Listener\<close>, \<open>Endpoints\<close> (\<^verbatim>\<open>transport.rs\<close>): frames and chunked
    messages, handshakes and probes, the contract \<open>request_loop\<close> that the three serving loops honour, the mailbox and gossip services,
    mixnet connections with the accept loop and its dispatch, and the endpoints.
  \<^item> \<open>Pool\<close> (\<^verbatim>\<open>pool.rs\<close>): the pool of outgoing connections.
  \<^item> \<open>Client\<close> (\<^verbatim>\<open>client.rs\<close>): building and shipping packets, sealed messages.
  \<^item> \<open>Cover\<close> (\<^verbatim>\<open>cover_loop.rs\<close>): the loop that sends real packets or decoys.
  \<^item> \<open>Enroll\<close> (\<^verbatim>\<open>enroll_client.rs\<close>): the loop that announces the relay.
  \<^item> \<open>Stores\<close>, \<open>Self_Check\<close>, \<open>Command_Line\<close> (\<^verbatim>\<open>main.rs\<close>): key files and the mailbox store, the diagnosis commands, and the
    commands that put a relay together, sign directories and shut down.
  \<^item> \<open>System\<close>: the started relay as an inductive step relation of its concurrent tasks, one step for what a task does under one lock
    (the spawned tasks of \<^verbatim>\<open>transport.rs\<close> and \<^verbatim>\<open>main.rs\<close>), with its invariant.
  \<^item> \<open>Connections\<close>: the task of an accepted connection, as \<open>Listener\<close> has it, is a sequence of these steps.
  \<^item> \<open>Program\<close> (\<^verbatim>\<open>main.rs\<close>): the commands and \<^verbatim>\<open>main\<close>, with a relay that runs as the steps of \<open>System\<close>.
  \<^item> \<open>Delivery\<close>: the way of a message from the client over the relays into a mailbox, and the program
    \<^verbatim>\<open>examples/testnet_send.rs\<close>.

  \<^bold>\<open>How code becomes definitions.\<close> A struct is a record, an enum a datatype, each function or method a definition of the same name
  (with a prefix where names clash: \<open>rc_\<close> for the replay cache, \<open>rl_\<close> and \<open>psl_\<close> for the two limiters, \<open>ps_\<close> for the scheduler).
  Methods that change their object return it. Errors are values of \<open>io_error\<close>, \<open>transport_error\<close> or of a sum type; a possible panic is
  an outer \<open>None\<close>. Integers keep their width where they can overflow. The clock, randomness, the network, the fate of every system call
  and the iteration order of a map are arguments. Where the code releases a lock or awaits, the other tasks act through a
  function that is an argument too; the theorems assume of it only that it keeps the invariant they prove.
  Shared state is thus seen by one task at a time, as the code's mutexes have it.

  Code outside the repository is a record of functions: \<open>gotham\<close> for packets, headers and X25519, \<open>noise\<close> and \<open>handshake\<close> for \<^verbatim>\<open>snow\<close>,
  \<open>mailbox_api\<close>, \<open>roster_api\<close> and \<open>store_api\<close> for the mailbox and directory crates, \<open>sender_crypto\<close> for path selection and sealing,
  \<open>enrollment_api\<close>, \<open>directory_api\<close> and \<open>gossip_api\<close> for the documents, \<open>quic\<close> for certificates, TLS and QUIC, \<open>hex_codec\<close> for
  hexadecimal text. What the theorems need of it are named laws (\<open>gotham_ok\<close>, \<open>noise_channel\<close>, \<open>sphinx_ok\<close>, \<open>seal_opens\<close>, \<open>exit_paths_ok\<close>, \<open>hex_ok\<close>,
  \<open>store_ok\<close>, \<open>alpn_ok\<close> and others), each shown to hold for a concrete instance where it is used.

  \<^bold>\<open>What the theorems show.\<close>

  \<^item> Replays: a tag is answered fresh at most once per time to live, unless that many newer tags came in between; the cache refines a window over
    the history; the relay forwards a packet at most once, however its tasks interleave; and this survives crashes and restarts, whichever saves fail.
  \<^item> Files: the replay cache and the mailbox store are replaced as a whole (both honour the contract \<open>atomic_file\<close>), a restart finds
    the last save that succeeded, and no command changes a file it was not told to write, a running relay included.
  \<^item> Limits: a started relay keeps its tables within their bounds and its tasks well formed over every sequence of steps; the number of packets a bucket lets pass in a period, the bytes of a day, the size of every table, the number of
    connections; a source gets the decisions of a limiter of its own.
  \<^item> Packets: no input makes the handler panic; a packet built by the client is peeled by its relays in turn and delivers its message at
    the end, and a deposit sent this way ends in the mailbox of its host; all packets have one size; cover packets are made like real ones, and queued messages leave in order.
  \<^item> Channels: what is written as frames is read back; handshakes agree on a key or fail, and never wait for ever; a client reaches the
    service it was built for, a service changes nothing but its own state, and what a connection does is what the step relation allows.
  \<^item> Services: only the owner of a mailbox removes messages from it; only verified rosters are merged; hosting is only
    confirmed to the authority.
  \<^item> Operation: every authority gets the same document, a pinned key stays, a started relay announces what it serves, keys have 32
    bytes, a generated key can be used, a signed directory can route, and the self-check reports each change once.

  \<^bold>\<open>Bounds and loops.\<close> Loops over data are recursive functions with a termination proof; loops over a stream consume it, so the measure is what
  is left to read. Loops that run for ever (accepting, enrolling, watching, saving, sending cover traffic) are functions of the
  finite list of what happened so far, and the theorems hold for every such list. No fuel is used. Numbers of rounds and sizes are those of the
  source, for instance 1024 connections, 512 requests and a cap of 100 means for a delay.

  \<^bold>\<open>Not modelled.\<close> The modules \<^verbatim>\<open>gossip\<close>, \<^verbatim>\<open>mailbox_client\<close>, \<^verbatim>\<open>nat\<close>, \<^verbatim>\<open>rendezvous\<close> and \<^verbatim>\<open>surb\<close> that \<^verbatim>\<open>lib.rs\<close> declares are not in the
  repository; where other code calls them they are arguments. The crate root \<^verbatim>\<open>lib.rs\<close> itself only declares and re-exports modules and
  installs the TLS provider. The files change in the steps of \<open>System\<close> only by the relay's own tasks; what an operator does to them
  meanwhile is left out. The rest of the source files are tests. Logging, printed texts, zeroization, the argument parser's syntax and
  the handling of signals have no model. Timeouts appear as the failure they cause. Time is read where the code reads it, and nothing is
  said about how long a computation takes. The text after \<^verbatim>\<open>bad hex\<close> and similar prefixes of error messages is left out.
\<close>

section \<open>A restart of the whole relay\<close>

text \<open>C4. A restart loses nothing: when the relay is stopped and its two saves succeed, the relay that \<^verbatim>\<open>run\<close> builds from
  the same arguments hosts the mailbox as it was and drops every packet the old one had seen, as long as the packet's time to
  live, counted with the wall clock over the time the relay was down, is not over. This needs the two stores to have
  temporary files of their own.\<close>

theorem run_restart:
  assumes "gotham_ok G" "store_ok S"
    and paths: "ra_mailbox a" "ra_mailbox_store a = Some q" "ra_replay_cache_path a = Some p" "r_replay_path relay = Some p"
      "pext p \<noteq> Some ''tmp''" "pext q \<noteq> Some ''tmp''" "with_extension ''tmp'' p \<noteq> with_extension ''tmp'' q"
    and saves: "ex_store ex = Store_ok" "spares q (ex_between ex)" "ex_write ex = Write_ok" "st_to_vec S (st_snapshot S mb) \<noteq> None"
    and cache: "rc_inv (r_replay_cache relay)" "list_all key_ok (rc_queue (r_replay_cache relay))"
      "(header_gamma G h, ts) \<in> set (rc_queue (r_replay_cache relay))" "length (rc_queue (r_replay_cache relay)) \<le> ra_replay_size a"
      "rc_ttl (r_replay_cache relay) = from_secs (unat (ra_replay_ttl_secs a))"
      "duration_since (ex_now ex) ts \<le> rc_ttl (r_replay_cache relay)"
    and time: "D = from_secs (unat (bo_unix bo) - (unat (ex_unix ex) - as_secs (duration_since (ex_now ex) ts)))"
      "D \<le> rc_ttl (r_replay_cache relay)" "t \<le> bo_now bo + int (rc_ttl (r_replay_cache relay) - D)"
    and packet: "authentic G sk True packet = Some (h, k, u)"
    and again: "run_setup X G S A upnp delivery a bo (run_shutdown S m ex a (Some mb) relay files) = Inr plan" "rp_sk plan = sk"
  shows "rp_mailbox plan = Some (st_from_snapshot S (st_snapshot S mb) (bo_unix bo)) \<and>
    (\<exists>reason. fst (process G gen ln_f t0 t packet (rp_relay plan) rng) = Some (Drop reason))"
proof -
  let ?files = "run_shutdown S m ex a (Some mb) relay files" and ?c = "r_replay_cache relay"
  obtain bs where bs: "st_to_vec S (st_snapshot S mb) = Some bs" using saves(4) by auto
  note sf = shutdown_files [OF paths(2,4-7) saves(1-3) bs, of m files]
  from run_setup_plan [OF again(1)] again(2) have plan: "rp_relay plan = configure_relay a bo sk ?files"
    "rp_mailbox plan = (if ra_mailbox a then Some (load_mailbox S (bo_unix bo) (ra_mailbox_store a) ?files) else None)" by metis+
  have "load_mailbox S (bo_unix bo) (Some q) ?files = st_from_snapshot S (st_snapshot S mb) (bo_unix bo)"
    unfolding load_mailbox_store sf(2) using bs assms(2) by (simp add: store_ok_def)
  moreover obtain res c' where l: "load (bo_lowest bo) (Inr (encode (ex_now ex) (ex_unix ex) ?c)) (bo_now bo) (bo_unix bo)
      (rc_new (ra_replay_size a) (rc_ttl ?c)) = (res, c')" by fastforce
  then have "r_replay_cache (rp_relay plan) = c'"
    unfolding plan(1) using configure_relay_cache [of a p ?files, OF paths(3) sf(1)] cache(5) by simp
  with restart_keeps_protection [OF cache(1,2,3,6,4) time l]
  have "fst (check_and_insert_at (header_gamma G h) t (r_replay_cache (rp_relay plan))) = Replay" by simp
  then have "\<exists>reason. fst (process G gen ln_f t0 t packet (rp_relay plan) rng) = Some (Drop reason)"
    by (intro process_seen [OF assms(1)]) (simp_all add: plan(1) packet)
  ultimately show ?thesis using plan(2) paths(1,2) by simp
qed

definition seen_gotham :: "(bytes, unit) gotham" where
  "seen_gotham = toy_gotham\<lparr>header_gamma := \<lambda>h. h @ replicate 14 0\<rparr>"

text \<open>A relay that saw a packet at time 0, and a clean shutdown ten seconds later.\<close>

definition seen_relay :: relay where
  "seen_relay =
     toy_relay\<lparr>r_replay_path := ra_replay_cache_path toy_args,
       r_replay_cache := \<lparr>rc_map = [([4, 0] @ replicate 14 0, 0)], rc_queue = [([4, 0] @ replicate 14 0, 0)],
         rc_ttl = from_secs 60, rc_max_size = 2\<rparr>\<rparr>"

theorem run_restart_witness:
  "\<exists>plan. run_setup std_hex seen_gotham toy_store toy_gossip (\<lambda>_ _. Inl []) (Inr ()) toy_args toy_boot
       (run_shutdown toy_store 420 clean_exit toy_args (Some [5]) seen_relay toy_files) = Inr plan \<and>
     rp_mailbox plan = Some [5] \<and>
     (\<exists>reason. fst (process seen_gotham (\<lambda>g. (Fin 0, g)) (\<lambda>u. u) 0 6 [4, 0, 1, 2] (rp_relay plan) ()) = Some (Drop reason))"
proof -
  let ?files = "run_shutdown toy_store 420 clean_exit toy_args (Some [5]) seen_relay toy_files"
  have kf: "?files toy_path = toy_files toy_path"
    by (simp add: run_shutdown_def toy_args_def clean_exit_def seen_relay_def persist_replay_def save_def write_encoded_def
        persist_mailbox_def rename_file_def Let_def with_extension_def toy_path_def toy_store_def open_truncate_def)
  obtain plan where p: "run_setup std_hex seen_gotham toy_store toy_gossip (\<lambda>_ _. Inl []) (Inr ()) toy_args toy_boot ?files = Inr plan"
    by (rule toy_setup_with [of ?files seen_gotham, OF kf])
  obtain sk where "read_key_file std_hex (ra_key_file toy_args) ?files = Inr sk" "rp_sk plan = sk"
    by (rule run_setup_plan [OF p])
  moreover have "ra_key_file toy_args = toy_path" by (simp add: toy_args_def)
  ultimately have sk: "rp_sk plan = replicate 32 7" using toy_key [of ?files, OF kf] by simp
  have g: "gotham_ok seen_gotham" using toy_gotham_ok by (simp add: gotham_ok_def seen_gotham_def)
  have st: "store_ok toy_store" by (auto simp: store_ok_def toy_store_def)
  have au: "authentic seen_gotham (replicate 32 7) True [4, 0, 1, 2] = Some ([4, 0], (), toy_record [4, 0], [4, 0])"
    by (simp add: authentic_def toy_gotham_def seen_gotham_def)
  have "rp_mailbox plan = Some (st_from_snapshot toy_store (st_snapshot toy_store [5]) (bo_unix toy_boot)) \<and>
     (\<exists>reason. fst (process seen_gotham (\<lambda>g. (Fin 0, g)) (\<lambda>u. u) 0 6 [4, 0, 1, 2] (rp_relay plan) ()) = Some (Drop reason))"
    by (rule run_restart [OF g st _ _ _ _ _ _ _ _ _ _ _ _ _ _ _ _ _ refl _ _ au p sk, where ts = 0 and p = "\<lparr>pdir = ''/'', pstem = ''replay'', pext = None\<rparr>"
          and q = "\<lparr>pdir = ''/'', pstem = ''mail'', pext = None\<rparr>"])
      (simp_all add: toy_args_def seen_relay_def clean_exit_def spares_def with_extension_def toy_store_def rc_inv_def hm_exec
        fun_eq_iff key_ok_def time_simps duration_since_def seen_gotham_def toy_boot_def)
  with p show ?thesis by (simp add: toy_store_def)
qed

end
